(* ===== verification/Exec_Prelude.thy ===== *)
theory Exec_Prelude
  imports Main "HOL-Library.Word" "HOL-Library.Monad_Syntax"
begin

text \<open>
  Shared vocabulary of the development: the machine integers of the crate (\<open>usize\<close>
  is 64 bits wide), the Rust standard-library operations it uses on them, the outcome of a
  panicking operation, and the counting lemmas on finite maps that every accounting
  invariant rests on.

  An operation that can panic returns an \<open>option\<close>: \<open>None\<close> is the panic
  (a failed \<^verbatim>\<open>debug_assert!\<close>, or an arithmetic overflow under overflow checks) and
  \<open>Some\<close> the normal return. The flag \<open>dbg\<close> is the build profile:
  with it, \<^verbatim>\<open>debug_assert!\<close> and the overflow checks are compiled in; without it an
  assertion is skipped and \<^verbatim>\<open>+=\<close> wraps around.
\<close>

type_synonym u8 = "8 word"
type_synonym u64 = "64 word"
type_synonym usize = "64 word"

named_theorems panic_free \<open>operations that return normally\<close>
named_theorems frame \<open>fields an operation does not write\<close>

section \<open>Standard-library operations\<close>

definition debug_assert :: "bool \<Rightarrow> bool \<Rightarrow> unit option" where
  "debug_assert dbg p = (if dbg \<and> \<not> p then None else Some ())"

definition add_assign :: "bool \<Rightarrow> usize \<Rightarrow> usize \<Rightarrow> usize option" where
  "add_assign dbg a b =
     (if dbg \<and> 2 ^ 64 \<le> unat a + unat b then None else Some (a + b))"

definition saturating_add :: "usize \<Rightarrow> usize \<Rightarrow> usize" where
  "saturating_add a b = (if 2 ^ 64 \<le> unat a + unat b then - 1 else a + b)"

definition saturating_sub :: "usize \<Rightarrow> usize \<Rightarrow> usize" where
  "saturating_sub a b = (if a < b then 0 else a - b)"

definition wrapping_add :: "u64 \<Rightarrow> u64 \<Rightarrow> u64" where
  "wrapping_add a b = a + b"

text \<open>
  \<^verbatim>\<open>AtomicU8::compare_exchange\<close>: the new contents, and \<open>Inr\<close> of the previous value
  when the exchange took place, \<open>Inl\<close> of the actual value otherwise.
\<close>

definition compare_exchange :: "u8 \<Rightarrow> u8 \<Rightarrow> u8 \<Rightarrow> (u8 + u8) \<times> u8" where
  "compare_exchange cell current new =
     (if cell = current then (Inr cell, new) else (Inl cell, cell))"

text \<open>\<^verbatim>\<open>AtomicU8::swap\<close>: the previous value and the new contents.\<close>

definition swap :: "u8 \<Rightarrow> u8 \<Rightarrow> u8 \<times> u8" where
  "swap cell new = (cell, new)"

lemma debug_assert_True [simp]: "debug_assert dbg True = Some ()"
  by (simp add: debug_assert_def)

lemma debug_assert_Some_iff [simp]: "debug_assert dbg p = Some u \<longleftrightarrow> dbg \<longrightarrow> p"
  by (auto simp: debug_assert_def)

lemma unat_usize_less [simp]: "unat (a :: usize) < 2 ^ 64"
  using unsigned_less [of a] by simp

lemma unat_minus_one_usize: "unat (- 1 :: usize) = 2 ^ 64 - 1"
  by (simp add: unsigned_minus_1_eq_mask mask_eq_exp_minus_1)

lemma unat_usize_add: "unat a + unat b < 2 ^ 64 \<Longrightarrow> unat (a + b) = unat a + unat (b :: usize)"
  by (simp add: unat_word_ariths)

lemma add_assign_fits: "unat a + unat b < 2 ^ 64 \<Longrightarrow> add_assign dbg a b = Some (a + b)"
  by (simp add: add_assign_def)

lemma unat_saturating_add:
  "unat (saturating_add a b) = min (2 ^ 64 - 1) (unat a + unat b)"
  by (auto simp: saturating_add_def unat_minus_one_usize unat_word_ariths min_def)

lemma unat_saturating_sub: "unat (saturating_sub a b) = unat a - unat b"
  by (auto simp: saturating_sub_def unat_sub word_le_nat_alt word_less_nat_alt)

lemma saturating_sub_one: "0 < a \<Longrightarrow> saturating_sub a 1 = a - 1"
  by (simp add: saturating_sub_def)

lemma unat_pos_iff: "0 < unat a \<longleftrightarrow> 0 < (a :: usize)"
  by (simp add: word_less_nat_alt)

section \<open>Sums over finite maps\<close>

text \<open>
  \<open>msum f m\<close> adds \<open>f v\<close> over the values of a finite map: with \<open>f\<close> the
  contribution of one task it is the total the service's counters must equal.
\<close>

definition msum :: "('v \<Rightarrow> nat) \<Rightarrow> ('k \<rightharpoonup> 'v) \<Rightarrow> nat" where
  "msum f m = (\<Sum>k\<in>dom m. f (the (m k)))"

lemma msum_empty [simp]: "msum f Map.empty = 0"
  by (simp add: msum_def)

lemma msum_upd_new:
  assumes "finite (dom m)" and "m k = None"
  shows "msum f (m(k \<mapsto> v)) = msum f m + f v"
proof -
  from assms(2) have "k \<notin> dom m" by auto
  moreover from this have "(\<Sum>j\<in>dom m. f (the (if j = k then Some v else m j))) = msum f m"
    unfolding msum_def by (intro sum.cong) auto
  ultimately show ?thesis using assms(1) by (simp add: msum_def)
qed

lemma msum_remove:
  assumes "finite (dom m)" and "m k = Some u"
  shows "msum f m = f u + msum f (m(k := None))"
proof -
  from assms(2) have "k \<in> dom m" by auto
  with assms(1) have "msum f m = f (the (m k)) + (\<Sum>j\<in>dom m - {k}. f (the (m j)))"
    by (simp add: msum_def sum.remove)
  also have "(\<Sum>j\<in>dom m - {k}. f (the (m j))) = msum f (m(k := None))"
    unfolding msum_def by (intro sum.cong) auto
  finally show ?thesis using assms(2) by simp
qed

lemma msum_upd:
  assumes "finite (dom m)" and "m k = Some u"
  shows "msum f (m(k \<mapsto> v)) + f u = msum f m + f v"
proof -
  have "msum f ((m(k := None))(k \<mapsto> v)) = msum f (m(k := None)) + f v"
    using assms(1) by (intro msum_upd_new) auto
  with msum_remove [OF assms, of f] show ?thesis by simp
qed

lemma msum_member_le: "finite (dom m) \<Longrightarrow> m k = Some u \<Longrightarrow> f u \<le> msum f m"
  by (simp add: msum_remove)

lemma msum_eq_0_iff: "finite (dom m) \<Longrightarrow> msum f m = 0 \<longleftrightarrow> (\<forall>k u. m k = Some u \<longrightarrow> f u = 0)"
  by (auto simp: msum_def dom_def)

lemma msum_add: "msum (\<lambda>v. f v + g v) m = msum f m + msum g m"
  by (simp add: msum_def sum.distrib)

lemma msum_upd_same:
  "finite (dom m) \<Longrightarrow> m k = Some u \<Longrightarrow> f v = f u \<Longrightarrow> msum f (m(k \<mapsto> v)) = msum f m"
  using msum_upd [of m k u f v] by simp

end
