(* ===== verification/Rejected_Task.thy ===== *)
theory Rejected_Task
  imports Exec_Prelude
begin

text \<open>
  \<^verbatim>\<open>src/rejected_task.rs\<close>: a task handed back to its submitter together with the reason
  of the rejection. \<^verbatim>\<open>SubmissionError\<close> is an enum of \<^verbatim>\<open>qubit_executor\<close>; the
  services of this crate construct the two variants below and no other. How a reason prints
  is the enum's own business, so the two formatting functions take it as an argument.
\<close>

datatype SubmissionError = Shutdown | Saturated

record 't RejectedTask =
  rejected_reason :: SubmissionError
  rejected_task :: 't

definition rejected_new :: "SubmissionError \<Rightarrow> 't \<Rightarrow> 't RejectedTask" where
  "rejected_new reason task = \<lparr>rejected_reason = reason, rejected_task = task\<rparr>"

definition reason :: "'t RejectedTask \<Rightarrow> SubmissionError" where
  "reason r = rejected_reason r"

definition into_parts :: "'t RejectedTask \<Rightarrow> SubmissionError \<times> 't" where
  "into_parts r = (rejected_reason r, rejected_task r)"

text \<open>
  \<^verbatim>\<open>debug_struct(..).field(..).finish_non_exhaustive()\<close> in the compact form (\<^verbatim>\<open>{:?}\<close>):
  the struct's name, the one field, and two dots for what is left out.
\<close>

definition fmt_debug :: "(SubmissionError \<Rightarrow> string) \<Rightarrow> 't RejectedTask \<Rightarrow> string" where
  "fmt_debug reason_debug r =
     ''RejectedTask { reason: '' @ reason_debug (rejected_reason r) @ '', .. }''"

definition fmt_display :: "(SubmissionError \<Rightarrow> string) \<Rightarrow> 't RejectedTask \<Rightarrow> string" where
  "fmt_display reason_display r = reason_display (rejected_reason r)"

lemma into_parts_new [simp]: "into_parts (rejected_new e t) = (e, t)"
  by (simp add: into_parts_def rejected_new_def)

lemma reason_new [simp]: "reason (rejected_new e t) = e"
  by (simp add: reason_def rejected_new_def)

text \<open>
  \<^verbatim>\<open>map_err(|rejected| rejected.into_parts().0)\<close> of the consuming submission methods: the
  reason is kept and the task dropped, in the state \<open>s\<close> of whoever can see that drop.
\<close>

definition map_rejection ::
  "('t \<Rightarrow> 's \<Rightarrow> 's) \<Rightarrow> ('t RejectedTask + 'r) \<times> 's \<Rightarrow> (SubmissionError + 'r) \<times> 's" where
  "map_rejection drop_task result = (case result of
     (Inl rejected, s) \<Rightarrow> (let (reason, task) = into_parts rejected in (Inl reason, drop_task task s))
   | (Inr r, s) \<Rightarrow> (Inr r, s))"

lemma map_rejection_simps [simp]:
  "map_rejection d (Inl (rejected_new e t), s) = (Inl e, d t s)" "map_rejection d (Inr r, s) = (Inr r, s)"
  by (simp_all add: map_rejection_def)

end
