(* ===== verification/Task_Slot.thy ===== *)
theory Task_Slot
  imports Exec_Prelude
begin

text \<open>
  \<^verbatim>\<open>src/tokio_task_slot_cancellation.rs\<close>: the runner-side completion slot of a task, shared
  by the runner and the stop path. The cell itself (\<^verbatim>\<open>TaskSlotCell\<close>) is code of
  \<^verbatim>\<open>qubit_executor\<close>: its constructor, \<^verbatim>\<open>take\<close> and \<^verbatim>\<open>cancel_unstarted\<close> are arguments,
  acting on whatever state \<open>'w\<close> the caller threads through.
\<close>

definition share_task_slot :: "('slot \<Rightarrow> 'w \<Rightarrow> 'cell \<times> 'w) \<Rightarrow> 'slot \<Rightarrow> 'w \<Rightarrow> 'cell \<times> 'w" where
  "share_task_slot cell_new slot w = cell_new slot w"

definition take_task_slot ::
  "('cell \<Rightarrow> 'w \<Rightarrow> 'slot option \<times> 'w) \<Rightarrow> 'cell \<Rightarrow> 'w \<Rightarrow> 'slot option \<times> 'w" where
  "take_task_slot cell_take slot w = cell_take slot w"

definition cancel_unstarted_task_slot_if_queued ::
  "('cell \<Rightarrow> 'w \<Rightarrow> bool \<times> 'w) \<Rightarrow> 'cell \<Rightarrow> ('w \<Rightarrow> (bool \<times> 'w) option)
   \<Rightarrow> 'w \<Rightarrow> (bool \<times> 'w) option" where
  "cancel_unstarted_task_slot_if_queued cancel_unstarted slot finish_queued w = do {
     (won, w) \<leftarrow> finish_queued w;
     if won then do {
       let (_, w) = cancel_unstarted slot w;
       Some (True, w)
     } else Some (False, w)
   }"

lemma cancel_unstarted_lost:
  "finish_queued w = Some (False, w') \<Longrightarrow>
   cancel_unstarted_task_slot_if_queued cu slot finish_queued w = Some (False, w')"
  by (simp add: cancel_unstarted_task_slot_if_queued_def)

lemma cancel_unstarted_won:
  "finish_queued w = Some (True, w') \<Longrightarrow>
   cancel_unstarted_task_slot_if_queued cu slot finish_queued w = Some (True, snd (cu slot w'))"
  by (simp add: cancel_unstarted_task_slot_if_queued_def split_beta)

end
