(* ===== verification/Lifecycle_Bits.thy ===== *)
theory Lifecycle_Bits
  imports Exec_Prelude
begin

text \<open>
  \<^verbatim>\<open>src/executor_service_lifecycle_bits.rs\<close>: the lifecycle of a service, stored as one
  atomic byte. The enum comes from \<^verbatim>\<open>qubit_executor\<close>; its variants are the four the
  decoder's table names, and the cast \<^verbatim>\<open>as u8\<close> is the position in that table, which is
  what the decoder itself relies on when it indexes the table with the byte.
\<close>

section \<open>The lifecycle and its encoding\<close>

datatype ExecutorServiceLifecycle = Running | ShuttingDown | Stopping | Terminated

definition STATES :: "ExecutorServiceLifecycle list" where
  "STATES = [Running, ShuttingDown, Stopping, Terminated]"

fun as_u8 :: "ExecutorServiceLifecycle \<Rightarrow> u8" where
  "as_u8 Running = 0"
| "as_u8 ShuttingDown = 1"
| "as_u8 Stopping = 2"
| "as_u8 Terminated = 3"

definition from_u8 :: "u8 \<Rightarrow> ExecutorServiceLifecycle" where
  "from_u8 value = STATES ! unat (min value (as_u8 Terminated))"

text \<open>
  The atomic byte is the argument and the result; \<^verbatim>\<open>fetch_update\<close> retries its closure
  until the exchange succeeds, so it is one atomic read-modify-write that leaves the byte
  alone when the closure returns \<^verbatim>\<open>None\<close>.
\<close>

definition load :: "u8 \<Rightarrow> ExecutorServiceLifecycle" where
  "load lifecycle = from_u8 lifecycle"

definition fetch_update :: "u8 \<Rightarrow> (u8 \<Rightarrow> u8 option) \<Rightarrow> u8" where
  "fetch_update cell f = (case f cell of None \<Rightarrow> cell | Some new \<Rightarrow> new)"

definition shutdown_bits :: "u8 \<Rightarrow> u8" where
  "shutdown_bits lifecycle = fetch_update lifecycle
     (\<lambda>current. if from_u8 current = Running then Some (as_u8 ShuttingDown) else None)"

definition stop_bits :: "u8 \<Rightarrow> u8" where
  "stop_bits lifecycle = as_u8 Stopping"

section \<open>The order of the lifecycle\<close>

text \<open>The lifecycle only moves forward; the order is that of the encoding.\<close>

instantiation ExecutorServiceLifecycle :: linorder
begin

definition less_eq_ExecutorServiceLifecycle ::
  "ExecutorServiceLifecycle \<Rightarrow> ExecutorServiceLifecycle \<Rightarrow> bool" where
  "less_eq_ExecutorServiceLifecycle a b = (unat (as_u8 a) \<le> unat (as_u8 b))"

definition less_ExecutorServiceLifecycle ::
  "ExecutorServiceLifecycle \<Rightarrow> ExecutorServiceLifecycle \<Rightarrow> bool" where
  "less_ExecutorServiceLifecycle a b = (unat (as_u8 a) < unat (as_u8 b))"

instance
proof
  fix a b c :: ExecutorServiceLifecycle
  show "(a < b) = (a \<le> b \<and> \<not> b \<le> a)"
    by (auto simp: less_eq_ExecutorServiceLifecycle_def less_ExecutorServiceLifecycle_def)
  show "a \<le> a"
    by (simp add: less_eq_ExecutorServiceLifecycle_def)
  show "a \<le> b \<Longrightarrow> b \<le> c \<Longrightarrow> a \<le> c"
    by (simp add: less_eq_ExecutorServiceLifecycle_def)
  show "a \<le> b \<Longrightarrow> b \<le> a \<Longrightarrow> a = b"
    by (cases a; cases b; simp add: less_eq_ExecutorServiceLifecycle_def)
  show "a \<le> b \<or> b \<le> a"
    by (auto simp: less_eq_ExecutorServiceLifecycle_def)
qed

end

lemma lifecycle_less_eq_simps [simp]:
  "Running \<le> l" "l \<le> Terminated" "ShuttingDown \<le> Stopping"
  "ShuttingDown \<le> l \<longleftrightarrow> l \<noteq> Running" "Stopping \<le> l \<longleftrightarrow> l = Stopping \<or> l = Terminated"
  by (cases l; simp add: less_eq_ExecutorServiceLifecycle_def)+

section \<open>Decoding\<close>

lemma from_u8_as_u8 [simp]: "from_u8 (as_u8 l) = l"
  by (cases l) (simp_all add: from_u8_def STATES_def min_def)

lemma from_u8_numerals [simp]:
  "from_u8 0 = Running" "from_u8 1 = ShuttingDown" "from_u8 2 = Stopping" "from_u8 3 = Terminated"
  using from_u8_as_u8 [of Running] from_u8_as_u8 [of ShuttingDown]
    from_u8_as_u8 [of Stopping] from_u8_as_u8 [of Terminated] by simp_all

lemma from_u8_large: "3 \<le> v \<Longrightarrow> from_u8 v = Terminated"
  by (simp add: from_u8_def STATES_def min_absorb2)

lemma table_index_in_range: "unat (min v (as_u8 Terminated)) < length STATES"
proof -
  have "min v (as_u8 Terminated) \<le> (3 :: u8)" by simp
  then have "unat (min v (as_u8 Terminated)) \<le> 3" by (simp add: word_le_nat_alt)
  then show ?thesis by (simp add: STATES_def)
qed

lemma byte_cases:
  obtains "v = (0 :: u8)" | "v = 1" | "v = 2" | "3 \<le> v"
proof -
  have "v = 0 \<or> v = 1 \<or> v = 2 \<or> 3 \<le> v" by unat_arith
  then show thesis using that by blast
qed

lemma load_Running_iff [simp]: "load v = Running \<longleftrightarrow> v = 0"
  by (cases v rule: byte_cases) (auto simp: load_def from_u8_large)

section \<open>Transitions\<close>

lemma load_shutdown_bits:
  "load (shutdown_bits v) = (if load v = Running then ShuttingDown else load v)"
  by (auto simp: shutdown_bits_def fetch_update_def load_def
      simp flip: as_u8.simps(2) simp del: as_u8.simps)

lemma load_stop_bits [simp]: "load (stop_bits v) = Stopping"
  by (simp add: stop_bits_def load_def del: as_u8.simps)

lemma shutdown_bits_not_running [simp]: "load (shutdown_bits v) \<noteq> Running"
  by (simp add: load_shutdown_bits del: load_Running_iff)

lemma load_zero [simp]: "load 0 = Running"
  by (simp add: load_def)

end
