(* ===== verification/Task_Counts.thy ===== *)
theory Task_Counts
  imports Exec_Prelude
begin

text \<open>
  \<^verbatim>\<open>src/tokio_executor_service_state/internal/tokio_executor_task_counts.rs\<close>: the numbers
  of queued and running blocking tasks, guarded by the service's monitor. The argument
  \<open>dbg\<close> is the build profile (see \<^theory_text>\<open>Exec_Prelude\<close>).
\<close>

record TokioExecutorTaskCounts =
  queued :: usize
  running :: usize

definition counts_default :: TokioExecutorTaskCounts where
  "counts_default = \<lparr>queued = 0, running = 0\<rparr>"

definition accept_task :: "bool \<Rightarrow> TokioExecutorTaskCounts \<Rightarrow> TokioExecutorTaskCounts option" where
  "accept_task dbg c = do {
     q \<leftarrow> add_assign dbg (queued c) 1;
     Some (c\<lparr>queued := q\<rparr>)
   }"

definition mark_started :: "bool \<Rightarrow> TokioExecutorTaskCounts \<Rightarrow> TokioExecutorTaskCounts option" where
  "mark_started dbg c = do {
     debug_assert dbg (queued c > 0);
     let c = c\<lparr>queued := saturating_sub (queued c) 1\<rparr>;
     r \<leftarrow> add_assign dbg (running c) 1;
     Some (c\<lparr>running := r\<rparr>)
   }"

definition counts_finish_task ::
  "bool \<Rightarrow> bool \<Rightarrow> TokioExecutorTaskCounts \<Rightarrow> TokioExecutorTaskCounts option" where
  "counts_finish_task dbg started c =
     (if started then do {
        debug_assert dbg (running c > 0);
        Some (c\<lparr>running := saturating_sub (running c) 1\<rparr>)
      } else do {
        debug_assert dbg (queued c > 0);
        Some (c\<lparr>queued := saturating_sub (queued c) 1\<rparr>)
      })"

definition is_empty :: "TokioExecutorTaskCounts \<Rightarrow> bool" where
  "is_empty c \<longleftrightarrow> queued c = 0 \<and> running c = 0"

text \<open>The admission guard of the service state: queued and running tasks, saturating.\<close>

definition unfinished :: "TokioExecutorTaskCounts \<Rightarrow> usize" where
  "unfinished c = saturating_add (queued c) (running c)"

section \<open>The counters as natural numbers\<close>

text \<open>
  \<open>counts_are q r c\<close>: the counters read \<open>q\<close> and \<open>r\<close>, and neither operation
  below can leave the range of \<open>usize\<close> from there.
\<close>

definition counts_are :: "nat \<Rightarrow> nat \<Rightarrow> TokioExecutorTaskCounts \<Rightarrow> bool" where
  "counts_are q r c \<longleftrightarrow> unat (queued c) = q \<and> unat (running c) = r \<and> q + r < 2 ^ 64"

lemma counts_are_default [simp]: "counts_are 0 0 counts_default"
  by (simp add: counts_are_def counts_default_def)

lemma is_empty_counts_are: "counts_are q r c \<Longrightarrow> is_empty c \<longleftrightarrow> q = 0 \<and> r = 0"
  by (auto simp: counts_are_def is_empty_def unat_eq_zero)

lemma unfinished_counts_are: "counts_are q r c \<Longrightarrow> unat (unfinished c) = q + r"
  by (auto simp: counts_are_def unfinished_def unat_saturating_add)

lemma accept_task_counts:
  assumes "counts_are q r c" and "q + r < 2 ^ 64 - 1"
  obtains c' where "accept_task dbg c = Some c'" and "counts_are (q + 1) r c'"
proof -
  have "unat (queued c) + unat (1 :: usize) < 2 ^ 64"
    using assms by (simp add: counts_are_def)
  then have "accept_task dbg c = Some (c\<lparr>queued := queued c + 1\<rparr>)"
    and "unat (queued c + 1) = unat (queued c) + 1"
    by (simp_all add: accept_task_def add_assign_fits unat_usize_add)
  with assms show ?thesis by (intro that) (auto simp: counts_are_def)
qed

lemma mark_started_counts:
  assumes "counts_are q r c" and "0 < q"
  obtains c' where "mark_started dbg c = Some c'" and "counts_are (q - 1) (r + 1) c'"
proof -
  have pos: "0 < queued c" using assms by (auto simp: counts_are_def simp flip: unat_pos_iff)
  have fits: "unat (running c) + unat (1 :: usize) < 2 ^ 64"
    using assms by (auto simp: counts_are_def)
  have "mark_started dbg c =
      Some (c\<lparr>queued := saturating_sub (queued c) 1, running := running c + 1\<rparr>)"
    using pos fits by (simp add: mark_started_def add_assign_fits Let_def)
  moreover have "unat (running c + 1) = unat (running c) + 1"
    using fits by (simp add: unat_usize_add)
  ultimately show ?thesis using assms
    by (intro that) (auto simp: counts_are_def unat_saturating_sub)
qed

lemma finish_queued_counts:
  assumes "counts_are q r c" and "0 < q"
  obtains c' where "counts_finish_task dbg False c = Some c'" and "counts_are (q - 1) r c'"
proof -
  have "0 < queued c" using assms by (auto simp: counts_are_def simp flip: unat_pos_iff)
  then have "counts_finish_task dbg False c = Some (c\<lparr>queued := saturating_sub (queued c) 1\<rparr>)"
    by (simp add: counts_finish_task_def)
  with assms show ?thesis by (intro that) (auto simp: counts_are_def unat_saturating_sub)
qed

lemma finish_running_counts:
  assumes "counts_are q r c" and "0 < r"
  obtains c' where "counts_finish_task dbg True c = Some c'" and "counts_are q (r - 1) c'"
proof -
  have "0 < running c" using assms by (auto simp: counts_are_def simp flip: unat_pos_iff)
  then have "counts_finish_task dbg True c = Some (c\<lparr>running := saturating_sub (running c) 1\<rparr>)"
    by (simp add: counts_finish_task_def)
  with assms show ?thesis by (intro that) (auto simp: counts_are_def unat_saturating_sub)
qed

end
