(* ===== verification/Blocking_State.thy ===== *)
theory Blocking_State
  imports Lifecycle_Bits Task_Counts
begin

text \<open>
  \<^verbatim>\<open>src/tokio_executor_service_state.rs\<close> with its \<^verbatim>\<open>internal/tracked_abort_handle.rs\<close> and
  \<^verbatim>\<open>src/tokio_task_registration.rs\<close>: the state shared by all clones of a blocking
  service, and the registration markers of its tasks.

  A marker is reached through its address (an \<^verbatim>\<open>Arc\<close> pointer cast to \<^verbatim>\<open>usize\<close>), which is
  also the key of its abort handle; the markers live in a store. The monitor's and mutexes'
  critical sections are single updates; the submission lock, which is held across calls, is
  a flag, and locking it twice in a row (the mutex is not reentrant) never returns, written
  \<open>None\<close> like a panic. \<^verbatim>\<open>Notify\<close> and the monitor's condition are counters of the
  notification calls made; \<^verbatim>\<open>watch::Sender\<close> keeps its generation value. Tokio's abort
  handle and the boxed cancellation hook are the type parameters \<open>'h\<close> and \<open>'c\<close>.
\<close>

section \<open>Registration markers\<close>

record TokioTaskRegistration =
  finished :: bool

definition registration_new :: TokioTaskRegistration where
  "registration_new = \<lparr>finished = False\<rparr>"

definition finish :: "TokioTaskRegistration \<Rightarrow> TokioTaskRegistration" where
  "finish r = r\<lparr>finished := True\<rparr>"

definition is_finished :: "TokioTaskRegistration \<Rightarrow> bool" where
  "is_finished r = finished r"

lemma finished_update_True [simp]: "(r :: TokioTaskRegistration)\<lparr>finished := True\<rparr> = \<lparr>finished = True\<rparr>"
  by (cases r) simp

text \<open>\<^verbatim>\<open>Arc::as_ptr(marker) as usize\<close>: a marker is named by its address.\<close>

definition key :: "usize \<Rightarrow> usize" where
  "key mk = mk"

section \<open>The shared state\<close>

record ('h, 'c) TrackedAbortHandle =
  tracked_marker :: usize
  handle :: 'h
  cancel :: 'c

record ('h, 'c) TokioExecutorServiceState =
  lifecycle_byte :: u8
  task_counts :: TokioExecutorTaskCounts
  monitor_notified :: nat
  task_capacity :: usize
  submission_lock :: bool
  abort_handles :: "usize \<rightharpoonup> ('h, 'c) TrackedAbortHandle"
  terminated_notify :: nat
  capacity_tx :: u64

record TokioExecutorServiceStats =
  stats_lifecycle :: ExecutorServiceLifecycle
  stats_task_capacity :: usize
  stats_queued :: usize
  stats_running :: usize

definition DEFAULT_TASK_CAPACITY :: usize where
  "DEFAULT_TASK_CAPACITY = 1024"

definition state_with_task_capacity :: "usize \<Rightarrow> ('h, 'c) TokioExecutorServiceState" where
  "state_with_task_capacity capacity =
     \<lparr>lifecycle_byte = 0, task_counts = counts_default, monitor_notified = 0,
      task_capacity = capacity, submission_lock = False, abort_handles = Map.empty,
      terminated_notify = 0, capacity_tx = 0\<rparr>"

definition state_default :: "('h, 'c) TokioExecutorServiceState" where
  "state_default = state_with_task_capacity DEFAULT_TASK_CAPACITY"

definition lock_submission ::
  "('h, 'c) TokioExecutorServiceState \<Rightarrow> ('h, 'c) TokioExecutorServiceState option" where
  "lock_submission s = (if submission_lock s then None else Some (s\<lparr>submission_lock := True\<rparr>))"

text \<open>The drop of the \<^verbatim>\<open>MutexGuard\<close>.\<close>

definition unlock_submission ::
  "('h, 'c) TokioExecutorServiceState \<Rightarrow> ('h, 'c) TokioExecutorServiceState" where
  "unlock_submission s = s\<lparr>submission_lock := False\<rparr>"

section \<open>Lifecycle and counters\<close>

definition is_not_running :: "('h, 'c) TokioExecutorServiceState \<Rightarrow> bool" where
  "is_not_running s \<longleftrightarrow> load (lifecycle_byte s) \<noteq> Running"

definition state_lifecycle :: "('h, 'c) TokioExecutorServiceState \<Rightarrow> ExecutorServiceLifecycle" where
  "state_lifecycle s =
     (let lifecycle = load (lifecycle_byte s); has_no_tasks = is_empty (task_counts s)
      in if lifecycle \<noteq> Running \<and> has_no_tasks then Terminated else lifecycle)"

definition state_shutdown ::
  "('h, 'c) TokioExecutorServiceState \<Rightarrow> ('h, 'c) TokioExecutorServiceState" where
  "state_shutdown s = s\<lparr>lifecycle_byte := shutdown_bits (lifecycle_byte s)\<rparr>"

definition state_stop ::
  "('h, 'c) TokioExecutorServiceState \<Rightarrow> ('h, 'c) TokioExecutorServiceState" where
  "state_stop s = s\<lparr>lifecycle_byte := stop_bits (lifecycle_byte s)\<rparr>"

definition capacity_changes :: "('h, 'c) TokioExecutorServiceState \<Rightarrow> u64" where
  "capacity_changes s = capacity_tx s"

definition notify_capacity_changed ::
  "('h, 'c) TokioExecutorServiceState \<Rightarrow> ('h, 'c) TokioExecutorServiceState" where
  "notify_capacity_changed s = s\<lparr>capacity_tx := wrapping_add (capacity_tx s) 1\<rparr>"

text \<open>The two wake-ups of \<^verbatim>\<open>notify_termination_waiters\<close>, in order: monitor, then \<^verbatim>\<open>Notify\<close>.\<close>

definition notify_all ::
  "('h, 'c) TokioExecutorServiceState \<Rightarrow> ('h, 'c) TokioExecutorServiceState" where
  "notify_all s = s\<lparr>monitor_notified := Suc (monitor_notified s)\<rparr>"

definition notify_waiters ::
  "('h, 'c) TokioExecutorServiceState \<Rightarrow> ('h, 'c) TokioExecutorServiceState" where
  "notify_waiters s = s\<lparr>terminated_notify := Suc (terminated_notify s)\<rparr>"

definition notify_termination_waiters ::
  "('h, 'c) TokioExecutorServiceState \<Rightarrow> ('h, 'c) TokioExecutorServiceState" where
  "notify_termination_waiters s = notify_waiters (notify_all s)"

definition task_count_snapshot :: "('h, 'c) TokioExecutorServiceState \<Rightarrow> usize \<times> usize" where
  "task_count_snapshot s = (queued (task_counts s), running (task_counts s))"

definition state_stats :: "('h, 'c) TokioExecutorServiceState \<Rightarrow> TokioExecutorServiceStats" where
  "state_stats s = (let (q, r) = task_count_snapshot s in
     \<lparr>stats_lifecycle = state_lifecycle s, stats_task_capacity = task_capacity s,
      stats_queued = q, stats_running = r\<rparr>)"

definition try_accept_task ::
  "bool \<Rightarrow> ('h, 'c) TokioExecutorServiceState \<Rightarrow> (bool \<times> ('h, 'c) TokioExecutorServiceState) option" where
  "try_accept_task dbg s =
     (if unfinished (task_counts s) \<ge> task_capacity s then Some (False, s)
      else do {
        counts \<leftarrow> accept_task dbg (task_counts s);
        Some (True, s\<lparr>task_counts := counts\<rparr>)
      })"

definition mark_task_started ::
  "bool \<Rightarrow> ('h, 'c) TokioExecutorServiceState \<Rightarrow> ('h, 'c) TokioExecutorServiceState option" where
  "mark_task_started dbg s = do {
     counts \<leftarrow> mark_started dbg (task_counts s);
     Some (s\<lparr>task_counts := counts\<rparr>)
   }"

text \<open>
  The critical section of \<^verbatim>\<open>finish_task\<close> (the closure given to \<^verbatim>\<open>with_write\<close>): the
  decrement and the termination test, under the monitor.
\<close>

definition finish_task_section ::
  "bool \<Rightarrow> bool \<Rightarrow> ('h, 'c) TokioExecutorServiceState
   \<Rightarrow> (bool \<times> ('h, 'c) TokioExecutorServiceState) option" where
  "finish_task_section dbg started s = do {
     counts \<leftarrow> counts_finish_task dbg started (task_counts s);
     Some (is_not_running s \<and> is_empty counts, s\<lparr>task_counts := counts\<rparr>)
   }"

definition finish_task ::
  "bool \<Rightarrow> bool \<Rightarrow> ('h, 'c) TokioExecutorServiceState \<Rightarrow> ('h, 'c) TokioExecutorServiceState option" where
  "finish_task dbg started s = do {
     (terminated, s) \<leftarrow> finish_task_section dbg started s;
     let s = notify_capacity_changed s;
     Some (if terminated then notify_termination_waiters s else s)
   }"

definition is_terminated_state :: "('h, 'c) TokioExecutorServiceState \<Rightarrow> bool" where
  "is_terminated_state s \<longleftrightarrow> is_not_running s \<and> is_empty (task_counts s)"

definition notify_if_terminated ::
  "('h, 'c) TokioExecutorServiceState \<Rightarrow> ('h, 'c) TokioExecutorServiceState" where
  "notify_if_terminated s =
     (let terminated = is_not_running s \<and> is_empty (task_counts s)
      in if terminated then notify_termination_waiters s else s)"

section \<open>The store of a service and its tasks\<close>

text \<open>
  The tracker of a task (\<^verbatim>\<open>TokioServiceTaskTracker\<close>, theory \<open>Task_Guard\<close>) is allocated
  together with its marker and shared by the guard and the cancellation callbacks; it is
  stored under the marker's address. \<open>outside\<close> is the state of the code that is not
  this crate's: the Tokio runtime, the task slots and result handles.
\<close>

record TokioServiceTaskTracker =
  marker :: usize
  task_state :: u8

record ('h, 'c, 'x) world =
  state :: "('h, 'c) TokioExecutorServiceState"
  registrations :: "usize \<rightharpoonup> TokioTaskRegistration"
  trackers :: "usize \<rightharpoonup> TokioServiceTaskTracker"
  outside :: 'x

definition register_abort_handle ::
  "bool \<Rightarrow> ('h \<Rightarrow> 'x \<Rightarrow> bool) \<Rightarrow> usize \<Rightarrow> 'h \<Rightarrow> 'c
   \<Rightarrow> ('h, 'c, 'x) world \<Rightarrow> ('h, 'c, 'x) world option" where
  "register_abort_handle dbg handle_is_finished mk h hook w = do {
     reg \<leftarrow> registrations w mk;
     if \<not> is_finished reg \<and> \<not> handle_is_finished h (outside w) then do {
       let handles = abort_handles (state w);
       let previous = handles (key mk);
       debug_assert dbg (previous = None);
       Some (w\<lparr>state := (state w)\<lparr>abort_handles :=
         handles(key mk \<mapsto> \<lparr>tracked_marker = mk, handle = h, cancel = hook\<rparr>)\<rparr>\<rparr>)
     } else Some w
   }"

definition remove_abort_handle ::
  "usize \<Rightarrow> ('h, 'c, 'x) world \<Rightarrow> ('h, 'c, 'x) world option" where
  "remove_abort_handle mk w = do {
     reg \<leftarrow> registrations w mk;
     let w = w\<lparr>registrations := (registrations w)(mk \<mapsto> finish reg)\<rparr>;
     Some (w\<lparr>state := (state w)\<lparr>abort_handles := (abort_handles (state w))(key mk := None)\<rparr>\<rparr>)
   }"

text \<open>
  \<^verbatim>\<open>abort_tracked_tasks\<close>: the map is emptied first, then its entries are visited.
  \<open>iter\<close> is the iteration order of the hash map, \<open>abort\<close> Tokio's abort request and
  \<open>call\<close> the call of a boxed cancellation hook.
\<close>

fun abort_loop ::
  "bool \<Rightarrow> ('h \<Rightarrow> 'x \<Rightarrow> bool) \<Rightarrow> ('h \<Rightarrow> 'x \<Rightarrow> 'x)
   \<Rightarrow> ('c \<Rightarrow> ('h, 'c, 'x) world \<Rightarrow> (bool \<times> ('h, 'c, 'x) world) option)
   \<Rightarrow> (usize \<times> ('h, 'c) TrackedAbortHandle) list \<Rightarrow> usize
   \<Rightarrow> ('h, 'c, 'x) world \<Rightarrow> (usize \<times> ('h, 'c, 'x) world) option" where
  "abort_loop dbg handle_is_finished abort call [] cancellation_count w =
     Some (cancellation_count, w)"
| "abort_loop dbg handle_is_finished abort call ((k, tracked) # handles) cancellation_count w =
     (if \<not> handle_is_finished (handle tracked) (outside w) then do {
        let w = w\<lparr>outside := abort (handle tracked) (outside w)\<rparr>;
        (cancelled, w) \<leftarrow> call (cancel tracked) w;
        n \<leftarrow> (if cancelled then add_assign dbg cancellation_count 1 else Some cancellation_count);
        abort_loop dbg handle_is_finished abort call handles n w
      } else abort_loop dbg handle_is_finished abort call handles cancellation_count w)"

definition abort_tracked_tasks ::
  "bool \<Rightarrow> ((usize \<rightharpoonup> ('h, 'c) TrackedAbortHandle) \<Rightarrow> (usize \<times> ('h, 'c) TrackedAbortHandle) list)
   \<Rightarrow> ('h \<Rightarrow> 'x \<Rightarrow> bool) \<Rightarrow> ('h \<Rightarrow> 'x \<Rightarrow> 'x)
   \<Rightarrow> ('c \<Rightarrow> ('h, 'c, 'x) world \<Rightarrow> (bool \<times> ('h, 'c, 'x) world) option)
   \<Rightarrow> ('h, 'c, 'x) world \<Rightarrow> (usize \<times> ('h, 'c, 'x) world) option" where
  "abort_tracked_tasks dbg iter handle_is_finished abort call w =
     (let handles = abort_handles (state w);
          w = w\<lparr>state := (state w)\<lparr>abort_handles := Map.empty\<rparr>\<rparr>
      in abort_loop dbg handle_is_finished abort call (iter handles) 0 w)"

section \<open>What the operations leave alone\<close>

text \<open>
  \<open>same_core s s'\<close>: the two states agree on everything but the counters and the
  notification counts. Accounting changes only those; admission and abort tracking change
  the rest.
\<close>

definition same_core ::
  "('h, 'c) TokioExecutorServiceState \<Rightarrow> ('h, 'c) TokioExecutorServiceState \<Rightarrow> bool" where
  "same_core s s' \<longleftrightarrow> lifecycle_byte s' = lifecycle_byte s \<and> task_capacity s' = task_capacity s
     \<and> submission_lock s' = submission_lock s \<and> abort_handles s' = abort_handles s"

lemma same_core_refl [simp]: "same_core s s"
  by (simp add: same_core_def)

lemma same_core_trans [trans]: "same_core s t \<Longrightarrow> same_core t u \<Longrightarrow> same_core s u"
  by (simp add: same_core_def)

lemma same_coreD [frame]:
  assumes "same_core s s'"
  shows "lifecycle_byte s' = lifecycle_byte s" "task_capacity s' = task_capacity s"
    "submission_lock s' = submission_lock s" "abort_handles s' = abort_handles s"
    "is_not_running s' = is_not_running s"
  using assms by (simp_all add: same_core_def is_not_running_def)

lemma same_core_updates [simp]:
  "same_core s (s\<lparr>task_counts := c\<rparr>)" "same_core s (notify_capacity_changed s)"
  "same_core s (notify_termination_waiters s)" "same_core s (notify_if_terminated s)"
  by (simp_all add: same_core_def notify_capacity_changed_def notify_termination_waiters_def notify_all_def notify_waiters_def
      notify_if_terminated_def Let_def)

lemma notifications_keep_counts [simp]:
  "task_counts (notify_capacity_changed s) = task_counts s"
  "task_counts (notify_termination_waiters s) = task_counts s"
  "task_counts (notify_if_terminated s) = task_counts s"
  by (simp_all add: notify_capacity_changed_def notify_termination_waiters_def notify_all_def notify_waiters_def
      notify_if_terminated_def Let_def)

lemma is_not_running_updates [simp]:
  "is_not_running (s\<lparr>task_counts := c\<rparr>) = is_not_running s"
  "is_not_running (s\<lparr>abort_handles := hs\<rparr>) = is_not_running s"
  "is_not_running (s\<lparr>submission_lock := b\<rparr>) = is_not_running s"
  "is_not_running (notify_capacity_changed s) = is_not_running s"
  "is_not_running (notify_termination_waiters s) = is_not_running s"
  "is_not_running (state_shutdown s)" "is_not_running (state_stop s)"
  by (simp_all add: is_not_running_def notify_capacity_changed_def notify_termination_waiters_def notify_all_def notify_waiters_def
      state_shutdown_def state_stop_def del: load_Running_iff)

lemma finish_task_eq:
  assumes "counts_finish_task dbg started (task_counts s) = Some c"
  shows "finish_task dbg started s = Some
    (let s' = notify_capacity_changed (s\<lparr>task_counts := c\<rparr>)
     in if is_not_running s \<and> is_empty c then notify_termination_waiters s' else s')"
  using assms by (simp add: finish_task_def finish_task_section_def Let_def)

lemma finish_task_frame:
  assumes "counts_finish_task dbg started (task_counts s) = Some c"
  obtains s' where "finish_task dbg started s = Some s'" and "same_core s s'"
    and "task_counts s' = c"
proof (rule that [OF finish_task_eq [OF assms]])
  let ?s = "notify_capacity_changed (s\<lparr>task_counts := c\<rparr>)"
  have "same_core s ?s" by (rule same_core_trans [of _ "s\<lparr>task_counts := c\<rparr>"]) simp_all
  then show "same_core s (let s' = ?s in
      if is_not_running s \<and> is_empty c then notify_termination_waiters s' else s')"
    by (auto simp: Let_def intro: same_core_trans)
qed (simp add: Let_def)

text \<open>A finished lifecycle is the derived one: closed and without tasks.\<close>

lemma state_lifecycle_Terminated_iff:
  "state_lifecycle s = Terminated \<longleftrightarrow>
     (is_terminated_state s \<or> load (lifecycle_byte s) = Terminated)"
  by (auto simp: state_lifecycle_def is_terminated_state_def is_not_running_def Let_def
      simp del: load_Running_iff)

lemma state_lifecycle_Running_iff: "state_lifecycle s = Running \<longleftrightarrow> \<not> is_not_running s"
  by (auto simp: state_lifecycle_def is_not_running_def Let_def simp del: load_Running_iff)

end
