(* ===== verification/Task_Guard.thy ===== *)
theory Task_Guard
  imports Blocking_State
begin

text \<open>
  \<^verbatim>\<open>src/tokio_service_task_guard.rs\<close> and its \<^verbatim>\<open>internal/tokio_service_task_tracker.rs\<close>: the
  one-way accounting state of one blocking task, shared by the guard that travels with the
  task and by the cancellation callbacks. A guard is its tracker, named by the address
  \<open>k\<close> it is stored under. The lookup of a tracker fails only for a dangling reference,
  which an \<^verbatim>\<open>Arc\<close> rules out.
\<close>

definition TASK_STATE_QUEUED :: u8 where "TASK_STATE_QUEUED = 0"
definition TASK_STATE_RUNNING :: u8 where "TASK_STATE_RUNNING = 1"
definition TASK_STATE_FINISHED :: u8 where "TASK_STATE_FINISHED = 2"

lemma task_states_distinct [simp]:
  "TASK_STATE_QUEUED \<noteq> TASK_STATE_RUNNING" "TASK_STATE_RUNNING \<noteq> TASK_STATE_QUEUED"
  "TASK_STATE_QUEUED \<noteq> TASK_STATE_FINISHED" "TASK_STATE_FINISHED \<noteq> TASK_STATE_QUEUED"
  "TASK_STATE_RUNNING \<noteq> TASK_STATE_FINISHED" "TASK_STATE_FINISHED \<noteq> TASK_STATE_RUNNING"
  by (simp_all add: TASK_STATE_QUEUED_def TASK_STATE_RUNNING_def TASK_STATE_FINISHED_def)

section \<open>The tracker\<close>

definition tracker_new :: "usize \<Rightarrow> TokioServiceTaskTracker" where
  "tracker_new mk = \<lparr>marker = mk, task_state = TASK_STATE_QUEUED\<rparr>"

definition tracker_mark_started ::
  "bool \<Rightarrow> usize \<Rightarrow> ('h, 'c, 'x) world \<Rightarrow> (bool \<times> ('h, 'c, 'x) world) option" where
  "tracker_mark_started dbg k w = do {
     t \<leftarrow> trackers w k;
     case compare_exchange (task_state t) TASK_STATE_QUEUED TASK_STATE_RUNNING of
       (Inr _, v) \<Rightarrow> do {
         let w = w\<lparr>trackers := (trackers w)(k \<mapsto> t\<lparr>task_state := v\<rparr>)\<rparr>;
         s \<leftarrow> mark_task_started dbg (state w);
         Some (True, w\<lparr>state := s\<rparr>)
       }
     | (Inl actual, _) \<Rightarrow> Some (actual = TASK_STATE_RUNNING, w)
   }"

definition tracker_finish_queued ::
  "bool \<Rightarrow> usize \<Rightarrow> ('h, 'c, 'x) world \<Rightarrow> (bool \<times> ('h, 'c, 'x) world) option" where
  "tracker_finish_queued dbg k w = do {
     t \<leftarrow> trackers w k;
     case compare_exchange (task_state t) TASK_STATE_QUEUED TASK_STATE_FINISHED of
       (Inr _, v) \<Rightarrow> do {
         let w = w\<lparr>trackers := (trackers w)(k \<mapsto> t\<lparr>task_state := v\<rparr>)\<rparr>;
         s \<leftarrow> finish_task dbg False (state w);
         Some (True, w\<lparr>state := s\<rparr>)
       }
     | (Inl _, _) \<Rightarrow> Some (False, w)
   }"

definition tracker_cancel_queued ::
  "bool \<Rightarrow> usize \<Rightarrow> ('h, 'c, 'x) world \<Rightarrow> (bool \<times> ('h, 'c, 'x) world) option" where
  "tracker_cancel_queued dbg k w = do {
     t \<leftarrow> trackers w k;
     w \<leftarrow> remove_abort_handle (marker t) w;
     tracker_finish_queued dbg k w
   }"

definition tracker_finish ::
  "bool \<Rightarrow> usize \<Rightarrow> ('h, 'c, 'x) world \<Rightarrow> ('h, 'c, 'x) world option" where
  "tracker_finish dbg k w = do {
     t \<leftarrow> trackers w k;
     let (previous, v) = swap (task_state t) TASK_STATE_FINISHED;
     let w = w\<lparr>trackers := (trackers w)(k \<mapsto> t\<lparr>task_state := v\<rparr>)\<rparr>;
     if previous = TASK_STATE_QUEUED then do {
       s \<leftarrow> finish_task dbg False (state w);
       Some (w\<lparr>state := s\<rparr>)
     } else if previous = TASK_STATE_RUNNING then do {
       s \<leftarrow> finish_task dbg True (state w);
       Some (w\<lparr>state := s\<rparr>)
     } else Some w
   }"

section \<open>The guard\<close>

text \<open>\<^verbatim>\<open>TokioServiceTaskGuard::new\<close> allocates the tracker for a marker.\<close>

definition guard_new :: "usize \<Rightarrow> ('h, 'c, 'x) world \<Rightarrow> ('h, 'c, 'x) world" where
  "guard_new mk w = w\<lparr>trackers := (trackers w)(mk \<mapsto> tracker_new mk)\<rparr>"

definition guard_mark_started ::
  "bool \<Rightarrow> usize \<Rightarrow> ('h, 'c, 'x) world \<Rightarrow> (bool \<times> ('h, 'c, 'x) world) option" where
  "guard_mark_started dbg k w = tracker_mark_started dbg k w"

text \<open>The two callbacks; the second discards the result of the tracker's method.\<close>

definition finish_queued_once_callback ::
  "bool \<Rightarrow> usize \<Rightarrow> ('h, 'c, 'x) world \<Rightarrow> (bool \<times> ('h, 'c, 'x) world) option" where
  "finish_queued_once_callback dbg k = (\<lambda>w. tracker_finish_queued dbg k w)"

definition cancel_queued_callback ::
  "bool \<Rightarrow> usize \<Rightarrow> ('h, 'c, 'x) world \<Rightarrow> ('h, 'c, 'x) world option" where
  "cancel_queued_callback dbg k = (\<lambda>w. map_option snd (tracker_cancel_queued dbg k w))"

definition guard_drop ::
  "bool \<Rightarrow> usize \<Rightarrow> ('h, 'c, 'x) world \<Rightarrow> ('h, 'c, 'x) world option" where
  "guard_drop dbg k w = do {
     t \<leftarrow> trackers w k;
     w \<leftarrow> remove_abort_handle (marker t) w;
     tracker_finish dbg k w
   }"

section \<open>Accounting: the counters equal the trackers\<close>

text \<open>
  \<open>phase_count st w\<close> is the number of tasks whose tracker is in state \<open>st\<close>. A
  world is \<open>accounted\<close> when its counters are exactly the numbers of queued and of
  running trackers, and their sum is within the capacity.
\<close>

definition in_phase :: "u8 \<Rightarrow> TokioServiceTaskTracker \<Rightarrow> nat" where
  "in_phase st t = of_bool (task_state t = st)"

definition phase_count :: "u8 \<Rightarrow> ('h, 'c, 'x) world \<Rightarrow> nat" where
  "phase_count st w = msum (in_phase st) (trackers w)"

definition trackers_ok :: "('h, 'c, 'x) world \<Rightarrow> bool" where
  "trackers_ok w \<longleftrightarrow> finite (dom (trackers w)) \<and> dom (registrations w) = dom (trackers w) \<and>
     (\<forall>k t. trackers w k = Some t \<longrightarrow> marker t = k \<and>
       task_state t \<in> {TASK_STATE_QUEUED, TASK_STATE_RUNNING, TASK_STATE_FINISHED})"

definition accounted :: "('h, 'c, 'x) world \<Rightarrow> bool" where
  "accounted w \<longleftrightarrow> trackers_ok w \<and>
     counts_are (phase_count TASK_STATE_QUEUED w) (phase_count TASK_STATE_RUNNING w)
       (task_counts (state w)) \<and>
     phase_count TASK_STATE_QUEUED w + phase_count TASK_STATE_RUNNING w
       \<le> unat (task_capacity (state w))"

lemma trackers_ok_finite: "trackers_ok w \<Longrightarrow> finite (dom (trackers w))"
  by (simp add: trackers_ok_def)

lemma trackers_okD:
  assumes "trackers_ok w" and "trackers w k = Some t"
  shows "marker t = k" "\<exists>r. registrations w k = Some r"
    "task_state t = TASK_STATE_QUEUED \<or> task_state t = TASK_STATE_RUNNING
      \<or> task_state t = TASK_STATE_FINISHED"
  using assms by (auto simp: trackers_ok_def)

lemma trackers_ok_upd:
  assumes "trackers_ok w" and "trackers w k = Some t"
    and "st \<in> {TASK_STATE_QUEUED, TASK_STATE_RUNNING, TASK_STATE_FINISHED}"
  shows "trackers_ok (w\<lparr>trackers := (trackers w)(k \<mapsto> t\<lparr>task_state := st\<rparr>), state := s\<rparr>)"
  using assms by (auto simp: trackers_ok_def)

lemma phase_count_upd:
  assumes "trackers_ok w" and "trackers w k = Some t"
  shows "phase_count st (w\<lparr>trackers := (trackers w)(k \<mapsto> t\<lparr>task_state := v\<rparr>), state := s\<rparr>)
      + of_bool (task_state t = st) = phase_count st w + of_bool (v = st)"
  using msum_upd [OF trackers_ok_finite [OF assms(1)] assms(2), of "in_phase st"
      "t\<lparr>task_state := v\<rparr>"]
  by (simp add: phase_count_def in_phase_def)

lemma phase_count_pos:
  assumes "trackers_ok w" and "trackers w k = Some t" and "task_state t = st"
  shows "0 < phase_count st w"
  using msum_member_le [OF trackers_ok_finite [OF assms(1)] assms(2), of "in_phase st"] assms(3)
  by (simp add: phase_count_def in_phase_def)

lemma phase_count_frame [simp]:
  "phase_count st (w\<lparr>state := s\<rparr>) = phase_count st w"
  "phase_count st (w\<lparr>registrations := r\<rparr>) = phase_count st w"
  "phase_count st (w\<lparr>outside := x\<rparr>) = phase_count st w"
  by (simp_all add: phase_count_def)

text \<open>
  The three transitions of a tracker, each with its counter update: from queued to running,
  from queued to finished, from running to finished.
\<close>

lemma accounted_transition:
  assumes acc: "accounted w" and t: "trackers w k = Some t"
    and core: "same_core (state w) s"
    and st: "v \<in> {TASK_STATE_QUEUED, TASK_STATE_RUNNING, TASK_STATE_FINISHED}"
    and counts: "counts_are q r (task_counts s)"
    and q: "q + of_bool (task_state t = TASK_STATE_QUEUED)
      = phase_count TASK_STATE_QUEUED w + of_bool (v = TASK_STATE_QUEUED)"
    and r: "r + of_bool (task_state t = TASK_STATE_RUNNING)
      = phase_count TASK_STATE_RUNNING w + of_bool (v = TASK_STATE_RUNNING)"
    and le: "q + r \<le> phase_count TASK_STATE_QUEUED w + phase_count TASK_STATE_RUNNING w"
  shows "accounted (w\<lparr>trackers := (trackers w)(k \<mapsto> t\<lparr>task_state := v\<rparr>), state := s\<rparr>)"
    (is "accounted ?w")
proof -
  from acc have ok: "trackers_ok w" by (simp add: accounted_def)
  have "phase_count TASK_STATE_QUEUED ?w = q" and "phase_count TASK_STATE_RUNNING ?w = r"
    using phase_count_upd [OF ok t, where v = v and s = s] q r by (metis add_right_cancel)+
  moreover have "q + r \<le> unat (task_capacity s)"
    using acc le core by (simp add: accounted_def same_core_def)
  ultimately show ?thesis
    using trackers_ok_upd [OF ok t st] counts by (simp add: accounted_def)
qed

lemma mark_started_queued:
  assumes acc: "accounted w" and t: "trackers w k = Some t"
    and queued: "task_state t = TASK_STATE_QUEUED"
  obtains s where
    "tracker_mark_started dbg k w = Some (True,
       w\<lparr>trackers := (trackers w)(k \<mapsto> t\<lparr>task_state := TASK_STATE_RUNNING\<rparr>), state := s\<rparr>)"
    "same_core (state w) s"
    "accounted (w\<lparr>trackers := (trackers w)(k \<mapsto> t\<lparr>task_state := TASK_STATE_RUNNING\<rparr>), state := s\<rparr>)"
proof -
  let ?q = "phase_count TASK_STATE_QUEUED w" and ?r = "phase_count TASK_STATE_RUNNING w"
  from acc have ok: "trackers_ok w" and c: "counts_are ?q ?r (task_counts (state w))"
    by (simp_all add: accounted_def)
  have pos: "0 < ?q" using phase_count_pos [OF ok t queued] .
  obtain c' where c': "mark_started dbg (task_counts (state w)) = Some c'"
    "counts_are (?q - 1) (?r + 1) c'"
    using mark_started_counts [OF c pos] .
  let ?s = "(state w)\<lparr>task_counts := c'\<rparr>"
  show ?thesis
  proof (rule that [of ?s])
    show "tracker_mark_started dbg k w = Some (True, w\<lparr>trackers := (trackers w)(k \<mapsto>
        t\<lparr>task_state := TASK_STATE_RUNNING\<rparr>), state := ?s\<rparr>)"
      using t queued c' by (simp add: tracker_mark_started_def compare_exchange_def
          mark_task_started_def Let_def)
    show "same_core (state w) ?s" by simp
    show "accounted (w\<lparr>trackers := (trackers w)(k \<mapsto> t\<lparr>task_state := TASK_STATE_RUNNING\<rparr>),
        state := ?s\<rparr>)"
      by (rule accounted_transition [OF acc t, where q = "?q - 1" and r = "?r + 1"])
        (use queued pos c' in simp_all)
  qed
qed

lemma finish_counted:
  assumes acc: "accounted w" and t: "trackers w k = Some t"
    and st: "task_state t = (if started then TASK_STATE_RUNNING else TASK_STATE_QUEUED)"
  obtains s where "finish_task dbg started (state w) = Some s" "same_core (state w) s"
    "accounted (w\<lparr>trackers := (trackers w)(k \<mapsto> t\<lparr>task_state := TASK_STATE_FINISHED\<rparr>), state := s\<rparr>)"
proof -
  let ?q = "phase_count TASK_STATE_QUEUED w" and ?r = "phase_count TASK_STATE_RUNNING w"
  let ?q' = "if started then ?q else ?q - 1" and ?r' = "if started then ?r - 1 else ?r"
  from acc have ok: "trackers_ok w" and c: "counts_are ?q ?r (task_counts (state w))"
    by (simp_all add: accounted_def)
  have pos: "0 < (if started then ?r else ?q)"
    using phase_count_pos [OF ok t st] by (simp split: if_splits)
  have "\<exists>c'. counts_finish_task dbg started (task_counts (state w)) = Some c' \<and> counts_are ?q' ?r' c'"
  proof (cases started)
    case True
    then show ?thesis using finish_running_counts [OF c, of dbg] pos by simp blast
  next
    case False
    then show ?thesis using finish_queued_counts [OF c, of dbg] pos by simp blast
  qed
  then obtain c' where c': "counts_finish_task dbg started (task_counts (state w)) = Some c'"
    "counts_are ?q' ?r' c'" by blast
  obtain s where s: "finish_task dbg started (state w) = Some s" "same_core (state w) s"
    "task_counts s = c'"
    using finish_task_frame [OF c'(1)] .
  show ?thesis
  proof (rule that [of s])
    show "accounted (w\<lparr>trackers := (trackers w)(k \<mapsto> t\<lparr>task_state := TASK_STATE_FINISHED\<rparr>),
        state := s\<rparr>)"
      by (rule accounted_transition [OF acc t s(2), where q = ?q' and r = ?r'])
        (use st pos c' s in \<open>auto split: if_splits\<close>)
  qed (use s in simp_all)
qed

section \<open>What each operation of a tracker does\<close>

text \<open>Everything but the counters, the notifications and the trackers stays.\<close>

definition only_accounting :: "('h, 'c, 'x) world \<Rightarrow> ('h, 'c, 'x) world \<Rightarrow> bool" where
  "only_accounting w w' \<longleftrightarrow> same_core (state w) (state w') \<and>
     registrations w' = registrations w \<and> outside w' = outside w"

lemma only_accounting_refl [simp]: "only_accounting w w"
  by (simp add: only_accounting_def)

lemma tracker_same [simp]: "t\<lparr>task_state := task_state t\<rparr> = t"
  by simp

lemma trackers_same: "trackers w k = Some t \<Longrightarrow> trackers w = (trackers w)(k \<mapsto> t)"
  by (simp add: map_upd_triv)

lemma tracker_mark_started_spec:
  assumes acc: "accounted w" and t: "trackers w k = Some t"
  obtains w' where
    "tracker_mark_started dbg k w = Some (task_state t \<noteq> TASK_STATE_FINISHED, w')"
    "accounted w'" "only_accounting w w'"
    "trackers w' = (trackers w)(k \<mapsto> t\<lparr>task_state :=
       if task_state t = TASK_STATE_QUEUED then TASK_STATE_RUNNING else task_state t\<rparr>)"
proof (cases "task_state t = TASK_STATE_QUEUED")
  case True
  from mark_started_queued [OF acc t True, of dbg] obtain s where
    "tracker_mark_started dbg k w = Some (True,
       w\<lparr>trackers := (trackers w)(k \<mapsto> t\<lparr>task_state := TASK_STATE_RUNNING\<rparr>), state := s\<rparr>)"
    "same_core (state w) s"
    "accounted (w\<lparr>trackers := (trackers w)(k \<mapsto> t\<lparr>task_state := TASK_STATE_RUNNING\<rparr>), state := s\<rparr>)" .
  with True show ?thesis by (intro that) (auto simp: only_accounting_def)
next
  case False
  with trackers_okD(3) [OF _ t] acc
  have "task_state t = TASK_STATE_RUNNING \<or> task_state t = TASK_STATE_FINISHED"
    by (auto simp: accounted_def)
  with False t acc show ?thesis
    by (intro that [of w]) (auto simp: tracker_mark_started_def compare_exchange_def
        simp flip: trackers_same)
qed

lemma tracker_finish_queued_spec:
  assumes acc: "accounted w" and t: "trackers w k = Some t"
  obtains w' where
    "tracker_finish_queued dbg k w = Some (task_state t = TASK_STATE_QUEUED, w')"
    "accounted w'" "only_accounting w w'"
    "trackers w' = (trackers w)(k \<mapsto> t\<lparr>task_state :=
       if task_state t = TASK_STATE_QUEUED then TASK_STATE_FINISHED else task_state t\<rparr>)"
proof (cases "task_state t = TASK_STATE_QUEUED")
  case True
  then have "task_state t = (if False then TASK_STATE_RUNNING else TASK_STATE_QUEUED)" by simp
  from finish_counted [OF acc t this, of dbg] obtain s where
    "finish_task dbg False (state w) = Some s" "same_core (state w) s"
    "accounted (w\<lparr>trackers := (trackers w)(k \<mapsto> t\<lparr>task_state := TASK_STATE_FINISHED\<rparr>), state := s\<rparr>)" .
  with True t show ?thesis
    by (intro that) (auto simp: only_accounting_def tracker_finish_queued_def
        compare_exchange_def Let_def)
next
  case False
  with t acc show ?thesis
    by (intro that [of w]) (auto simp: tracker_finish_queued_def compare_exchange_def
        simp flip: trackers_same)
qed

lemma tracker_finish_spec:
  assumes acc: "accounted w" and t: "trackers w k = Some t"
  obtains w' where "tracker_finish dbg k w = Some w'"
    "accounted w'" "only_accounting w w'"
    "trackers w' = (trackers w)(k \<mapsto> t\<lparr>task_state := TASK_STATE_FINISHED\<rparr>)"
proof (cases "task_state t = TASK_STATE_FINISHED")
  case True
  then have "trackers w = (trackers w)(k \<mapsto> t\<lparr>task_state := TASK_STATE_FINISHED\<rparr>)"
    using trackers_same [OF t] by (metis tracker_same)
  then have same: "w\<lparr>trackers := (trackers w)(k \<mapsto> t\<lparr>task_state := TASK_STATE_FINISHED\<rparr>)\<rparr> = w"
    by simp
  from True t same have "tracker_finish dbg k w = Some w"
    by (simp add: tracker_finish_def swap_def Let_def)
  then show ?thesis using acc \<open>trackers w = _\<close> by (intro that [of w]) simp_all
next
  case False
  let ?started = "task_state t = TASK_STATE_RUNNING"
  from False trackers_okD(3) [OF _ t] acc
  have st: "task_state t = (if ?started then TASK_STATE_RUNNING else TASK_STATE_QUEUED)"
    by (auto simp: accounted_def)
  from finish_counted [OF acc t st, of dbg] obtain s where
    "finish_task dbg ?started (state w) = Some s" "same_core (state w) s"
    "accounted (w\<lparr>trackers := (trackers w)(k \<mapsto> t\<lparr>task_state := TASK_STATE_FINISHED\<rparr>), state := s\<rparr>)" .
  with st t show ?thesis
    by (intro that [of "w\<lparr>trackers := (trackers w)(k \<mapsto> t\<lparr>task_state := TASK_STATE_FINISHED\<rparr>), state := s\<rparr>"])
      (auto simp: only_accounting_def tracker_finish_def swap_def Let_def split: if_splits)
qed

lemma remove_abort_handle_spec:
  assumes acc: "accounted w" and r: "registrations w k = Some r"
  defines "w' \<equiv> w\<lparr>registrations := (registrations w)(k \<mapsto> finish r),
    state := (state w)\<lparr>abort_handles := (abort_handles (state w))(k := None)\<rparr>\<rparr>"
  shows "remove_abort_handle k w = Some w'" "accounted w'"
proof -
  show "remove_abort_handle k w = Some w'"
    using r by (simp add: remove_abort_handle_def w'_def key_def Let_def)
  have "dom (registrations w') = dom (registrations w)"
    using r by (auto simp: w'_def)
  then show "accounted w'"
    using acc by (simp add: accounted_def trackers_ok_def w'_def phase_count_def)
qed

lemma guard_drop_spec:
  assumes acc: "accounted w" and t: "trackers w k = Some t"
  obtains w' where "guard_drop dbg k w = Some w'" "accounted w'"
    "trackers w' = (trackers w)(k \<mapsto> t\<lparr>task_state := TASK_STATE_FINISHED\<rparr>)"
    "registrations w' = (registrations w)(k \<mapsto> \<lparr>finished = True\<rparr>)"
    "abort_handles (state w') = (abort_handles (state w))(k := None)"
    "lifecycle_byte (state w') = lifecycle_byte (state w)"
    "task_capacity (state w') = task_capacity (state w)"
    "submission_lock (state w') = submission_lock (state w)" "outside w' = outside w"
proof -
  from acc t obtain r where m: "marker t = k" and r: "registrations w k = Some r"
    using trackers_okD [of w k t] by (auto simp: accounted_def)
  let ?w = "w\<lparr>registrations := (registrations w)(k \<mapsto> finish r),
    state := (state w)\<lparr>abort_handles := (abort_handles (state w))(k := None)\<rparr>\<rparr>"
  note rem = remove_abort_handle_spec [OF acc r]
  from t have "trackers ?w k = Some t" by simp
  from tracker_finish_spec [OF rem(2) this, of dbg] obtain w' where w':
    "tracker_finish dbg k ?w = Some w'" "accounted w'" "only_accounting ?w w'"
    "trackers w' = (trackers ?w)(k \<mapsto> t\<lparr>task_state := TASK_STATE_FINISHED\<rparr>)" .
  show ?thesis
    by (rule that [of w'])
      (use w' t m rem(1) in \<open>simp_all add: guard_drop_def only_accounting_def same_core_def finish_def\<close>)
qed

lemma tracker_cancel_queued_spec:
  assumes acc: "accounted w" and t: "trackers w k = Some t"
  obtains w' where
    "tracker_cancel_queued dbg k w = Some (task_state t = TASK_STATE_QUEUED, w')" "accounted w'"
    "trackers w' = (trackers w)(k \<mapsto> t\<lparr>task_state :=
       if task_state t = TASK_STATE_QUEUED then TASK_STATE_FINISHED else task_state t\<rparr>)"
    "registrations w' = (registrations w)(k \<mapsto> \<lparr>finished = True\<rparr>)"
    "abort_handles (state w') = (abort_handles (state w))(k := None)"
    "lifecycle_byte (state w') = lifecycle_byte (state w)"
    "task_capacity (state w') = task_capacity (state w)"
    "submission_lock (state w') = submission_lock (state w)" "outside w' = outside w"
proof -
  from acc t obtain r where m: "marker t = k" and r: "registrations w k = Some r"
    using trackers_okD [of w k t] by (auto simp: accounted_def)
  let ?w = "w\<lparr>registrations := (registrations w)(k \<mapsto> finish r),
    state := (state w)\<lparr>abort_handles := (abort_handles (state w))(k := None)\<rparr>\<rparr>"
  note rem = remove_abort_handle_spec [OF acc r]
  from t have "trackers ?w k = Some t" by simp
  from tracker_finish_queued_spec [OF rem(2) this, of dbg] obtain w' where w':
    "tracker_finish_queued dbg k ?w = Some (task_state t = TASK_STATE_QUEUED, w')" "accounted w'"
    "only_accounting ?w w'"
    "trackers w' = (trackers ?w)(k \<mapsto> t\<lparr>task_state :=
       if task_state t = TASK_STATE_QUEUED then TASK_STATE_FINISHED else task_state t\<rparr>)" .
  show ?thesis
    by (rule that [of w'])
      (use w' t m rem(1) in \<open>simp_all add: tracker_cancel_queued_def only_accounting_def
        same_core_def finish_def\<close>)
qed

end
