(* ===== verification/Blocking_Service.thy ===== *)
theory Blocking_Service
  imports Rejected_Task Task_Slot Task_Guard
begin

text \<open>
  \<^verbatim>\<open>src/tokio_executor_service.rs\<close>: submission, shutdown and stop of the blocking service,
  each as the run of one call that no other thread interleaves with (theory
  \<open>Blocking_Interleaving\<close> takes the calls apart into their atomic steps).

  The code outside the crate is the record \<open>tokio_ops\<close>: its objects are references of
  type \<open>'r\<close>, its state is \<open>'x\<close>. The allocator's choice for a new marker is the
  argument \<open>addr\<close>, and \<open>iter\<close> is the iteration order of \<^verbatim>\<open>HashMap\<close>.
\<close>

section \<open>The operations of Tokio and of the task endpoints\<close>

text \<open>
  What travels to the blocking pool besides the guard: the closure that runs a runnable, or
  the one that takes the shared slot and runs a callable.
\<close>

datatype ('t, 'r) task_closure = RunRunnable 't | RunCallable 't 'r

text \<open>The boxed cancellation hooks registered with an abort handle.\<close>

datatype 'r cancel_hook = FinishQueuedOnce usize | CancelSlotIfQueued 'r usize

record ('r, 't, 'x) tokio_ops =
  oneshot_channel :: "'x \<Rightarrow> ('r \<times> 'r) \<times> 'x"
  spawn_blocking :: "'r \<Rightarrow> 'x \<Rightarrow> 'r \<times> 'x"
  abort_handle_of :: "'r \<Rightarrow> 'r"
  oneshot_send :: "'r \<Rightarrow> ('t, 'r) task_closure \<times> usize \<Rightarrow> 'x \<Rightarrow> bool \<times> 'x"
  blocking_recv :: "'r \<Rightarrow> 'x \<Rightarrow> (('t, 'r) task_closure \<times> usize) option \<times> 'x"
  abort_is_finished :: "'r \<Rightarrow> 'x \<Rightarrow> bool"
  abort_request :: "'r \<Rightarrow> 'x \<Rightarrow> 'x"
  endpoint_parts :: "'x \<Rightarrow> ('r \<times> 'r) \<times> 'x"
  endpoint_tracked_parts :: "'x \<Rightarrow> ('r \<times> 'r) \<times> 'x"
  slot_accept :: "'r \<Rightarrow> 'x \<Rightarrow> 'x"
  slot_cell_new :: "'r \<Rightarrow> 'x \<Rightarrow> 'r \<times> 'x"
  slot_cell_take :: "'r \<Rightarrow> 'x \<Rightarrow> 'r option \<times> 'x"
  slot_cell_cancel_unstarted :: "'r \<Rightarrow> 'x \<Rightarrow> bool \<times> 'x"
  runner_call :: "'t \<Rightarrow> 'x \<Rightarrow> 'x"
  runner_run :: "'t \<Rightarrow> 'r \<Rightarrow> 'x \<Rightarrow> 'x"
  closure_drop :: "('t, 'r) task_closure \<Rightarrow> 'x \<Rightarrow> 'x"
  task_drop :: "'t \<Rightarrow> 'x \<Rightarrow> 'x"

type_synonym ('r, 'x) service = "('r, 'r cancel_hook, 'x) world"

definition on_outside :: "('x \<Rightarrow> 'a \<times> 'x) \<Rightarrow> ('h, 'c, 'x) world \<Rightarrow> 'a \<times> ('h, 'c, 'x) world" where
  "on_outside f w = (let (a, x) = f (outside w) in (a, w\<lparr>outside := x\<rparr>))"

definition map_state ::
  "(('h, 'c) TokioExecutorServiceState \<Rightarrow> ('h, 'c) TokioExecutorServiceState)
   \<Rightarrow> ('h, 'c, 'x) world \<Rightarrow> ('h, 'c, 'x) world" where
  "map_state f w = w\<lparr>state := f (state w)\<rparr>"

text \<open>Calling a hook.\<close>

definition call_hook ::
  "bool \<Rightarrow> ('r, 't, 'x) tokio_ops \<Rightarrow> 'r cancel_hook \<Rightarrow> ('r, 'x) service
   \<Rightarrow> (bool \<times> ('r, 'x) service) option" where
  "call_hook dbg tk hook w =
     (case hook of
        FinishQueuedOnce k \<Rightarrow> finish_queued_once_callback dbg k w
      | CancelSlotIfQueued slot k \<Rightarrow>
          cancel_unstarted_task_slot_if_queued
            (\<lambda>cell. on_outside (slot_cell_cancel_unstarted tk cell)) slot
            (finish_queued_once_callback dbg k) w)"

section \<open>Construction\<close>

definition with_task_capacity :: "usize \<Rightarrow> 'x \<Rightarrow> ('r, 'x) service" where
  "with_task_capacity capacity x =
     \<lparr>state = state_with_task_capacity capacity, registrations = Map.empty,
      trackers = Map.empty, outside = x\<rparr>"

definition new :: "'x \<Rightarrow> ('r, 'x) service" where
  "new x = with_task_capacity DEFAULT_TASK_CAPACITY x"

section \<open>Submission\<close>

text \<open>
  On success the result is the new marker (its guard has the same name) and the submission
  lock stays held: the mutex guard is returned with them. On rejection it is released.
\<close>

definition prepare_blocking_submission ::
  "bool \<Rightarrow> usize \<Rightarrow> ('r, 'x) service \<Rightarrow> ((SubmissionError + usize) \<times> ('r, 'x) service) option" where
  "prepare_blocking_submission dbg addr w = do {
     s \<leftarrow> lock_submission (state w);
     if is_not_running s then Some (Inl Shutdown, w\<lparr>state := unlock_submission s\<rparr>)
     else do {
       (accepted, s) \<leftarrow> try_accept_task dbg s;
       if \<not> accepted then Some (Inl Saturated, w\<lparr>state := unlock_submission s\<rparr>)
       else do {
         let w = w\<lparr>state := s, registrations := (registrations w)(addr \<mapsto> registration_new)\<rparr>;
         let w = guard_new addr w;
         Some (Inr addr, w)
       }
     }
   }"

text \<open>The closure handed to \<^verbatim>\<open>spawn_blocking\<close>, run by a blocking worker.\<close>

definition run_closure :: "('r, 't, 'x) tokio_ops \<Rightarrow> ('t, 'r) task_closure \<Rightarrow> 'x \<Rightarrow> 'x" where
  "run_closure tk task x =
     (case task of
        RunRunnable t \<Rightarrow> runner_call tk t x
      | RunCallable t completion \<Rightarrow>
          (let (slot, x) = take_task_slot (slot_cell_take tk) completion x
           in case slot of Some completion \<Rightarrow> runner_run tk t completion x | None \<Rightarrow> x))"

definition run_received ::
  "bool \<Rightarrow> ('r, 't, 'x) tokio_ops \<Rightarrow> ('t, 'r) task_closure \<Rightarrow> usize \<Rightarrow> ('r, 'x) service
   \<Rightarrow> ('r, 'x) service option" where
  "run_received dbg tk task guard w = do {
     (started, w) \<leftarrow> guard_mark_started dbg guard w;
     if started then
       guard_drop dbg guard (w\<lparr>outside := run_closure tk task (outside w)\<rparr>)
     else do {
       w \<leftarrow> guard_drop dbg guard w;
       Some (w\<lparr>outside := closure_drop tk task (outside w)\<rparr>)
     }
   }"

definition blocking_worker ::
  "bool \<Rightarrow> ('r, 't, 'x) tokio_ops \<Rightarrow> 'r \<Rightarrow> ('r, 'x) service \<Rightarrow> ('r, 'x) service option" where
  "blocking_worker dbg tk receiver w =
     (let (received, w) = on_outside (blocking_recv tk receiver) w
      in case received of
           None \<Rightarrow> Some w
         | Some (task, guard) \<Rightarrow> run_received dbg tk task guard w)"

definition spawn_accepted_blocking_task ::
  "bool \<Rightarrow> ('r, 't, 'x) tokio_ops \<Rightarrow> usize \<Rightarrow> 'r cancel_hook \<Rightarrow> ('r, 'x) service
   \<Rightarrow> (('r \<times> 'r) \<times> ('r, 'x) service) option" where
  "spawn_accepted_blocking_task dbg tk mk hook w = do {
     let ((sender, receiver), w) = on_outside (oneshot_channel tk) w;
     let (join_handle, w) = on_outside (spawn_blocking tk receiver) w;
     let abort_handle = abort_handle_of tk join_handle;
     w \<leftarrow> register_abort_handle dbg (abort_is_finished tk) mk abort_handle hook w;
     let w = map_state unlock_submission w;
     Some ((abort_handle, sender), w)
   }"

text \<open>
  Delivery of the payload; a payload the channel refuses is dropped on the spot, the closure
  before the guard.
\<close>

definition deliver_payload ::
  "bool \<Rightarrow> ('r, 't, 'x) tokio_ops \<Rightarrow> 'r \<Rightarrow> ('t, 'r) task_closure \<Rightarrow> usize \<Rightarrow> ('r, 'x) service
   \<Rightarrow> ('r, 'x) service option" where
  "deliver_payload dbg tk sender task guard w =
     (let (sent, w) = on_outside (oneshot_send tk sender (task, guard)) w
      in if sent then Some w
         else guard_drop dbg guard (w\<lparr>outside := closure_drop tk task (outside w)\<rparr>))"

definition try_submit ::
  "bool \<Rightarrow> ('r, 't, 'x) tokio_ops \<Rightarrow> usize \<Rightarrow> 't \<Rightarrow> ('r, 'x) service
   \<Rightarrow> (('t RejectedTask + unit) \<times> ('r, 'x) service) option" where
  "try_submit dbg tk addr task w = do {
     (prepared, w) \<leftarrow> prepare_blocking_submission dbg addr w;
     case prepared of
       Inl why \<Rightarrow> Some (Inl (rejected_new why task), w)
     | Inr mk \<Rightarrow> do {
         ((_, sender), w) \<leftarrow> spawn_accepted_blocking_task dbg tk mk (FinishQueuedOnce mk) w;
         w \<leftarrow> deliver_payload dbg tk sender (RunRunnable task) mk w;
         Some (Inr (), w)
       }
   }"

definition try_submit_callable ::
  "bool \<Rightarrow> ('r, 't, 'x) tokio_ops \<Rightarrow> usize \<Rightarrow> 't \<Rightarrow> ('r, 'x) service
   \<Rightarrow> (('t RejectedTask + 'r) \<times> ('r, 'x) service) option" where
  "try_submit_callable dbg tk addr task w = do {
     (prepared, w) \<leftarrow> prepare_blocking_submission dbg addr w;
     case prepared of
       Inl why \<Rightarrow> Some (Inl (rejected_new why task), w)
     | Inr mk \<Rightarrow> do {
         let ((result_handle, completion), w) = on_outside (endpoint_parts tk) w;
         let w = w\<lparr>outside := slot_accept tk completion (outside w)\<rparr>;
         let (cell, w) = on_outside (share_task_slot (slot_cell_new tk) completion) w;
         ((_, sender), w) \<leftarrow> spawn_accepted_blocking_task dbg tk mk (CancelSlotIfQueued cell mk) w;
         w \<leftarrow> deliver_payload dbg tk sender (RunCallable task cell) mk w;
         Some (Inr result_handle, w)
       }
   }"

text \<open>
  The tracked handle: the result endpoint, the abort handle, and the callback that cancels
  the queued accounting, here named by the tracker it captures.
\<close>

record 'r TokioBlockingTaskHandle =
  tracked_task :: 'r
  blocking_abort_handle :: 'r
  cancel_queued_task :: usize

definition try_submit_tracked_callable ::
  "bool \<Rightarrow> ('r, 't, 'x) tokio_ops \<Rightarrow> usize \<Rightarrow> 't \<Rightarrow> ('r, 'x) service
   \<Rightarrow> (('t RejectedTask + 'r TokioBlockingTaskHandle) \<times> ('r, 'x) service) option" where
  "try_submit_tracked_callable dbg tk addr task w = do {
     (prepared, w) \<leftarrow> prepare_blocking_submission dbg addr w;
     case prepared of
       Inl why \<Rightarrow> Some (Inl (rejected_new why task), w)
     | Inr mk \<Rightarrow> do {
         let ((result_handle, completion), w) = on_outside (endpoint_tracked_parts tk) w;
         let w = w\<lparr>outside := slot_accept tk completion (outside w)\<rparr>;
         let (cell, w) = on_outside (share_task_slot (slot_cell_new tk) completion) w;
         ((abort_handle, sender), w) \<leftarrow>
           spawn_accepted_blocking_task dbg tk mk (CancelSlotIfQueued cell mk) w;
         w \<leftarrow> deliver_payload dbg tk sender (RunCallable task cell) mk w;
         Some (Inr \<lparr>tracked_task = result_handle, blocking_abort_handle = abort_handle,
                    cancel_queued_task = mk\<rparr>, w)
       }
   }"

definition drop_rejected :: "('r, 't, 'x) tokio_ops \<Rightarrow> 't \<Rightarrow> ('r, 'x) service \<Rightarrow> ('r, 'x) service" where
  "drop_rejected tk task w = w\<lparr>outside := task_drop tk task (outside w)\<rparr>"

definition submit ::
  "bool \<Rightarrow> ('r, 't, 'x) tokio_ops \<Rightarrow> usize \<Rightarrow> 't \<Rightarrow> ('r, 'x) service
   \<Rightarrow> ((SubmissionError + unit) \<times> ('r, 'x) service) option" where
  "submit dbg tk addr task w = map_option (map_rejection (drop_rejected tk)) (try_submit dbg tk addr task w)"

definition submit_callable ::
  "bool \<Rightarrow> ('r, 't, 'x) tokio_ops \<Rightarrow> usize \<Rightarrow> 't \<Rightarrow> ('r, 'x) service
   \<Rightarrow> ((SubmissionError + 'r) \<times> ('r, 'x) service) option" where
  "submit_callable dbg tk addr task w =
     map_option (map_rejection (drop_rejected tk)) (try_submit_callable dbg tk addr task w)"

definition submit_tracked_callable ::
  "bool \<Rightarrow> ('r, 't, 'x) tokio_ops \<Rightarrow> usize \<Rightarrow> 't \<Rightarrow> ('r, 'x) service
   \<Rightarrow> ((SubmissionError + 'r TokioBlockingTaskHandle) \<times> ('r, 'x) service) option" where
  "submit_tracked_callable dbg tk addr task w =
     map_option (map_rejection (drop_rejected tk)) (try_submit_tracked_callable dbg tk addr task w)"

section \<open>Shutdown and stop\<close>

record StopReport =
  report_queued :: usize
  report_running :: usize
  report_cancelled :: usize

definition shutdown :: "('r, 'x) service \<Rightarrow> ('r, 'x) service option" where
  "shutdown w = do {
     s \<leftarrow> lock_submission (state w);
     let s = unlock_submission (state_shutdown s);
     let s = notify_capacity_changed s;
     let s = notify_if_terminated s;
     Some (w\<lparr>state := s\<rparr>)
   }"

definition stop ::
  "bool \<Rightarrow> ('r, 't, 'x) tokio_ops
   \<Rightarrow> ((usize \<rightharpoonup> ('r, 'r cancel_hook) TrackedAbortHandle)
        \<Rightarrow> (usize \<times> ('r, 'r cancel_hook) TrackedAbortHandle) list)
   \<Rightarrow> ('r, 'x) service \<Rightarrow> (StopReport \<times> ('r, 'x) service) option" where
  "stop dbg tk iter w = do {
     s \<leftarrow> lock_submission (state w);
     let s = state_stop s;
     let (queued_count, running_count) = task_count_snapshot s;
     let w = w\<lparr>state := unlock_submission s\<rparr>;
     (cancellation_count, w) \<leftarrow>
       abort_tracked_tasks dbg iter (abort_is_finished tk) (abort_request tk) (call_hook dbg tk) w;
     let w = map_state notify_capacity_changed w;
     let w = map_state notify_if_terminated w;
     Some (\<lparr>report_queued = queued_count, report_running = running_count,
            report_cancelled = cancellation_count\<rparr>, w)
   }"

section \<open>Observation\<close>

definition stats :: "('r, 'x) service \<Rightarrow> TokioExecutorServiceStats" where
  "stats w = state_stats (state w)"

definition service_capacity_changes :: "('r, 'x) service \<Rightarrow> u64" where
  "service_capacity_changes w = capacity_changes (state w)"

definition service_lifecycle :: "('r, 'x) service \<Rightarrow> ExecutorServiceLifecycle" where
  "service_lifecycle w = state_lifecycle (state w)"

definition service_is_not_running :: "('r, 'x) service \<Rightarrow> bool" where
  "service_is_not_running w = is_not_running (state w)"

definition is_terminated :: "('r, 'x) service \<Rightarrow> bool" where
  "is_terminated w \<longleftrightarrow> service_lifecycle w = Terminated"

end
