(* ===== verification/Blocking_Interleaving.thy ===== *)
theory Blocking_Interleaving
  imports Blocking_Service
begin

text \<open>
  The blocking service under concurrency: the calls of \<^verbatim>\<open>src/tokio_executor_service.rs\<close>,
  the drop of a task's guard, the cancellation callbacks and the termination waiters, taken
  apart into the atomic steps of their threads, which interleave in any order. A step is one
  atomic access (a compare-exchange or swap of a tracker, a load or store of the lifecycle),
  one critical section (the monitor's, or that of the abort handles) or one notification;
  the updates are the operations of the theories \<open>Blocking_State\<close> and \<open>Task_Guard\<close>.
  Memory is sequentially consistent.

  Where a thread is inside its code is a program counter. A task is accounted by whoever
  holds its guard (its owner: the submitter, the channel, then the worker), unless a
  cancellation wins the tracker's compare-exchange first; the winner's accounting is the
  task's \<open>winner\<close> counter, and the winning thread waits for it.
\<close>

type_synonym svc = "(unit, unit) TokioExecutorServiceState"

section \<open>Program counters\<close>

text \<open>Inside \<^verbatim>\<open>finish_task\<close>: the flag of \<open>FinCapacity\<close> is its local \<^verbatim>\<open>terminated\<close>.\<close>

datatype fin_pc = FinCount bool | FinCapacity bool | FinMonitor | FinNotify | FinDone

text \<open>
  The guard of a task: with the submitter under the submission lock, with the submitter
  after it, in the channel, with the worker, in \<^verbatim>\<open>mark_started\<close> after its exchange, during
  the user's closure, and in its drop.
\<close>

datatype owner_pc = Admitted | Held | Delivered | Received | MarkCount | RunningTask
  | DropMark | DropRemove | DropSwap | Finishing fin_pc

record ctask =
  registration :: TokioTaskRegistration
  tracker :: TokioServiceTaskTracker
  owner :: owner_pc
  winner :: "fin_pc option"

text \<open>The holder of the submission lock.\<close>

datatype holder_pc = Unlocked
  | SubmitCheck | SubmitReserve | SubmitCreate | SubmitRegister usize | SubmitUnlock usize
  | ShutdownStore | ShutdownUnlock
  | StopStore | StopSnapshot | StopUnlock usize usize

text \<open>
  The other threads: a cancelling handle; a stop or shutdown after the submission lock (with
  the report it will return, which a shutdown has none of); a thread in
  \<^verbatim>\<open>wait_termination\<close>; an asynchronous waiter, whose flag tells whether its \<^verbatim>\<open>Notified\<close>
  future has been notified; a producer, whose flag tells whether the capacity channel has
  changed since it subscribed or last looked.
\<close>

datatype thread_pc =
    CancelMark usize | CancelRemove usize | CancelCas usize | CancelWait usize
  | CancelAbort usize | CancelReturned
  | StopTake usize usize | StopLoop usize usize "usize list" usize
  | StopHook usize usize usize "usize list" usize
  | StopHookWait usize usize usize "usize list" usize
  | CloseCapacity "StopReport option" | CloseCheck "StopReport option"
  | CloseMonitor "StopReport option" | CloseNotify "StopReport option"
  | Closed "StopReport option"
  | WaitLock | WaitEval | WaitEmpty ExecutorServiceLifecycle | WaitParked | WaitReturned
  | AwaitEnable bool | AwaitLoad bool | AwaitEmpty bool ExecutorServiceLifecycle
  | AwaitParked bool | AwaitReturned
  | ProduceTry bool | ProduceWait bool

record csys =
  svc :: svc
  tasks :: "usize \<rightharpoonup> ctask"
  holder :: holder_pc
  threads :: "nat \<rightharpoonup> thread_pc"
  monitor :: "nat option"

text \<open>
  A new service with no calls under way. \<open>monitor\<close> is the waiter inside the monitor; the
  other critical sections on the monitor are single steps and need it to be free.
\<close>

definition cinit :: "usize \<Rightarrow> csys" where
  "cinit capacity = \<lparr>svc = state_with_task_capacity capacity, tasks = Map.empty,
     holder = Unlocked, threads = Map.empty, monitor = None\<rparr>"

abbreviation put_task :: "usize \<Rightarrow> ctask \<Rightarrow> csys \<Rightarrow> csys" where
  "put_task k t s \<equiv> s\<lparr>tasks := (tasks s)(k \<mapsto> t)\<rparr>"

abbreviation put_thread :: "nat \<Rightarrow> thread_pc \<Rightarrow> csys \<Rightarrow> csys" where
  "put_thread i pc s \<equiv> s\<lparr>threads := (threads s)(i \<mapsto> pc)\<rparr>"

abbreviation put_state :: "ctask \<Rightarrow> u8 \<Rightarrow> ctask" where
  "put_state t v \<equiv> t\<lparr>tracker := (tracker t)\<lparr>task_state := v\<rparr>\<rparr>"

section \<open>Notifications\<close>

text \<open>
  What a notification does to the waiting threads: \<^verbatim>\<open>notify_all\<close> makes every thread parked
  in the monitor compete for it again, \<^verbatim>\<open>notify_waiters\<close> completes every \<^verbatim>\<open>Notified\<close>
  future that exists, and \<^verbatim>\<open>send_modify\<close> marks the channel changed for every receiver.
\<close>

fun wake_monitor :: "thread_pc \<Rightarrow> thread_pc" where
  "wake_monitor WaitParked = WaitLock"
| "wake_monitor pc = pc"

fun wake_notified :: "thread_pc \<Rightarrow> thread_pc" where
  "wake_notified (AwaitEnable n) = AwaitEnable True"
| "wake_notified (AwaitLoad n) = AwaitLoad True"
| "wake_notified (AwaitEmpty n l) = AwaitEmpty True l"
| "wake_notified (AwaitParked n) = AwaitParked True"
| "wake_notified pc = pc"

fun wake_producer :: "thread_pc \<Rightarrow> thread_pc" where
  "wake_producer (ProduceTry n) = ProduceTry True"
| "wake_producer (ProduceWait n) = ProduceWait True"
| "wake_producer pc = pc"

definition wake_all :: "(thread_pc \<Rightarrow> thread_pc) \<Rightarrow> csys \<Rightarrow> csys" where
  "wake_all f s = s\<lparr>threads := (\<lambda>i. map_option f (threads s i))\<rparr>"

definition signal_capacity :: "csys \<Rightarrow> csys" where
  "signal_capacity s = wake_all wake_producer (s\<lparr>svc := notify_capacity_changed (svc s)\<rparr>)"

definition signal_monitor :: "csys \<Rightarrow> csys" where
  "signal_monitor s = wake_all wake_monitor (s\<lparr>svc := notify_all (svc s)\<rparr>)"

definition signal_notify :: "csys \<Rightarrow> csys" where
  "signal_notify s = wake_all wake_notified (s\<lparr>svc := notify_waiters (svc s)\<rparr>)"

section \<open>Finishing a task\<close>

text \<open>\<open>fin_step dbg f s f' s'\<close>: the thread inside \<^verbatim>\<open>finish_task\<close> moves from \<open>f\<close> to \<open>f'\<close>.\<close>

inductive fin_step :: "bool \<Rightarrow> fin_pc \<Rightarrow> csys \<Rightarrow> fin_pc \<Rightarrow> csys \<Rightarrow> bool" for dbg where
  fin_count: "monitor s = None \<Longrightarrow> finish_task_section dbg started (svc s) = Some (terminated, v) \<Longrightarrow>
    fin_step dbg (FinCount started) s (FinCapacity terminated) (s\<lparr>svc := v\<rparr>)"
| fin_capacity: "fin_step dbg (FinCapacity terminated) s
    (if terminated then FinMonitor else FinDone) (signal_capacity s)"
| fin_monitor: "fin_step dbg FinMonitor s FinNotify (signal_monitor s)"
| fin_notify: "fin_step dbg FinNotify s FinDone (signal_notify s)"

section \<open>Steps of a task's guard\<close>

definition finish_from :: "u8 \<Rightarrow> fin_pc" where
  "finish_from previous =
     (if previous = TASK_STATE_QUEUED then FinCount False
      else if previous = TASK_STATE_RUNNING then FinCount True else FinDone)"

inductive task_step :: "bool \<Rightarrow> csys \<Rightarrow> csys \<Rightarrow> bool" for dbg where
  send_ok: "tasks s k = Some t \<Longrightarrow> owner t = Held \<Longrightarrow>
    task_step dbg s (put_task k (t\<lparr>owner := Delivered\<rparr>) s)"
| send_refused: "tasks s k = Some t \<Longrightarrow> owner t = Held \<Longrightarrow>
    task_step dbg s (put_task k (t\<lparr>owner := DropMark\<rparr>) s)"
| receive: "tasks s k = Some t \<Longrightarrow> owner t = Delivered \<Longrightarrow>
    task_step dbg s (put_task k (t\<lparr>owner := Received\<rparr>) s)"
| discard: "tasks s k = Some t \<Longrightarrow> owner t = Delivered \<Longrightarrow>
    task_step dbg s (put_task k (t\<lparr>owner := DropMark\<rparr>) s)"
| start_won: "tasks s k = Some t \<Longrightarrow> owner t = Received \<Longrightarrow>
    compare_exchange (task_state (tracker t)) TASK_STATE_QUEUED TASK_STATE_RUNNING = (Inr old, v) \<Longrightarrow>
    task_step dbg s (put_task k ((put_state t v)\<lparr>owner := MarkCount\<rparr>) s)"
| start_lost: "tasks s k = Some t \<Longrightarrow> owner t = Received \<Longrightarrow>
    compare_exchange (task_state (tracker t)) TASK_STATE_QUEUED TASK_STATE_RUNNING = (Inl actual, v) \<Longrightarrow>
    task_step dbg s (put_task k (t\<lparr>owner :=
      (if actual = TASK_STATE_RUNNING then RunningTask else DropMark)\<rparr>) s)"
| start_count: "tasks s k = Some t \<Longrightarrow> owner t = MarkCount \<Longrightarrow> monitor s = None \<Longrightarrow>
    mark_task_started dbg (svc s) = Some v \<Longrightarrow>
    task_step dbg s (put_task k (t\<lparr>owner := RunningTask\<rparr>) (s\<lparr>svc := v\<rparr>))"
| closure_returns: "tasks s k = Some t \<Longrightarrow> owner t = RunningTask \<Longrightarrow>
    task_step dbg s (put_task k (t\<lparr>owner := DropMark\<rparr>) s)"
| drop_mark: "tasks s k = Some t \<Longrightarrow> owner t = DropMark \<Longrightarrow>
    task_step dbg s (put_task k (t\<lparr>registration := finish (registration t), owner := DropRemove\<rparr>) s)"
| drop_remove: "tasks s k = Some t \<Longrightarrow> owner t = DropRemove \<Longrightarrow>
    task_step dbg s (put_task k (t\<lparr>owner := DropSwap\<rparr>)
      (s\<lparr>svc := (svc s)\<lparr>abort_handles := (abort_handles (svc s))(key k := None)\<rparr>\<rparr>))"
| drop_swap: "tasks s k = Some t \<Longrightarrow> owner t = DropSwap \<Longrightarrow>
    swap (task_state (tracker t)) TASK_STATE_FINISHED = (previous, v) \<Longrightarrow>
    task_step dbg s (put_task k ((put_state t v)\<lparr>owner := Finishing (finish_from previous)\<rparr>) s)"
| owner_finish: "tasks s k = Some t \<Longrightarrow> owner t = Finishing f \<Longrightarrow> fin_step dbg f s f' s' \<Longrightarrow>
    task_step dbg s (put_task k (t\<lparr>owner := Finishing f'\<rparr>) s')"
| winner_finish: "tasks s k = Some t \<Longrightarrow> winner t = Some f \<Longrightarrow> fin_step dbg f s f' s' \<Longrightarrow>
    task_step dbg s (put_task k (t\<lparr>winner := Some f'\<rparr>) s')"

section \<open>Steps under the submission lock\<close>

text \<open>
  Taking the lock needs it free; a step that releases it ends the call (a refused or
  completed submission) or continues as a thread (shutdown and stop). A new marker is
  allocated at an address no live task occupies.
\<close>

inductive holder_step :: "bool \<Rightarrow> csys \<Rightarrow> csys \<Rightarrow> bool" for dbg where
  lock: "lock_submission (svc s) = Some v \<Longrightarrow> h \<in> {SubmitCheck, ShutdownStore, StopStore} \<Longrightarrow>
    holder_step dbg s (s\<lparr>svc := v, holder := h\<rparr>)"
| submit_open: "holder s = SubmitCheck \<Longrightarrow> \<not> is_not_running (svc s) \<Longrightarrow>
    holder_step dbg s (s\<lparr>holder := SubmitReserve\<rparr>)"
| submit_shutdown: "holder s = SubmitCheck \<Longrightarrow> is_not_running (svc s) \<Longrightarrow>
    holder_step dbg s (s\<lparr>svc := unlock_submission (svc s), holder := Unlocked\<rparr>)"
| submit_accept: "holder s = SubmitReserve \<Longrightarrow> monitor s = None \<Longrightarrow>
    try_accept_task dbg (svc s) = Some (True, v) \<Longrightarrow>
    holder_step dbg s (s\<lparr>svc := v, holder := SubmitCreate\<rparr>)"
| submit_saturated: "holder s = SubmitReserve \<Longrightarrow> monitor s = None \<Longrightarrow>
    try_accept_task dbg (svc s) = Some (False, v) \<Longrightarrow>
    holder_step dbg s (s\<lparr>svc := unlock_submission v, holder := Unlocked\<rparr>)"
| producer_saturated: "holder s = SubmitReserve \<Longrightarrow> monitor s = None \<Longrightarrow>
    try_accept_task dbg (svc s) = Some (False, v) \<Longrightarrow> threads s i = Some (ProduceTry n) \<Longrightarrow>
    holder_step dbg s (put_thread i (ProduceWait n)
      (s\<lparr>svc := unlock_submission v, holder := Unlocked\<rparr>))"
| submit_create: "holder s = SubmitCreate \<Longrightarrow> tasks s k = None \<Longrightarrow>
    holder_step dbg s (put_task k
      \<lparr>registration = registration_new, tracker = tracker_new k, owner = Admitted, winner = None\<rparr>
      (s\<lparr>holder := SubmitRegister k\<rparr>))"
| submit_register: "holder s = SubmitRegister k \<Longrightarrow> tasks s k = Some t \<Longrightarrow>
    \<not> is_finished (registration t) \<Longrightarrow>
    debug_assert dbg (abort_handles (svc s) (key k) = None) = Some () \<Longrightarrow>
    holder_step dbg s (s\<lparr>svc := (svc s)\<lparr>abort_handles := (abort_handles (svc s))
      (key k \<mapsto> \<lparr>tracked_marker = k, handle = (), cancel = ()\<rparr>)\<rparr>, holder := SubmitUnlock k\<rparr>)"
| submit_register_finished: "holder s = SubmitRegister k \<Longrightarrow>
    holder_step dbg s (s\<lparr>holder := SubmitUnlock k\<rparr>)"
| submit_unlock: "holder s = SubmitUnlock k \<Longrightarrow> tasks s k = Some t \<Longrightarrow>
    holder_step dbg s (put_task k (t\<lparr>owner := Held\<rparr>)
      (s\<lparr>svc := unlock_submission (svc s), holder := Unlocked\<rparr>))"
| shutdown_store: "holder s = ShutdownStore \<Longrightarrow>
    holder_step dbg s (s\<lparr>svc := state_shutdown (svc s), holder := ShutdownUnlock\<rparr>)"
| shutdown_unlock: "holder s = ShutdownUnlock \<Longrightarrow> threads s i = None \<Longrightarrow>
    holder_step dbg s (put_thread i (CloseCapacity None)
      (s\<lparr>svc := unlock_submission (svc s), holder := Unlocked\<rparr>))"
| stop_store: "holder s = StopStore \<Longrightarrow>
    holder_step dbg s (s\<lparr>svc := state_stop (svc s), holder := StopSnapshot\<rparr>)"
| stop_snapshot: "holder s = StopSnapshot \<Longrightarrow> monitor s = None \<Longrightarrow>
    task_count_snapshot (svc s) = (q, r) \<Longrightarrow> holder_step dbg s (s\<lparr>holder := StopUnlock q r\<rparr>)"
| stop_unlock: "holder s = StopUnlock q r \<Longrightarrow> threads s i = None \<Longrightarrow>
    holder_step dbg s (put_thread i (StopTake q r)
      (s\<lparr>svc := unlock_submission (svc s), holder := Unlocked\<rparr>))"

section \<open>Steps of the other threads\<close>

text \<open>
  \<open>canceller_step\<close>: \<^verbatim>\<open>cancel_queued_callback\<close> and the abort request after it, run by a
  handle whose cancellation won the shared task state.
\<close>

inductive canceller_step :: "csys \<Rightarrow> csys \<Rightarrow> bool" where
  cancel_start: "threads s i = None \<Longrightarrow> tasks s k = Some t \<Longrightarrow>
    canceller_step s (put_thread i (CancelMark k) s)"
| cancel_mark: "threads s i = Some (CancelMark k) \<Longrightarrow> tasks s k = Some t \<Longrightarrow>
    canceller_step s (put_thread i (CancelRemove k)
      (put_task k (t\<lparr>registration := finish (registration t)\<rparr>) s))"
| cancel_remove: "threads s i = Some (CancelRemove k) \<Longrightarrow>
    canceller_step s (put_thread i (CancelCas k)
      (s\<lparr>svc := (svc s)\<lparr>abort_handles := (abort_handles (svc s))(key k := None)\<rparr>\<rparr>))"
| cancel_won: "threads s i = Some (CancelCas k) \<Longrightarrow> tasks s k = Some t \<Longrightarrow>
    compare_exchange (task_state (tracker t)) TASK_STATE_QUEUED TASK_STATE_FINISHED = (Inr old, v) \<Longrightarrow>
    canceller_step s (put_thread i (CancelWait k)
      (put_task k ((put_state t v)\<lparr>winner := Some (FinCount False)\<rparr>) s))"
| cancel_lost: "threads s i = Some (CancelCas k) \<Longrightarrow> tasks s k = Some t \<Longrightarrow>
    compare_exchange (task_state (tracker t)) TASK_STATE_QUEUED TASK_STATE_FINISHED = (Inl actual, v) \<Longrightarrow>
    canceller_step s (put_thread i (CancelAbort k) s)"
| cancel_waited: "threads s i = Some (CancelWait k) \<Longrightarrow> tasks s k = Some t \<Longrightarrow>
    winner t = Some FinDone \<Longrightarrow> canceller_step s (put_thread i (CancelAbort k) s)"
| cancel_abort: "threads s i = Some (CancelAbort k) \<Longrightarrow>
    canceller_step s (put_thread i CancelReturned s)"

text \<open>
  \<open>closer_step\<close>: stop and shutdown after the submission lock. \<^verbatim>\<open>is_finished\<close> of an abort
  handle may answer either way at any time; the taken handles are visited in any order.
\<close>

definition close_report :: "usize \<Rightarrow> usize \<Rightarrow> usize \<Rightarrow> StopReport option" where
  "close_report q r n = Some \<lparr>report_queued = q, report_running = r, report_cancelled = n\<rparr>"

inductive closer_step :: "bool \<Rightarrow> csys \<Rightarrow> csys \<Rightarrow> bool" for dbg where
  stop_take: "threads s i = Some (StopTake q r) \<Longrightarrow> distinct ks \<Longrightarrow>
    set ks = dom (abort_handles (svc s)) \<Longrightarrow>
    closer_step dbg s (put_thread i (StopLoop q r ks 0)
      (s\<lparr>svc := (svc s)\<lparr>abort_handles := Map.empty\<rparr>\<rparr>))"
| stop_skip: "threads s i = Some (StopLoop q r (k # ks) n) \<Longrightarrow>
    closer_step dbg s (put_thread i (StopLoop q r ks n) s)"
| stop_abort: "threads s i = Some (StopLoop q r (k # ks) n) \<Longrightarrow>
    closer_step dbg s (put_thread i (StopHook q r k ks n) s)"
| stop_hook_won: "threads s i = Some (StopHook q r k ks n) \<Longrightarrow> tasks s k = Some t \<Longrightarrow>
    compare_exchange (task_state (tracker t)) TASK_STATE_QUEUED TASK_STATE_FINISHED = (Inr old, v) \<Longrightarrow>
    closer_step dbg s (put_thread i (StopHookWait q r k ks n)
      (put_task k ((put_state t v)\<lparr>winner := Some (FinCount False)\<rparr>) s))"
| stop_hook_lost: "threads s i = Some (StopHook q r k ks n) \<Longrightarrow> tasks s k = Some t \<Longrightarrow>
    compare_exchange (task_state (tracker t)) TASK_STATE_QUEUED TASK_STATE_FINISHED = (Inl actual, v) \<Longrightarrow>
    closer_step dbg s (put_thread i (StopLoop q r ks n) s)"
| stop_hook_waited: "threads s i = Some (StopHookWait q r k ks n) \<Longrightarrow> tasks s k = Some t \<Longrightarrow>
    winner t = Some FinDone \<Longrightarrow> add_assign dbg n 1 = Some m \<Longrightarrow>
    closer_step dbg s (put_thread i (StopLoop q r ks m) s)"
| stop_loop_end: "threads s i = Some (StopLoop q r [] n) \<Longrightarrow>
    closer_step dbg s (put_thread i (CloseCapacity (close_report q r n)) s)"
| close_capacity: "threads s i = Some (CloseCapacity rep) \<Longrightarrow>
    closer_step dbg s (put_thread i (CloseCheck rep) (signal_capacity s))"
| close_check: "threads s i = Some (CloseCheck rep) \<Longrightarrow> monitor s = None \<Longrightarrow>
    closer_step dbg s (put_thread i
      (if is_terminated_state (svc s) then CloseMonitor rep else Closed rep) s)"
| close_monitor: "threads s i = Some (CloseMonitor rep) \<Longrightarrow>
    closer_step dbg s (put_thread i (CloseNotify rep) (signal_monitor s))"
| close_notify: "threads s i = Some (CloseNotify rep) \<Longrightarrow>
    closer_step dbg s (put_thread i (Closed rep) (signal_notify s))"

text \<open>
  \<open>waiter_step\<close>: \<^verbatim>\<open>wait_until_ready\<close> of the monitor takes the lock, evaluates the
  predicate under it (lifecycle first, then the counters) and returns or parks, releasing
  the lock in the same step; a parked thread may also wake spuriously.
  \<^verbatim>\<open>await_termination\<close> creates its \<^verbatim>\<open>Notified\<close> future before each look at the lifecycle.
\<close>

definition terminated_view :: "ExecutorServiceLifecycle \<Rightarrow> svc \<Rightarrow> ExecutorServiceLifecycle" where
  "terminated_view l v = (if l \<noteq> Running \<and> is_empty (task_counts v) then Terminated else l)"

inductive waiter_step :: "csys \<Rightarrow> csys \<Rightarrow> bool" where
  wait_start: "threads s i = None \<Longrightarrow> waiter_step s (put_thread i WaitLock s)"
| wait_enter: "threads s i = Some WaitLock \<Longrightarrow> monitor s = None \<Longrightarrow>
    waiter_step s (put_thread i WaitEval (s\<lparr>monitor := Some i\<rparr>))"
| wait_lifecycle: "threads s i = Some WaitEval \<Longrightarrow>
    waiter_step s (put_thread i (WaitEmpty (load (lifecycle_byte (svc s)))) s)"
| wait_ready: "threads s i = Some (WaitEmpty l) \<Longrightarrow> l \<noteq> Running \<and> is_empty (task_counts (svc s)) \<Longrightarrow>
    waiter_step s (put_thread i WaitReturned (s\<lparr>monitor := None\<rparr>))"
| wait_park: "threads s i = Some (WaitEmpty l) \<Longrightarrow> \<not> (l \<noteq> Running \<and> is_empty (task_counts (svc s))) \<Longrightarrow>
    waiter_step s (put_thread i WaitParked (s\<lparr>monitor := None\<rparr>))"
| wait_spurious: "threads s i = Some WaitParked \<Longrightarrow> waiter_step s (put_thread i WaitLock s)"
| await_start: "threads s i = None \<Longrightarrow> waiter_step s (put_thread i (AwaitEnable False) s)"
| await_enable: "threads s i = Some (AwaitEnable n) \<Longrightarrow> waiter_step s (put_thread i (AwaitLoad n) s)"
| await_load: "threads s i = Some (AwaitLoad n) \<Longrightarrow>
    waiter_step s (put_thread i (AwaitEmpty n (load (lifecycle_byte (svc s)))) s)"
| await_ready: "threads s i = Some (AwaitEmpty n l) \<Longrightarrow> monitor s = None \<Longrightarrow>
    terminated_view l (svc s) = Terminated \<Longrightarrow> waiter_step s (put_thread i AwaitReturned s)"
| await_park: "threads s i = Some (AwaitEmpty n l) \<Longrightarrow> monitor s = None \<Longrightarrow>
    terminated_view l (svc s) \<noteq> Terminated \<Longrightarrow> waiter_step s (put_thread i (AwaitParked n) s)"
| await_wake: "threads s i = Some (AwaitParked True) \<Longrightarrow>
    waiter_step s (put_thread i (AwaitEnable False) s)"
| produce_start: "threads s i = None \<Longrightarrow> waiter_step s (put_thread i (ProduceTry False) s)"
| produce_changed: "threads s i = Some (ProduceWait True) \<Longrightarrow>
    waiter_step s (put_thread i (ProduceTry False) s)"

section \<open>The whole system\<close>

text \<open>
  \<open>reclaim\<close>: the allocation of a task whose guard is dropped and that no thread and no
  tracked handle refers to any more is freed, so its address may be used again. A thread
  that has returned is removed.
\<close>

fun mentions :: "thread_pc \<Rightarrow> usize set" where
  "mentions (CancelMark k) = {k}"
| "mentions (CancelRemove k) = {k}"
| "mentions (CancelCas k) = {k}"
| "mentions (CancelWait k) = {k}"
| "mentions (StopLoop q r ks n) = set ks"
| "mentions (StopHook q r k ks n) = insert k (set ks)"
| "mentions (StopHookWait q r k ks n) = insert k (set ks)"
| "mentions pc = {}"

inductive reclaim_step :: "csys \<Rightarrow> csys \<Rightarrow> bool" where
  reclaim: "tasks s k = Some t \<Longrightarrow> owner t = Finishing FinDone \<Longrightarrow> winner t \<in> {None, Some FinDone} \<Longrightarrow>
    abort_handles (svc s) (key k) = None \<Longrightarrow> (\<And>i pc. threads s i = Some pc \<Longrightarrow> k \<notin> mentions pc) \<Longrightarrow>
    reclaim_step s (s\<lparr>tasks := (tasks s)(k := None)\<rparr>)"
| thread_exit: "threads s i = Some pc \<Longrightarrow>
    pc \<in> {CancelReturned, WaitReturned, AwaitReturned} \<or> (\<exists>rep. pc = Closed rep) \<Longrightarrow>
    reclaim_step s (s\<lparr>threads := (threads s)(i := None)\<rparr>)"

inductive cstep :: "bool \<Rightarrow> csys \<Rightarrow> csys \<Rightarrow> bool" for dbg where
  by_task: "task_step dbg s s' \<Longrightarrow> cstep dbg s s'"
| by_holder: "holder_step dbg s s' \<Longrightarrow> cstep dbg s s'"
| by_canceller: "canceller_step s s' \<Longrightarrow> cstep dbg s s'"
| by_closer: "closer_step dbg s s' \<Longrightarrow> cstep dbg s s'"
| by_waiter: "waiter_step s s' \<Longrightarrow> cstep dbg s s'"
| by_reclaim: "reclaim_step s s' \<Longrightarrow> cstep dbg s s'"

inductive creach :: "bool \<Rightarrow> usize \<Rightarrow> csys \<Rightarrow> bool" for dbg capacity where
  creach_init: "creach dbg capacity (cinit capacity)"
| creach_step: "creach dbg capacity s \<Longrightarrow> cstep dbg s s' \<Longrightarrow> creach dbg capacity s'"

text \<open>
  A thread is about to panic: the operation its counter stands at has no result. The
  insertion of an abort handle panics (in a debug build) on an occupied key.
\<close>

definition about_to_panic :: "bool \<Rightarrow> csys \<Rightarrow> bool" where
  "about_to_panic dbg s \<longleftrightarrow>
     (holder s = SubmitReserve \<and> try_accept_task dbg (svc s) = None) \<or>
     (\<exists>k. holder s = SubmitRegister k \<and> dbg \<and> abort_handles (svc s) (key k) \<noteq> None) \<or>
     (\<exists>k t. tasks s k = Some t \<and>
        (owner t = MarkCount \<and> mark_task_started dbg (svc s) = None \<or>
         (\<exists>b. (owner t = Finishing (FinCount b) \<or> winner t = Some (FinCount b)) \<and>
            finish_task_section dbg b (svc s) = None))) \<or>
     (\<exists>i q r k ks n. threads s i = Some (StopHookWait q r k ks n) \<and> add_assign dbg n 1 = None)"

end
