(* ===== verification/Interleaving_Invariants.thy ===== *)
theory Interleaving_Invariants
  imports Blocking_Interleaving
begin

text \<open>
  The invariants of the interleaved service: the submission lock and the lifecycle it
  guards, each task's state against where its guard is, the counters against the tasks, the
  tracked abort handles, and the progress of a stop. Each is shown to be preserved by every
  step relation of \<open>Blocking_Interleaving\<close>.
\<close>

inductive_cases task_stepE: "task_step dbg s s'"
inductive_cases holder_stepE: "holder_step dbg s s'"
inductive_cases canceller_stepE: "canceller_step s s'"
inductive_cases closer_stepE: "closer_step dbg s s'"
inductive_cases waiter_stepE: "waiter_step s s'"
inductive_cases reclaim_stepE: "reclaim_step s s'"
inductive_cases cstepE: "cstep dbg s s'"

section \<open>Notifications and what they leave alone\<close>

lemma signal_frame [simp]:
  "tasks (signal_capacity s) = tasks s" "holder (signal_capacity s) = holder s"
  "monitor (signal_capacity s) = monitor s"
  "tasks (signal_monitor s) = tasks s" "holder (signal_monitor s) = holder s"
  "monitor (signal_monitor s) = monitor s"
  "tasks (signal_notify s) = tasks s" "holder (signal_notify s) = holder s"
  "monitor (signal_notify s) = monitor s"
  by (simp_all add: signal_capacity_def signal_monitor_def signal_notify_def wake_all_def)

lemma signal_svc [simp]:
  "svc (signal_capacity s) = notify_capacity_changed (svc s)"
  "svc (signal_monitor s) = notify_all (svc s)"
  "svc (signal_notify s) = notify_waiters (svc s)"
  by (simp_all add: signal_capacity_def signal_monitor_def signal_notify_def wake_all_def)

lemma signal_threads [simp]:
  "threads (signal_capacity s) i = map_option wake_producer (threads s i)"
  "threads (signal_monitor s) i = map_option wake_monitor (threads s i)"
  "threads (signal_notify s) i = map_option wake_notified (threads s i)"
  by (simp_all add: signal_capacity_def signal_monitor_def signal_notify_def wake_all_def)

lemma notify_fields [simp]:
  "task_counts (notify_all v) = task_counts v" "task_counts (notify_waiters v) = task_counts v"
  "abort_handles (notify_all v) = abort_handles v" "abort_handles (notify_waiters v) = abort_handles v"
  "abort_handles (notify_capacity_changed v) = abort_handles v"
  "submission_lock (notify_all v) = submission_lock v"
  "submission_lock (notify_waiters v) = submission_lock v"
  "submission_lock (notify_capacity_changed v) = submission_lock v"
  "lifecycle_byte (notify_all v) = lifecycle_byte v" "lifecycle_byte (notify_waiters v) = lifecycle_byte v"
  "lifecycle_byte (notify_capacity_changed v) = lifecycle_byte v"
  "task_capacity (notify_all v) = task_capacity v" "task_capacity (notify_waiters v) = task_capacity v"
  "task_capacity (notify_capacity_changed v) = task_capacity v"
  "is_not_running (notify_all v) = is_not_running v" "is_not_running (notify_waiters v) = is_not_running v"
  by (simp_all add: notify_all_def notify_waiters_def notify_capacity_changed_def is_not_running_def)

text \<open>A wake-up touches only parked waiters and producers.\<close>

lemma wake_eq_iff [simp]:
  "wake_producer pc = CancelMark k \<longleftrightarrow> pc = CancelMark k"
  "wake_monitor pc = CancelMark k \<longleftrightarrow> pc = CancelMark k"
  "wake_notified pc = CancelMark k \<longleftrightarrow> pc = CancelMark k"
  "wake_producer pc = CancelWait k \<longleftrightarrow> pc = CancelWait k"
  "wake_monitor pc = CancelWait k \<longleftrightarrow> pc = CancelWait k"
  "wake_notified pc = CancelWait k \<longleftrightarrow> pc = CancelWait k"
  "wake_producer pc = StopHookWait q r k ks n \<longleftrightarrow> pc = StopHookWait q r k ks n"
  "wake_monitor pc = StopHookWait q r k ks n \<longleftrightarrow> pc = StopHookWait q r k ks n"
  "wake_notified pc = StopHookWait q r k ks n \<longleftrightarrow> pc = StopHookWait q r k ks n"
  "wake_producer pc = WaitEval \<longleftrightarrow> pc = WaitEval" "wake_monitor pc = WaitEval \<longleftrightarrow> pc = WaitEval"
  "wake_notified pc = WaitEval \<longleftrightarrow> pc = WaitEval"
  "wake_producer pc = WaitEmpty l \<longleftrightarrow> pc = WaitEmpty l" "wake_monitor pc = WaitEmpty l \<longleftrightarrow> pc = WaitEmpty l"
  "wake_notified pc = WaitEmpty l \<longleftrightarrow> pc = WaitEmpty l"
  by (cases pc; simp)+

lemma mentions_wake [simp]:
  "mentions (wake_producer pc) = mentions pc" "mentions (wake_monitor pc) = mentions pc"
  "mentions (wake_notified pc) = mentions pc"
  by (cases pc; simp)+

section \<open>What finishing a task leaves alone\<close>

lemma finish_task_section_frame:
  assumes "finish_task_section dbg b v = Some (tm, v')"
  obtains c where "counts_finish_task dbg b (task_counts v) = Some c" "v' = v\<lparr>task_counts := c\<rparr>"
    "tm = (is_not_running v \<and> is_empty c)"
  using assms by (auto simp: finish_task_section_def bind_eq_Some_conv)

lemma fin_step_frame:
  assumes "fin_step dbg f s f' s'"
  shows "tasks s' = tasks s" "holder s' = holder s" "monitor s' = monitor s"
    "abort_handles (svc s') = abort_handles (svc s)"
    "submission_lock (svc s') = submission_lock (svc s)"
    "lifecycle_byte (svc s') = lifecycle_byte (svc s)"
    "task_capacity (svc s') = task_capacity (svc s)"
    "is_not_running (svc s') = is_not_running (svc s)"
  using assms by (cases rule: fin_step.cases; force elim!: finish_task_section_frame)+

text \<open>
  Steps with the same shape in the accounting: \<open>fin_effect f\<close> is what a finisher at \<open>f\<close>
  still holds of the queued and running counts.
\<close>

fun fin_queued :: "fin_pc \<Rightarrow> nat" where
  "fin_queued (FinCount started) = of_bool (\<not> started)"
| "fin_queued f = 0"

fun fin_running :: "fin_pc \<Rightarrow> nat" where
  "fin_running (FinCount started) = of_bool started"
| "fin_running f = 0"

section \<open>The submission lock\<close>

fun closing_holder :: "holder_pc \<Rightarrow> bool" where
  "closing_holder ShutdownUnlock = True"
| "closing_holder StopSnapshot = True"
| "closing_holder (StopUnlock q r) = True"
| "closing_holder h = False"

fun submitting_holder :: "holder_pc \<Rightarrow> bool" where
  "submitting_holder SubmitReserve = True"
| "submitting_holder SubmitCreate = True"
| "submitting_holder (SubmitRegister k) = True"
| "submitting_holder (SubmitUnlock k) = True"
| "submitting_holder h = False"

definition inv_lock :: "csys \<Rightarrow> bool" where
  "inv_lock s \<longleftrightarrow> submission_lock (svc s) = (holder s \<noteq> Unlocked) \<and>
     (submitting_holder (holder s) \<longrightarrow> \<not> is_not_running (svc s)) \<and>
     (closing_holder (holder s) \<longrightarrow> is_not_running (svc s))"

lemma try_accept_task_cases:
  assumes "try_accept_task dbg v = Some (b, v')"
  obtains "\<not> b" "v' = v" "unfinished (task_counts v) \<ge> task_capacity v"
  | c where "b" "accept_task dbg (task_counts v) = Some c" "v' = v\<lparr>task_counts := c\<rparr>"
    "unfinished (task_counts v) < task_capacity v"
  using assms by (auto simp: try_accept_task_def bind_eq_Some_conv split: if_splits)

lemma mark_task_started_cases:
  assumes "mark_task_started dbg v = Some v'"
  obtains c where "mark_started dbg (task_counts v) = Some c" "v' = v\<lparr>task_counts := c\<rparr>"
  using assms by (auto simp: mark_task_started_def bind_eq_Some_conv)

lemma lock_submission_Some_iff [simp]:
  "lock_submission v = Some v' \<longleftrightarrow> \<not> submission_lock v \<and> v' = v\<lparr>submission_lock := True\<rparr>"
  by (auto simp: lock_submission_def)

lemma lifecycle_frame [simp]:
  "lifecycle_byte (unlock_submission v) = lifecycle_byte v"
  "task_counts (unlock_submission v) = task_counts v"
  "abort_handles (unlock_submission v) = abort_handles v"
  "task_capacity (unlock_submission v) = task_capacity v"
  "submission_lock (unlock_submission v) = False"
  "is_not_running (unlock_submission v) = is_not_running v"
  "task_counts (state_shutdown v) = task_counts v" "task_counts (state_stop v) = task_counts v"
  "abort_handles (state_shutdown v) = abort_handles v" "abort_handles (state_stop v) = abort_handles v"
  "task_capacity (state_shutdown v) = task_capacity v" "task_capacity (state_stop v) = task_capacity v"
  "submission_lock (state_shutdown v) = submission_lock v"
  "submission_lock (state_stop v) = submission_lock v"
  by (simp_all add: unlock_submission_def state_shutdown_def state_stop_def is_not_running_def)

lemma inv_lock_task: "task_step dbg s s' \<Longrightarrow> inv_lock s \<Longrightarrow> inv_lock s'"
  by (elim task_stepE) (auto simp: inv_lock_def fin_step_frame elim!: mark_task_started_cases)

lemma inv_lock_holder: "holder_step dbg s s' \<Longrightarrow> inv_lock s \<Longrightarrow> inv_lock s'"
  by (elim holder_stepE) (auto simp: inv_lock_def elim!: try_accept_task_cases)

lemma inv_lock_canceller: "canceller_step s s' \<Longrightarrow> inv_lock s \<Longrightarrow> inv_lock s'"
  by (elim canceller_stepE) (simp_all add: inv_lock_def)

lemma inv_lock_closer: "closer_step dbg s s' \<Longrightarrow> inv_lock s \<Longrightarrow> inv_lock s'"
  by (elim closer_stepE) (simp_all add: inv_lock_def)

lemma inv_lock_waiter: "waiter_step s s' \<Longrightarrow> inv_lock s \<Longrightarrow> inv_lock s'"
  by (elim waiter_stepE) (simp_all add: inv_lock_def)

lemma inv_lock_reclaim: "reclaim_step s s' \<Longrightarrow> inv_lock s \<Longrightarrow> inv_lock s'"
  by (elim reclaim_stepE) (simp_all add: inv_lock_def)

lemma inv_lock_step: "cstep dbg s s' \<Longrightarrow> inv_lock s \<Longrightarrow> inv_lock s'"
  by (elim cstepE) (blast intro: inv_lock_task inv_lock_holder inv_lock_canceller inv_lock_closer
      inv_lock_waiter inv_lock_reclaim)+

section \<open>The state of a task\<close>

text \<open>Which tracker states can go with which place of the guard.\<close>

fun owner_states :: "owner_pc \<Rightarrow> u8 set" where
  "owner_states MarkCount = {TASK_STATE_RUNNING}"
| "owner_states RunningTask = {TASK_STATE_RUNNING}"
| "owner_states (Finishing f) = {TASK_STATE_FINISHED}"
| "owner_states DropMark = {TASK_STATE_QUEUED, TASK_STATE_RUNNING, TASK_STATE_FINISHED}"
| "owner_states DropRemove = {TASK_STATE_QUEUED, TASK_STATE_RUNNING, TASK_STATE_FINISHED}"
| "owner_states DropSwap = {TASK_STATE_QUEUED, TASK_STATE_RUNNING, TASK_STATE_FINISHED}"
| "owner_states pc = {TASK_STATE_QUEUED, TASK_STATE_FINISHED}"

definition task_ok :: "usize \<Rightarrow> ctask \<Rightarrow> bool" where
  "task_ok k t \<longleftrightarrow> marker (tracker t) = k \<and> task_state (tracker t) \<in> owner_states (owner t) \<and>
     (winner t \<noteq> None \<longrightarrow> task_state (tracker t) = TASK_STATE_FINISHED) \<and>
     (\<forall>f. winner t \<noteq> None \<and> owner t = Finishing f \<longrightarrow> f = FinDone) \<and>
     winner t \<noteq> Some (FinCount True)"

fun registering :: "holder_pc \<Rightarrow> usize option" where
  "registering (SubmitRegister k) = Some k"
| "registering (SubmitUnlock k) = Some k"
| "registering h = None"

definition inv_tasks :: "csys \<Rightarrow> bool" where
  "inv_tasks s \<longleftrightarrow> finite (dom (tasks s)) \<and> (\<forall>k t. tasks s k = Some t \<longrightarrow> task_ok k t) \<and>
     (\<forall>k t. tasks s k = Some t \<longrightarrow> (owner t = Admitted) = (registering (holder s) = Some k)) \<and>
     (\<forall>k. registering (holder s) = Some k \<longrightarrow> k \<in> dom (tasks s))"

lemma fin_step_not_done [simp]: "\<not> fin_step dbg FinDone s f' s'"
  by (auto elim: fin_step.cases)

lemma fin_step_not_count [simp]: "\<not> fin_step dbg f s (FinCount b) s'"
  by (auto elim: fin_step.cases split: if_splits)

lemma owner_states_queued [simp]:
  "TASK_STATE_QUEUED \<in> owner_states pc \<longleftrightarrow>
     pc \<noteq> MarkCount \<and> pc \<noteq> RunningTask \<and> (\<forall>f. pc \<noteq> Finishing f)"
  by (cases pc) auto

lemma owner_states_finished [simp]:
  "TASK_STATE_FINISHED \<in> owner_states pc \<longleftrightarrow> pc \<noteq> MarkCount \<and> pc \<noteq> RunningTask"
  by (cases pc) auto

lemma compare_exchange_simps [simp]:
  "compare_exchange c a b = (Inr old, v) \<longleftrightarrow> c = a \<and> old = a \<and> v = b"
  "compare_exchange c a b = (Inl actual, v) \<longleftrightarrow> c \<noteq> a \<and> actual = c \<and> v = c"
  by (auto simp: compare_exchange_def)

lemma swap_simps [simp]: "swap c a = (old, v) \<longleftrightarrow> old = c \<and> v = a"
  by (auto simp: swap_def)

lemma inv_tasks_frame [simp]:
  "inv_tasks (s\<lparr>threads := x\<rparr>) = inv_tasks s" "inv_tasks (s\<lparr>svc := v\<rparr>) = inv_tasks s"
  "inv_tasks (s\<lparr>monitor := m\<rparr>) = inv_tasks s"
  "inv_tasks (signal_capacity s) = inv_tasks s" "inv_tasks (signal_monitor s) = inv_tasks s"
  "inv_tasks (signal_notify s) = inv_tasks s"
  by (simp_all add: inv_tasks_def)

lemma inv_tasks_put:
  assumes "inv_tasks s" and "tasks s k = Some t" and "task_ok k t \<Longrightarrow> task_ok k t'"
    and "owner t = Admitted \<longleftrightarrow> owner t' = Admitted"
    and "holder s1 = holder s"
  shows "inv_tasks (s1\<lparr>tasks := (tasks s)(k \<mapsto> t')\<rparr>)"
  using assms by (auto simp: inv_tasks_def)

lemma inv_tasksD:
  assumes "inv_tasks s"
  shows "finite (dom (tasks s))" "tasks s k = Some t \<Longrightarrow> task_ok k t"
    "tasks s k = Some t \<Longrightarrow> owner t = Admitted \<longleftrightarrow> registering (holder s) = Some k"
    "registering (holder s) = Some k \<Longrightarrow> k \<in> dom (tasks s)"
  using assms by (auto simp: inv_tasks_def)

lemma inv_tasks_task: "task_step dbg s s' \<Longrightarrow> inv_tasks s \<Longrightarrow> inv_tasks s'"
proof (elim task_stepE)
  fix k t f f' s1
  assume "tasks s k = Some t" "winner t = Some f" and step: "fin_step dbg f s f' s1"
    and "s' = put_task k (t\<lparr>winner := Some f'\<rparr>) s1" and "inv_tasks s"
  then show "inv_tasks s'"
    by (auto simp: task_ok_def fin_step_frame [OF step] intro!: inv_tasks_put [of s k t])
next
  fix k t f f' s1
  assume "tasks s k = Some t" "owner t = Finishing f" and step: "fin_step dbg f s f' s1"
    and "s' = put_task k (t\<lparr>owner := Finishing f'\<rparr>) s1" and "inv_tasks s"
  moreover have "f \<noteq> FinDone" using step by auto
  ultimately show "inv_tasks s'"
    by (auto simp: task_ok_def fin_step_frame [OF step] intro!: inv_tasks_put [of s k t])
qed (simp split del: if_split, rule inv_tasks_put, assumption, assumption,
    force simp: task_ok_def finish_from_def, force, simp)+

lemma inv_tasks_holder: "holder_step dbg s s' \<Longrightarrow> inv_tasks s \<Longrightarrow> inv_lock s \<Longrightarrow> inv_tasks s'"
proof (elim holder_stepE)
  fix k t
  assume "s' = s\<lparr>svc := unlock_submission (svc s), holder := Unlocked,
      tasks := (tasks s)(k \<mapsto> t\<lparr>owner := Held\<rparr>)\<rparr>"
    and h: "holder s = SubmitUnlock k" and t: "tasks s k = Some t" and inv: "inv_tasks s"
  moreover have "owner t = Admitted" using inv_tasksD(3) [OF inv t] h by simp
  then have "task_ok k (t\<lparr>owner := Held\<rparr>)"
    using inv_tasksD(2) [OF inv t] by (auto simp: task_ok_def)
  ultimately show "inv_tasks s'" by (auto simp: inv_tasks_def)
qed (auto simp: inv_tasks_def task_ok_def tracker_new_def inv_lock_def)

lemma inv_tasks_canceller: "canceller_step s s' \<Longrightarrow> inv_tasks s \<Longrightarrow> inv_tasks s'"
  by (elim canceller_stepE)
    ((simp; fail) | (simp, rule inv_tasks_put, assumption, assumption, force simp: task_ok_def, force, simp))+

lemma inv_tasks_closer: "closer_step dbg s s' \<Longrightarrow> inv_tasks s \<Longrightarrow> inv_tasks s'"
  by (elim closer_stepE)
    ((simp; fail) | (simp, rule inv_tasks_put, assumption, assumption, force simp: task_ok_def, force, simp))+

lemma inv_tasks_waiter: "waiter_step s s' \<Longrightarrow> inv_tasks s \<Longrightarrow> inv_tasks s'"
  by (elim waiter_stepE) simp_all

lemma inv_tasks_reclaim_task:
  assumes "inv_tasks s" and "tasks s k = Some t" and "owner t \<noteq> Admitted"
  shows "inv_tasks (s\<lparr>tasks := (tasks s)(k := None)\<rparr>)"
proof -
  have "registering (holder s) \<noteq> Some k" using inv_tasksD(3) [OF assms(1,2)] assms(3) by simp
  with assms(1) show ?thesis by (auto simp: inv_tasks_def)
qed

lemma inv_tasks_reclaim: "reclaim_step s s' \<Longrightarrow> inv_tasks s \<Longrightarrow> inv_tasks s'"
  by (elim reclaim_stepE) (simp_all add: inv_tasks_reclaim_task)

lemma inv_tasks_step: "cstep dbg s s' \<Longrightarrow> inv_tasks s \<Longrightarrow> inv_lock s \<Longrightarrow> inv_tasks s'"
  by (elim cstepE) (blast intro: inv_tasks_task inv_tasks_holder inv_tasks_canceller inv_tasks_closer
      inv_tasks_waiter inv_tasks_reclaim)+

section \<open>The counters\<close>

text \<open>
  What a task contributes to each counter: its tracker's state, except that a task whose
  \<^verbatim>\<open>mark_started\<close> has exchanged the state but not yet counted still stands as queued, and
  that a finished one stands where it was until its \<^verbatim>\<open>finish_task\<close> has counted.
\<close>

definition queued_part :: "ctask \<Rightarrow> nat" where
  "queued_part t = of_bool (task_state (tracker t) = TASK_STATE_QUEUED) + of_bool (owner t = MarkCount)
     + (case owner t of Finishing f \<Rightarrow> fin_queued f | _ \<Rightarrow> 0)
     + (case winner t of Some f \<Rightarrow> fin_queued f | None \<Rightarrow> 0)"

definition running_part :: "ctask \<Rightarrow> nat" where
  "running_part t = of_bool (task_state (tracker t) = TASK_STATE_RUNNING \<and> owner t \<noteq> MarkCount)
     + (case owner t of Finishing f \<Rightarrow> fin_running f | _ \<Rightarrow> 0)
     + (case winner t of Some f \<Rightarrow> fin_running f | None \<Rightarrow> 0)"

definition queued_total :: "csys \<Rightarrow> nat" where
  "queued_total s = msum queued_part (tasks s) + of_bool (holder s = SubmitCreate)"

definition running_total :: "csys \<Rightarrow> nat" where
  "running_total s = msum running_part (tasks s)"

definition inv_counts :: "csys \<Rightarrow> bool" where
  "inv_counts s \<longleftrightarrow> counts_are (queued_total s) (running_total s) (task_counts (svc s)) \<and>
     queued_total s + running_total s \<le> unat (task_capacity (svc s))"

lemma inv_counts_cong:
  assumes "inv_counts s" and "queued_total s' = queued_total s" and "running_total s' = running_total s"
    and "task_counts (svc s') = task_counts (svc s)" and "task_capacity (svc s') = task_capacity (svc s)"
  shows "inv_counts s'"
  using assms by (simp add: inv_counts_def)

text \<open>A task may change its place without changing what it contributes.\<close>

lemma inv_counts_put:
  assumes "inv_counts s" and "inv_tasks s" and "tasks s k = Some t"
    and "task_ok k t \<Longrightarrow> queued_part t' = queued_part t"
    and "task_ok k t \<Longrightarrow> running_part t' = running_part t"
    and "(holder s1 = SubmitCreate) = (holder s = SubmitCreate)"
    and "task_counts (svc s1) = task_counts (svc s)" and "task_capacity (svc s1) = task_capacity (svc s)"
  shows "inv_counts (s1\<lparr>tasks := (tasks s)(k \<mapsto> t')\<rparr>)" (is "inv_counts ?s1")
proof (rule inv_counts_cong [OF assms(1)])
  note fin = inv_tasksD(1) [OF assms(2)] and ok = inv_tasksD(2) [OF assms(2,3)]
  show "queued_total ?s1 = queued_total s"
    using msum_upd_same [OF fin assms(3), of queued_part t'] assms(4) [OF ok] assms(6)
    by (simp add: queued_total_def)
  show "running_total ?s1 = running_total s"
    using msum_upd_same [OF fin assms(3), of running_part t'] assms(5) [OF ok]
    by (simp add: running_total_def)
qed (use assms in simp_all)

text \<open>
  The two kinds of task steps that do count: a task moves between the counters, together
  with the counters themselves.
\<close>

lemma totals_move:
  assumes "inv_tasks s" and "tasks s k = Some t" and "tasks s1 = (tasks s)(k \<mapsto> t')"
    and "(holder s1 = SubmitCreate) = (holder s = SubmitCreate)"
  shows "queued_total s1 + queued_part t = queued_total s + queued_part t'"
    and "running_total s1 + running_part t = running_total s + running_part t'"
  using msum_upd [OF inv_tasksD(1) [OF assms(1)] assms(2), of queued_part t']
    msum_upd [OF inv_tasksD(1) [OF assms(1)] assms(2), of running_part t'] assms(3,4)
  by (simp_all add: queued_total_def running_total_def)

lemma inv_counts_move:
  assumes inv: "inv_counts s" "inv_tasks s" and t: "tasks s k = Some t"
    and eq: "tasks s1 = (tasks s)(k \<mapsto> t')" "(holder s1 = SubmitCreate) = (holder s = SubmitCreate)"
    and counts: "\<And>q r. q + queued_part t = queued_total s + queued_part t' \<Longrightarrow>
      r + running_part t = running_total s + running_part t' \<Longrightarrow>
      counts_are q r (task_counts (svc s1))"
    and le: "queued_part t' + running_part t' \<le> queued_part t + running_part t"
    and cap: "task_capacity (svc s1) = task_capacity (svc s)"
  shows "inv_counts s1"
proof -
  note mv = totals_move [OF inv(2) t eq]
  have "counts_are (queued_total s1) (running_total s1) (task_counts (svc s1))"
    using mv by (rule counts)
  moreover have "queued_total s1 + running_total s1 \<le> unat (task_capacity (svc s1))"
    using mv le inv(1) cap by (simp add: inv_counts_def)
  ultimately show ?thesis by (simp add: inv_counts_def)
qed

lemma fin_step_counts:
  assumes "fin_step dbg f s f' s'" and "counts_are q r (task_counts (svc s))"
    and "fin_queued f \<le> q" and "fin_running f \<le> r"
  shows "counts_are (q - fin_queued f) (r - fin_running f) (task_counts (svc s'))"
    and "fin_queued f' = 0" and "fin_running f' = 0"
proof -
  have "counts_are (q - fin_queued f) (r - fin_running f) (task_counts (svc s'))
    \<and> fin_queued f' = 0 \<and> fin_running f' = 0"
    using assms(1)
  proof (cases rule: fin_step.cases)
    case (fin_count started tm v)
    from fin_count(5) obtain c where c: "counts_finish_task dbg started (task_counts (svc s)) = Some c"
      "v = (svc s)\<lparr>task_counts := c\<rparr>" by (rule finish_task_section_frame)
    show ?thesis
    proof (cases started)
      case True
      then have "0 < r" using assms(4) fin_count by simp
      from finish_running_counts [OF assms(2) this, of dbg] c True fin_count show ?thesis by auto
    next
      case False
      then have "0 < q" using assms(3) fin_count by simp
      from finish_queued_counts [OF assms(2) this, of dbg] c False fin_count show ?thesis by auto
    qed
  qed (use assms(2) in auto)
  then show "counts_are (q - fin_queued f) (r - fin_running f) (task_counts (svc s'))"
    and "fin_queued f' = 0" and "fin_running f' = 0" by simp_all
qed

lemma parts_le_totals:
  assumes "inv_tasks s" and "tasks s k = Some t"
  shows "queued_part t \<le> queued_total s" "running_part t \<le> running_total s"
  using msum_member_le [OF inv_tasksD(1) [OF assms(1)] assms(2), of queued_part]
    msum_member_le [OF inv_tasksD(1) [OF assms(1)] assms(2), of running_part]
  by (simp_all add: queued_total_def running_total_def)

lemma task_okD:
  assumes "task_ok k t"
  shows "marker (tracker t) = k" "task_state (tracker t) \<in> owner_states (owner t)"
    "winner t = Some f \<Longrightarrow> task_state (tracker t) = TASK_STATE_FINISHED"
    "winner t = Some f \<Longrightarrow> owner t = Finishing g \<Longrightarrow> g = FinDone"
    "winner t = Some f \<Longrightarrow> owner t \<noteq> MarkCount" "winner t \<noteq> Some (FinCount True)"
  using assms by (auto simp: task_ok_def)

lemma inv_counts_finish:
  assumes step: "fin_step dbg f s f' s1" and inv: "inv_counts s" "inv_tasks s"
    and t: "tasks s k = Some t"
    and parts: "queued_part t = fin_queued f" "running_part t = fin_running f"
      "queued_part t' = fin_queued f'" "running_part t' = fin_running f'"
  shows "inv_counts (s1\<lparr>tasks := (tasks s)(k \<mapsto> t')\<rparr>)"
proof (rule inv_counts_move [OF inv t])
  have c: "counts_are (queued_total s) (running_total s) (task_counts (svc s))"
    using inv(1) by (simp add: inv_counts_def)
  note le = parts_le_totals [OF inv(2) t]
  note fin = fin_step_counts [OF step c, folded parts, OF le]
  show "counts_are q r (task_counts (svc (s1\<lparr>tasks := (tasks s)(k \<mapsto> t')\<rparr>)))"
    if "q + queued_part t = queued_total s + queued_part t'"
      "r + running_part t = running_total s + running_part t'" for q r
  proof -
    have "q = queued_total s - queued_part t" "r = running_total s - running_part t"
      using that fin(2,3) parts by simp_all
    with fin(1) show ?thesis by simp
  qed
  show "queued_part t' + running_part t' \<le> queued_part t + running_part t"
    using fin(2,3) parts by simp
qed (simp_all add: fin_step_frame [OF step])

lemma inv_counts_started:
  assumes inv: "inv_counts s" "inv_tasks s" and t: "tasks s k = Some t" and mc: "owner t = MarkCount"
    and v: "mark_task_started dbg (svc s) = Some v"
  shows "inv_counts (put_task k (t\<lparr>owner := RunningTask\<rparr>) (s\<lparr>svc := v\<rparr>))"
proof (rule inv_counts_move [OF inv t])
  have c: "counts_are (queued_total s) (running_total s) (task_counts (svc s))"
    using inv(1) by (simp add: inv_counts_def)
  have ok: "task_ok k t" using inv_tasksD(2) [OF inv(2) t] .
  then have "winner t = None" "task_state (tracker t) = TASK_STATE_RUNNING"
    using mc by (auto simp: task_ok_def)
  with mc have parts: "queued_part t = 1" "running_part t = 0"
    "queued_part (t\<lparr>owner := RunningTask\<rparr>) = 0" "running_part (t\<lparr>owner := RunningTask\<rparr>) = 1"
    by (simp_all add: queued_part_def running_part_def)
  then have pos: "0 < queued_total s" using parts_le_totals(1) [OF inv(2) t] by simp
  obtain c' where c': "mark_started dbg (task_counts (svc s)) = Some c'" "v = (svc s)\<lparr>task_counts := c'\<rparr>"
    using v by (rule mark_task_started_cases)
  have fin: "counts_are (queued_total s - 1) (running_total s + 1) c'"
    using mark_started_counts [OF c pos, of dbg] c'(1) by auto
  show "counts_are q r (task_counts (svc (put_task k (t\<lparr>owner := RunningTask\<rparr>) (s\<lparr>svc := v\<rparr>))))"
    if "q + queued_part t = queued_total s + queued_part (t\<lparr>owner := RunningTask\<rparr>)"
      "r + running_part t = running_total s + running_part (t\<lparr>owner := RunningTask\<rparr>)" for q r
  proof -
    have "q = queued_total s - 1" "r = running_total s + 1" using that parts by simp_all
    with fin c'(2) show ?thesis by simp
  qed
  show "queued_part (t\<lparr>owner := RunningTask\<rparr>) + running_part (t\<lparr>owner := RunningTask\<rparr>)
      \<le> queued_part t + running_part t"
    by (simp add: parts)
  show "task_capacity (svc (put_task k (t\<lparr>owner := RunningTask\<rparr>) (s\<lparr>svc := v\<rparr>))) = task_capacity (svc s)"
    using c'(2) by simp
qed simp_all

lemma inv_counts_frame [simp]:
  "inv_counts (s\<lparr>threads := x\<rparr>) = inv_counts s" "inv_counts (s\<lparr>monitor := m\<rparr>) = inv_counts s"
  "inv_counts (s\<lparr>svc := (svc s)\<lparr>abort_handles := h\<rparr>\<rparr>) = inv_counts s"
  "inv_counts (signal_capacity s) = inv_counts s" "inv_counts (signal_monitor s) = inv_counts s"
  "inv_counts (signal_notify s) = inv_counts s"
  by (simp_all add: inv_counts_def queued_total_def running_total_def)

lemmas part_defs = queued_part_def running_part_def

lemma inv_counts_task: "task_step dbg s s' \<Longrightarrow> inv_counts s \<Longrightarrow> inv_tasks s \<Longrightarrow> inv_counts s'"
proof (elim task_stepE)
  fix k t f f' s1
  assume t: "tasks s k = Some t" "winner t = Some f" and step: "fin_step dbg f s f' s1"
    and s': "s' = put_task k (t\<lparr>winner := Some f'\<rparr>) s1" and inv: "inv_counts s" "inv_tasks s"
  note ok = task_okD [OF inv_tasksD(2) [OF inv(2) t(1)]]
  have "task_state (tracker t) = TASK_STATE_FINISHED" "owner t \<noteq> MarkCount"
    "\<forall>g. owner t = Finishing g \<longrightarrow> g = FinDone" using ok(3-5) [OF t(2)] by auto
  with t(2) show "inv_counts s'"
    unfolding s' fin_step_frame(1) [OF step]
    by (intro inv_counts_finish [OF step inv t(1)]) (auto simp: part_defs split: owner_pc.split)
next
  fix k t f f' s1
  assume t: "tasks s k = Some t" "owner t = Finishing f" and step: "fin_step dbg f s f' s1"
    and s': "s' = put_task k (t\<lparr>owner := Finishing f'\<rparr>) s1" and inv: "inv_counts s" "inv_tasks s"
  note ok = task_okD [OF inv_tasksD(2) [OF inv(2) t(1)]]
  have "f \<noteq> FinDone" using step by auto
  then have "winner t = None" using ok(4) [OF _ t(2)] by (cases "winner t") auto
  moreover have "task_state (tracker t) = TASK_STATE_FINISHED" using ok(2) t(2) by simp
  ultimately show "inv_counts s'" using t(2)
    unfolding s' fin_step_frame(1) [OF step]
    by (intro inv_counts_finish [OF step inv t(1)]) (auto simp: part_defs)
next
  fix k t v
  assume "s' = s\<lparr>svc := v, tasks := (tasks s)(k \<mapsto> t\<lparr>owner := RunningTask\<rparr>)\<rparr>"
    "tasks s k = Some t" "owner t = MarkCount" "mark_task_started dbg (svc s) = Some v"
    "inv_counts s" "inv_tasks s"
  then show "inv_counts s'" using inv_counts_started [of s k t dbg v] by simp
qed (simp split del: if_split, rule inv_counts_put, assumption, assumption, assumption,
    fastforce simp: part_defs task_ok_def finish_from_def split: option.splits,
    fastforce simp: part_defs task_ok_def finish_from_def split: option.splits, simp, simp, simp)+

lemma inv_counts_accept:
  assumes inv: "inv_counts s" and h: "holder s = SubmitReserve"
    and acc: "try_accept_task dbg (svc s) = Some (True, v)"
  shows "inv_counts (s\<lparr>svc := v, holder := SubmitCreate\<rparr>)"
proof -
  have c: "counts_are (queued_total s) (running_total s) (task_counts (svc s))"
    using inv by (simp add: inv_counts_def)
  from acc obtain c' where c': "accept_task dbg (task_counts (svc s)) = Some c'"
    "v = (svc s)\<lparr>task_counts := c'\<rparr>" and room: "unfinished (task_counts (svc s)) < task_capacity (svc s)"
    by (rule try_accept_task_cases) simp_all
  from room have lt: "queued_total s + running_total s < unat (task_capacity (svc s))"
    by (simp add: word_less_nat_alt unfinished_counts_are [OF c])
  moreover have "unat (task_capacity (svc s)) < 2 ^ 64" by (rule unat_usize_less)
  ultimately have "queued_total s + running_total s < 2 ^ 64 - 1" by linarith
  from accept_task_counts [OF c this, of dbg] c'(1)
  have "counts_are (queued_total s + 1) (running_total s) c'" by auto
  then show ?thesis
    using h c'(2) lt by (simp add: inv_counts_def queued_total_def running_total_def)
qed

lemma inv_counts_create:
  assumes inv: "inv_counts s" "inv_tasks s" and h: "holder s = SubmitCreate" and k: "tasks s k = None"
  shows "inv_counts (s\<lparr>holder := SubmitRegister k, tasks := (tasks s)(k \<mapsto>
    \<lparr>registration = registration_new, tracker = tracker_new k, owner = Admitted, winner = None\<rparr>)\<rparr>)"
    (is "inv_counts (s\<lparr>holder := _, tasks := (tasks s)(k \<mapsto> ?t)\<rparr>)")
proof (rule inv_counts_cong [OF inv(1)])
  note new = msum_upd_new [OF inv_tasksD(1) [OF inv(2)] k]
  show "queued_total (s\<lparr>holder := SubmitRegister k, tasks := (tasks s)(k \<mapsto> ?t)\<rparr>) = queued_total s"
    using h by (simp add: queued_total_def new) (simp add: part_defs tracker_new_def)
  show "running_total (s\<lparr>holder := SubmitRegister k, tasks := (tasks s)(k \<mapsto> ?t)\<rparr>) = running_total s"
    by (simp add: running_total_def new) (simp add: part_defs tracker_new_def)
qed simp_all

lemma inv_counts_holder_only:
  assumes "inv_counts s" and "holder s \<noteq> SubmitCreate" and "h \<noteq> SubmitCreate"
    and "task_counts v = task_counts (svc s)" and "task_capacity v = task_capacity (svc s)"
  shows "inv_counts (s\<lparr>svc := v, holder := h\<rparr>)"
  using assms by (simp add: inv_counts_def queued_total_def running_total_def)

lemma inv_counts_holder:
  "holder_step dbg s s' \<Longrightarrow> inv_counts s \<Longrightarrow> inv_tasks s \<Longrightarrow> inv_lock s \<Longrightarrow> inv_counts s'"
proof (elim holder_stepE)
  fix k t
  assume s': "s' = s\<lparr>svc := unlock_submission (svc s), holder := Unlocked,
      tasks := (tasks s)(k \<mapsto> t\<lparr>owner := Held\<rparr>)\<rparr>"
    and h: "holder s = SubmitUnlock k" and t: "tasks s k = Some t" and inv: "inv_counts s" "inv_tasks s"
  have "owner t = Admitted" using inv_tasksD(3) [OF inv(2) t] h by simp
  then show "inv_counts s'" unfolding s' using h
    by (intro inv_counts_put [OF inv t]) (simp_all add: part_defs split: option.split)
next
  fix v
  assume "s' = s\<lparr>svc := v, holder := SubmitCreate\<rparr>" "holder s = SubmitReserve"
    "try_accept_task dbg (svc s) = Some (True, v)" "inv_counts s"
  then show "inv_counts s'" by (simp add: inv_counts_accept)
next
  fix k
  assume "s' = s\<lparr>holder := SubmitRegister k, tasks := (tasks s)(k \<mapsto> \<lparr>registration = registration_new,
      tracker = tracker_new k, owner = Admitted, winner = None\<rparr>)\<rparr>"
    "holder s = SubmitCreate" "tasks s k = None" "inv_counts s" "inv_tasks s"
  then show "inv_counts s'" by (simp add: inv_counts_create)
qed (auto simp: inv_lock_def inv_counts_def queued_total_def running_total_def elim: try_accept_task_cases)

lemma inv_counts_canceller:
  "canceller_step s s' \<Longrightarrow> inv_counts s \<Longrightarrow> inv_tasks s \<Longrightarrow> inv_counts s'"
  by (elim canceller_stepE)
    ((simp; fail) | (simp, rule inv_counts_put, assumption, assumption, assumption,
      fastforce simp: part_defs task_ok_def split: option.splits owner_pc.splits,
      fastforce simp: part_defs task_ok_def split: option.splits owner_pc.splits, simp, simp, simp))+

lemma inv_counts_closer:
  "closer_step dbg s s' \<Longrightarrow> inv_counts s \<Longrightarrow> inv_tasks s \<Longrightarrow> inv_counts s'"
  by (elim closer_stepE)
    ((simp; fail) | (simp, rule inv_counts_put, assumption, assumption, assumption,
      fastforce simp: part_defs task_ok_def split: option.splits owner_pc.splits,
      fastforce simp: part_defs task_ok_def split: option.splits owner_pc.splits, simp, simp, simp))+

lemma inv_counts_waiter: "waiter_step s s' \<Longrightarrow> inv_counts s \<Longrightarrow> inv_counts s'"
  by (elim waiter_stepE) simp_all

lemma inv_counts_reclaim:
  assumes "reclaim_step s s'" and inv: "inv_counts s" "inv_tasks s"
  shows "inv_counts s'"
  using assms(1)
proof (cases rule: reclaim_step.cases)
  case (reclaim k t)
  have "queued_part t = 0" "running_part t = 0"
    using reclaim task_okD(2) [OF inv_tasksD(2) [OF inv(2) reclaim(2)]] by (auto simp: part_defs)
  then show ?thesis
    using msum_remove [OF inv_tasksD(1) [OF inv(2)] reclaim(2), of queued_part]
      msum_remove [OF inv_tasksD(1) [OF inv(2)] reclaim(2), of running_part]
    unfolding reclaim(1)
    by (intro inv_counts_cong [OF inv(1)]) (simp_all add: queued_total_def running_total_def)
qed (use inv in simp_all)

lemma inv_counts_step:
  "cstep dbg s s' \<Longrightarrow> inv_counts s \<Longrightarrow> inv_tasks s \<Longrightarrow> inv_lock s \<Longrightarrow> inv_counts s'"
  by (elim cstepE) (blast intro: inv_counts_task inv_counts_holder inv_counts_canceller
      inv_counts_closer inv_counts_waiter inv_counts_reclaim)+

end
