(* ===== verification/Interleaving_Handles.thy ===== *)
theory Interleaving_Handles
  imports Interleaving_Invariants
begin

text \<open>
  More invariants of the interleaved service: the tracked abort handles, the tasks other
  threads refer to, and the tally of a stop that is still running. They rest on the shape of
  the steps that touch a task (\<open>task_change\<close>): each changes one task, never gives it a
  larger share of the counters, and never takes back a cancellation.
\<close>

section \<open>The shape of a task's changes\<close>

definition winner_done :: "ctask \<Rightarrow> nat" where
  "winner_done t = of_bool (winner t \<noteq> None \<and> winner t \<noteq> Some (FinCount False))"

definition task_change :: "ctask \<Rightarrow> ctask \<Rightarrow> bool" where
  "task_change t t' \<longleftrightarrow>
     queued_part t' \<le> queued_part t \<and>
     queued_part t' + running_part t' \<le> queued_part t + running_part t \<and>
     (winner t \<noteq> None \<longrightarrow> winner t' \<noteq> None \<and>
        winner_done t' + queued_part t' \<le> winner_done t + queued_part t) \<and>
     (task_state (tracker t) = TASK_STATE_FINISHED \<longrightarrow> task_state (tracker t') = TASK_STATE_FINISHED) \<and>
     (is_finished (registration t) \<longrightarrow> is_finished (registration t'))"

lemma task_change_refl [simp]: "task_change t t"
  by (simp add: task_change_def)

lemma task_changeD:
  assumes "task_change t t'"
  shows "queued_part t' \<le> queued_part t" "queued_part t' + running_part t' \<le> queued_part t + running_part t"
    "winner t = Some f \<Longrightarrow> \<exists>f'. winner t' = Some f'"
    "winner t = Some f \<Longrightarrow> winner_done t' + queued_part t' \<le> winner_done t + queued_part t"
    "task_state (tracker t) = TASK_STATE_FINISHED \<Longrightarrow> task_state (tracker t') = TASK_STATE_FINISHED"
  using assms by (auto simp: task_change_def)

text \<open>
  \<open>one_task s s'\<close>: the step changes at most one task, in that way, and leaves the
  reservations of the holder alone.
\<close>

definition one_task :: "csys \<Rightarrow> csys \<Rightarrow> bool" where
  "one_task s s' \<longleftrightarrow> holder s' = holder s \<and>
     (tasks s' = tasks s \<or>
      (\<exists>k t t'. tasks s k = Some t \<and> tasks s' = (tasks s)(k \<mapsto> t') \<and> task_change t t'))"

lemma one_task_same: "tasks s' = tasks s \<Longrightarrow> holder s' = holder s \<Longrightarrow> one_task s s'"
  by (simp add: one_task_def)

lemma one_task_put:
  "tasks s k = Some t \<Longrightarrow> task_change t t' \<Longrightarrow> holder s1 = holder s \<Longrightarrow>
   one_task s (s1\<lparr>tasks := (tasks s)(k \<mapsto> t')\<rparr>)"
  by (auto simp: one_task_def)

lemma one_task_threads [simp]: "one_task s (s'\<lparr>threads := x\<rparr>) = one_task s s'"
  by (simp add: one_task_def)

lemma is_finished_finish [simp]: "is_finished (finish r)"
  by (simp add: is_finished_def finish_def)

lemma fin_step_parts:
  assumes "fin_step dbg f s f' s'"
  shows "fin_queued f' = 0" "fin_running f' = 0" "f' \<noteq> FinCount b"
  using assms by (auto elim!: fin_step.cases split: if_splits)

lemma task_change_owner_fin:
  assumes "task_ok k t" and "owner t = Finishing f" and "fin_step dbg f s f' s'"
  shows "task_change t (t\<lparr>owner := Finishing f'\<rparr>)"
  using assms fin_step_parts [OF assms(3)]
  by (auto simp: task_change_def part_defs winner_done_def)

lemma task_change_winner_fin:
  assumes "task_ok k t" and "winner t = Some f" and "fin_step dbg f s f' s'"
  shows "task_change t (t\<lparr>winner := Some f'\<rparr>)"
proof -
  have "f \<noteq> FinCount True" using task_okD(6) [OF assms(1)] assms(2) by auto
  then have "f \<noteq> FinCount False \<Longrightarrow> fin_queued f = 0" and "f = FinCount False \<Longrightarrow> fin_queued f = 1"
    by (cases f; simp)+
  then show ?thesis
    using assms fin_step_parts [OF assms(3)]
    by (cases "f = FinCount False") (auto simp: task_change_def part_defs winner_done_def)
qed

lemma one_task_task: "task_step dbg s s' \<Longrightarrow> inv_tasks s \<Longrightarrow> one_task s s'"
proof (elim task_stepE)
  fix k t f f' s1
  assume t: "tasks s k = Some t" "winner t = Some f" and step: "fin_step dbg f s f' s1"
    and s': "s' = put_task k (t\<lparr>winner := Some f'\<rparr>) s1" and inv: "inv_tasks s"
  show "one_task s s'"
    unfolding s' fin_step_frame(1) [OF step]
    using task_change_winner_fin [OF inv_tasksD(2) [OF inv t(1)] t(2) step]
    by (rule one_task_put [where k = k, OF t(1)]) (simp add: fin_step_frame [OF step])
next
  fix k t f f' s1
  assume t: "tasks s k = Some t" "owner t = Finishing f" and step: "fin_step dbg f s f' s1"
    and s': "s' = put_task k (t\<lparr>owner := Finishing f'\<rparr>) s1" and inv: "inv_tasks s"
  show "one_task s s'"
    unfolding s' fin_step_frame(1) [OF step]
    using task_change_owner_fin [OF inv_tasksD(2) [OF inv t(1)] t(2) step]
    by (rule one_task_put [where k = k, OF t(1)]) (simp add: fin_step_frame [OF step])
qed (simp split del: if_split, rule one_task_put, assumption, drule inv_tasksD(2), assumption,
    fastforce simp: task_change_def part_defs winner_done_def task_ok_def finish_from_def
      split: option.splits, simp)+

lemma one_task_canceller: "canceller_step s s' \<Longrightarrow> inv_tasks s \<Longrightarrow> one_task s s'"
  by (elim canceller_stepE)
    ((rule one_task_same; simp; fail) |
     (simp, rule one_task_put, assumption, drule inv_tasksD(2), assumption,
      fastforce simp: task_change_def part_defs winner_done_def task_ok_def
        split: option.splits owner_pc.splits, simp))+

lemma one_task_closer: "closer_step dbg s s' \<Longrightarrow> inv_tasks s \<Longrightarrow> one_task s s'"
  by (elim closer_stepE)
    ((rule one_task_same; simp; fail) |
     (simp, rule one_task_put, assumption, drule inv_tasksD(2), assumption,
      fastforce simp: task_change_def part_defs winner_done_def task_ok_def
        split: option.splits owner_pc.splits, simp))+

lemma one_task_waiter: "waiter_step s s' \<Longrightarrow> one_task s s'"
  by (elim waiter_stepE) (simp_all add: one_task_same)

section \<open>After the close\<close>

text \<open>
  A service that is closed stays closed, and from then on its counters can only fall. The
  tally of a cancellation that is being counted falls with them.
\<close>

lemma closed_stays: "cstep dbg s s' \<Longrightarrow> is_not_running (svc s) \<Longrightarrow> is_not_running (svc s')"
proof (elim cstepE)
  show "task_step dbg s s' \<Longrightarrow> is_not_running (svc s) \<Longrightarrow> is_not_running (svc s')"
    by (elim task_stepE) (auto simp: fin_step_frame elim!: mark_task_started_cases)
  show "holder_step dbg s s' \<Longrightarrow> is_not_running (svc s) \<Longrightarrow> is_not_running (svc s')"
    by (elim holder_stepE) (auto elim!: try_accept_task_cases)
  show "canceller_step s s' \<Longrightarrow> is_not_running (svc s) \<Longrightarrow> is_not_running (svc s')"
    by (elim canceller_stepE) simp_all
  show "closer_step dbg s s' \<Longrightarrow> is_not_running (svc s) \<Longrightarrow> is_not_running (svc s')"
    by (elim closer_stepE) simp_all
  show "waiter_step s s' \<Longrightarrow> is_not_running (svc s) \<Longrightarrow> is_not_running (svc s')"
    by (elim waiter_stepE) simp_all
  show "reclaim_step s s' \<Longrightarrow> is_not_running (svc s) \<Longrightarrow> is_not_running (svc s')"
    by (elim reclaim_stepE) simp_all
qed

definition done_at :: "csys \<Rightarrow> usize \<Rightarrow> nat" where
  "done_at s k = (case tasks s k of Some t \<Rightarrow> winner_done t | None \<Rightarrow> 0)"

lemma one_task_totals:
  assumes "one_task s s'" and "inv_tasks s"
  shows "queued_total s' \<le> queued_total s"
    and "queued_total s' + running_total s' \<le> queued_total s + running_total s"
    and "tasks s j = Some u \<Longrightarrow> winner u \<noteq> None \<Longrightarrow> done_at s' j + queued_total s' \<le> done_at s j + queued_total s"
proof -
  have *: "queued_total s' \<le> queued_total s \<and>
    queued_total s' + running_total s' \<le> queued_total s + running_total s \<and>
    (\<forall>u. tasks s j = Some u \<longrightarrow> winner u \<noteq> None \<longrightarrow>
       done_at s' j + queued_total s' \<le> done_at s j + queued_total s)"
  proof (cases "tasks s' = tasks s")
    case True
    then show ?thesis using assms(1) by (simp add: one_task_def queued_total_def running_total_def done_at_def)
  next
    case False
    with assms(1) obtain k t t' where t: "tasks s k = Some t" and eq: "tasks s' = (tasks s)(k \<mapsto> t')"
      and h: "holder s' = holder s" and ch: "task_change t t'"
      by (auto simp: one_task_def)
    from h have "(holder s' = SubmitCreate) = (holder s = SubmitCreate)" by simp
    note mv = totals_move [OF assms(2) t eq this]
    have "done_at s' j + queued_total s' \<le> done_at s j + queued_total s"
      if u: "tasks s j = Some u" "winner u \<noteq> None" for u
    proof (cases "j = k")
      case True
      with t u have "u = t" by simp
      with u(2) ch have "winner_done t' + queued_part t' \<le> winner_done t + queued_part t"
        by (auto simp: task_change_def)
      with True mv(1) t eq show ?thesis by (simp add: done_at_def)
    next
      case False
      then have "done_at s' j = done_at s j" using eq by (simp add: done_at_def)
      with mv(1) task_changeD(1) [OF ch] show ?thesis by simp
    qed
    then show ?thesis using mv task_changeD(1,2) [OF ch] by auto
  qed
  then show "queued_total s' \<le> queued_total s"
    and "queued_total s' + running_total s' \<le> queued_total s + running_total s"
    and "tasks s j = Some u \<Longrightarrow> winner u \<noteq> None \<Longrightarrow> done_at s' j + queued_total s' \<le> done_at s j + queued_total s"
    by auto
qed

text \<open>The steps of the holder and of reclamation, once the service is closed.\<close>

lemma closed_holder_tasks:
  assumes "holder_step dbg s s'" and "inv_lock s" and "is_not_running (svc s)"
  shows "tasks s' = tasks s" "holder s' = SubmitCreate \<longleftrightarrow> holder s = SubmitCreate"
  using assms by (elim holder_stepE; auto simp: inv_lock_def)+

lemma reclaim_totals:
  assumes "reclaim_step s s'" and "inv_tasks s"
  shows "queued_total s' \<le> queued_total s" "running_total s' \<le> running_total s"
    "holder s' = holder s" "svc s' = svc s"
  using assms
  by (auto elim!: reclaim_step.cases simp: queued_total_def running_total_def
      msum_remove [OF inv_tasksD(1)])

lemma closed_totals:
  assumes "cstep dbg s s'" and "inv_tasks s" and "inv_lock s" and "is_not_running (svc s)"
  shows "queued_total s' \<le> queued_total s"
    and "queued_total s' + running_total s' \<le> queued_total s + running_total s"
proof -
  have "queued_total s' \<le> queued_total s \<and>
    queued_total s' + running_total s' \<le> queued_total s + running_total s"
    using assms(1)
  proof (cases rule: cstep.cases)
    case by_task
    then show ?thesis using one_task_totals [OF one_task_task assms(2)] assms(2) by blast
  next
    case by_holder
    from closed_holder_tasks [OF this assms(3,4)] show ?thesis
      by (simp add: queued_total_def running_total_def)
  next
    case by_canceller
    then show ?thesis using one_task_totals [OF one_task_canceller assms(2)] assms(2) by blast
  next
    case by_closer
    then show ?thesis using one_task_totals [OF one_task_closer assms(2)] assms(2) by blast
  next
    case by_waiter
    then show ?thesis using one_task_totals [OF one_task_waiter assms(2)] by blast
  next
    case by_reclaim
    then show ?thesis using reclaim_totals [OF _ assms(2)] by (meson add_mono)
  qed
  then show "queued_total s' \<le> queued_total s"
    and "queued_total s' + running_total s' \<le> queued_total s + running_total s" by simp_all
qed

section \<open>The tracked abort handles\<close>

fun past_removal :: "owner_pc \<Rightarrow> bool" where
  "past_removal DropSwap = True"
| "past_removal (Finishing f) = True"
| "past_removal pc = False"

text \<open>A tracked handle belongs to a live task that has not removed it and is registered.\<close>

definition inv_handles :: "csys \<Rightarrow> bool" where
  "inv_handles s \<longleftrightarrow> (\<forall>k a. abort_handles (svc s) k = Some a \<longrightarrow>
     tracked_marker a = k \<and> holder s \<noteq> SubmitRegister k \<and>
     (\<exists>t. tasks s k = Some t \<and> \<not> past_removal (owner t)))"

lemma inv_handles_cong:
  assumes "inv_handles s"
    and "\<And>k a. abort_handles (svc s') k = Some a \<Longrightarrow> abort_handles (svc s) k = Some a"
    and "\<And>k. holder s' = SubmitRegister k \<Longrightarrow> holder s = SubmitRegister k"
    and "\<And>k t a. tasks s k = Some t \<Longrightarrow> \<not> past_removal (owner t) \<Longrightarrow> abort_handles (svc s') k = Some a \<Longrightarrow>
      \<exists>t'. tasks s' k = Some t' \<and> \<not> past_removal (owner t')"
  shows "inv_handles s'"
  unfolding inv_handles_def
proof (intro allI impI)
  fix k a assume a: "abort_handles (svc s') k = Some a"
  from assms(2) [OF this] assms(1) obtain t where "tracked_marker a = k" "holder s \<noteq> SubmitRegister k"
    and t: "tasks s k = Some t" "\<not> past_removal (owner t)" by (auto simp: inv_handles_def)
  then show "tracked_marker a = k \<and> holder s' \<noteq> SubmitRegister k \<and>
      (\<exists>t. tasks s' k = Some t \<and> \<not> past_removal (owner t))"
    using assms(3) assms(4) [OF t a] by auto
qed

lemma inv_handles_put:
  assumes "inv_handles s" and "tasks s k = Some t"
    and "abort_handles (svc s1) = abort_handles (svc s)" and "holder s1 = holder s"
    and "past_removal (owner t') \<Longrightarrow> past_removal (owner t)"
  shows "inv_handles (s1\<lparr>tasks := (tasks s)(k \<mapsto> t')\<rparr>)"
  using assms by (intro inv_handles_cong [OF assms(1)]) auto

lemma inv_handles_frame [simp]:
  "inv_handles (s\<lparr>threads := x\<rparr>) = inv_handles s" "inv_handles (s\<lparr>monitor := m\<rparr>) = inv_handles s"
  "inv_handles (signal_capacity s) = inv_handles s" "inv_handles (signal_monitor s) = inv_handles s"
  "inv_handles (signal_notify s) = inv_handles s"
  by (simp_all add: inv_handles_def)

lemma key_eq [simp]: "key k = k"
  by (simp add: key_def)

lemma inv_handles_task: "task_step dbg s s' \<Longrightarrow> inv_handles s \<Longrightarrow> inv_handles s'"
proof (elim task_stepE)
  fix k t f f' s1
  assume t: "tasks s k = Some t" "winner t = Some f" and step: "fin_step dbg f s f' s1"
    and s': "s' = put_task k (t\<lparr>winner := Some f'\<rparr>) s1" and inv: "inv_handles s"
  show "inv_handles s'" unfolding s' fin_step_frame(1) [OF step]
    by (rule inv_handles_put [OF inv t(1)]) (simp_all add: fin_step_frame [OF step])
next
  fix k t f f' s1
  assume t: "tasks s k = Some t" "owner t = Finishing f" and step: "fin_step dbg f s f' s1"
    and s': "s' = put_task k (t\<lparr>owner := Finishing f'\<rparr>) s1" and inv: "inv_handles s"
  show "inv_handles s'" unfolding s' fin_step_frame(1) [OF step]
    by (rule inv_handles_put [OF inv t(1)]) (simp_all add: fin_step_frame [OF step] t)
next
  fix k t v
  assume "s' = s\<lparr>svc := v, tasks := (tasks s)(k \<mapsto> t\<lparr>owner := RunningTask\<rparr>)\<rparr>" "tasks s k = Some t"
    "mark_task_started dbg (svc s) = Some v" "inv_handles s"
  then show "inv_handles s'" by (auto intro!: inv_handles_put elim: mark_task_started_cases)
next
  fix k t
  assume "s' = s\<lparr>svc := svc s\<lparr>abort_handles := (abort_handles (svc s))(key k := None)\<rparr>,
      tasks := (tasks s)(k \<mapsto> t\<lparr>owner := DropSwap\<rparr>)\<rparr>" "tasks s k = Some t" "inv_handles s"
  then show "inv_handles s'" by (auto intro: inv_handles_cong split: if_splits)
qed (simp split del: if_split, rule inv_handles_put, assumption, assumption, simp, simp, simp split: if_splits)+

lemma inv_handles_holder:
  "holder_step dbg s s' \<Longrightarrow> inv_handles s \<Longrightarrow> inv_tasks s \<Longrightarrow> inv_lock s \<Longrightarrow> inv_handles s'"
proof (elim holder_stepE)
  fix k t
  assume s': "s' = s\<lparr>svc := (svc s)\<lparr>abort_handles := (abort_handles (svc s))
      (key k \<mapsto> \<lparr>tracked_marker = k, handle = (), cancel = ()\<rparr>)\<rparr>, holder := SubmitUnlock k\<rparr>"
    and h: "holder s = SubmitRegister k" and t: "tasks s k = Some t"
    and inv: "inv_handles s" "inv_tasks s"
  have "owner t = Admitted" using inv_tasksD(3) [OF inv(2) t] h by simp
  with inv(1) t show "inv_handles s'" unfolding s' by (auto simp: inv_handles_def split: if_splits)
next
  fix k
  assume s': "s' = s\<lparr>holder := SubmitRegister k, tasks := (tasks s)(k \<mapsto> \<lparr>registration = registration_new,
      tracker = tracker_new k, owner = Admitted, winner = None\<rparr>)\<rparr>"
    and k: "tasks s k = None" and inv: "inv_handles s"
  have "abort_handles (svc s) k = None"
    using k inv by (cases "abort_handles (svc s) k") (force simp: inv_handles_def)+
  with inv show "inv_handles s'" unfolding s' by (auto simp: inv_handles_def)
qed (auto simp: inv_handles_def elim!: try_accept_task_cases)

lemma inv_handles_canceller: "canceller_step s s' \<Longrightarrow> inv_handles s \<Longrightarrow> inv_handles s'"
  by (elim canceller_stepE)
    ((simp; fail) | (simp, rule inv_handles_put, assumption, assumption, simp, simp, simp) |
     (simp add: inv_handles_def; fail))+

lemma inv_handles_closer: "closer_step dbg s s' \<Longrightarrow> inv_handles s \<Longrightarrow> inv_handles s'"
  by (elim closer_stepE)
    ((simp; fail) | (simp, rule inv_handles_put, assumption, assumption, simp, simp, simp) |
     (simp add: inv_handles_def; fail))+

lemma inv_handles_waiter: "waiter_step s s' \<Longrightarrow> inv_handles s \<Longrightarrow> inv_handles s'"
  by (elim waiter_stepE) simp_all

lemma inv_handles_reclaim: "reclaim_step s s' \<Longrightarrow> inv_handles s \<Longrightarrow> inv_handles s'"
  by (erule reclaim_step.cases) (auto simp: inv_handles_def)

lemma inv_handles_step:
  "cstep dbg s s' \<Longrightarrow> inv_handles s \<Longrightarrow> inv_tasks s \<Longrightarrow> inv_lock s \<Longrightarrow> inv_handles s'"
  by (elim cstepE) (blast intro: inv_handles_task inv_handles_holder inv_handles_canceller
      inv_handles_closer inv_handles_waiter inv_handles_reclaim)+

section \<open>The tasks that threads refer to\<close>

text \<open>
  A thread's references are live; a thread that waits for its cancellation to be counted
  has won it.
\<close>

fun waits_for :: "thread_pc \<Rightarrow> usize option" where
  "waits_for (CancelWait k) = Some k"
| "waits_for (StopHookWait q r k ks n) = Some k"
| "waits_for pc = None"

definition has_winner :: "csys \<Rightarrow> usize \<Rightarrow> bool" where
  "has_winner s k \<longleftrightarrow> (\<exists>t. tasks s k = Some t \<and> winner t \<noteq> None)"

definition inv_refs :: "csys \<Rightarrow> bool" where
  "inv_refs s \<longleftrightarrow> (\<forall>i pc. threads s i = Some pc \<longrightarrow> mentions pc \<subseteq> dom (tasks s) \<and>
     (\<forall>k. waits_for pc = Some k \<longrightarrow> has_winner s k))"

lemma waits_for_wake [simp]:
  "waits_for (wake_producer pc) = waits_for pc" "waits_for (wake_monitor pc) = waits_for pc"
  "waits_for (wake_notified pc) = waits_for pc"
  by (cases pc; simp)+

lemma waits_for_mentions: "waits_for pc = Some k \<Longrightarrow> k \<in> mentions pc"
  by (cases pc) auto

lemma one_task_refs:
  assumes "one_task s s'"
  shows "dom (tasks s') = dom (tasks s)" "has_winner s k \<Longrightarrow> has_winner s' k"
proof -
  show "dom (tasks s') = dom (tasks s)" using assms by (auto simp: one_task_def split: if_splits)
  show "has_winner s' k" if "has_winner s k"
  proof -
    from that obtain u f where "tasks s k = Some u" "winner u = Some f"
      by (auto simp: has_winner_def)
    with assms show ?thesis
      by (cases "tasks s' = tasks s") (auto simp: one_task_def has_winner_def task_change_def)
  qed
qed

lemma inv_refs_cong:
  assumes "inv_refs s" and "dom (tasks s) \<subseteq> dom (tasks s')" and "\<And>k. has_winner s k \<Longrightarrow> has_winner s' k"
    and "\<And>i pc'. threads s' i = Some pc' \<Longrightarrow>
      (\<exists>pc. threads s i = Some pc \<and> mentions pc' \<subseteq> mentions pc \<and>
         (\<forall>k. waits_for pc' = Some k \<longrightarrow> waits_for pc = Some k)) \<or>
      (mentions pc' \<subseteq> dom (tasks s') \<and> (\<forall>k. waits_for pc' = Some k \<longrightarrow> has_winner s' k))"
  shows "inv_refs s'"
  unfolding inv_refs_def
proof (intro allI impI conjI)
  fix i pc' assume pc': "threads s' i = Some pc'"
  have old: "mentions pc \<subseteq> dom (tasks s')" "waits_for pc = Some k \<Longrightarrow> has_winner s' k"
    if "threads s i = Some pc" for pc k
    using that assms(1-3) unfolding inv_refs_def by blast+
  from assms(4) [OF pc'] show "mentions pc' \<subseteq> dom (tasks s')" using old(1) by blast
  from assms(4) [OF pc'] show "has_winner s' k" if "waits_for pc' = Some k" for k
    using old(2) that by blast
qed

lemma fin_step_refs:
  assumes "fin_step dbg f s f' s'" and "threads s' i = Some pc'"
  shows "\<exists>pc. threads s i = Some pc \<and> mentions pc' \<subseteq> mentions pc \<and>
    (\<forall>k. waits_for pc' = Some k \<longrightarrow> waits_for pc = Some k)"
  using assms by (cases rule: fin_step.cases) auto

lemma inv_refs_task: "task_step dbg s s' \<Longrightarrow> inv_refs s \<Longrightarrow> inv_tasks s \<Longrightarrow> inv_refs s'"
proof -
  assume step: "task_step dbg s s'" and inv: "inv_refs s" "inv_tasks s"
  have "\<exists>pc. threads s i = Some pc \<and> mentions pc' \<subseteq> mentions pc \<and>
      (\<forall>k. waits_for pc' = Some k \<longrightarrow> waits_for pc = Some k)" if "threads s' i = Some pc'" for i pc'
    using step that by (elim task_stepE) (auto dest: fin_step_refs)
  then show "inv_refs s'"
    using one_task_refs [OF one_task_task [OF step inv(2)]] by (intro inv_refs_cong [OF inv(1)]) blast+
qed

lemma inv_refs_holder: "holder_step dbg s s' \<Longrightarrow> inv_refs s \<Longrightarrow> inv_tasks s \<Longrightarrow> inv_refs s'"
  by (elim holder_stepE)
    (erule inv_refs_cong; auto simp: has_winner_def split: if_splits; fail)+

lemma inv_refsD: "inv_refs s \<Longrightarrow> threads s i = Some pc \<Longrightarrow> mentions pc \<subseteq> dom (tasks s)"
  by (simp add: inv_refs_def)

lemma inv_refs_canceller:
  assumes "canceller_step s s'" and inv: "inv_refs s" "inv_tasks s"
  shows "inv_refs s'"
proof -
  note refs = one_task_refs [OF one_task_canceller [OF assms(1) inv(2)]]
  have "\<exists>pc. threads s i = Some pc \<and> mentions pc' \<subseteq> mentions pc \<and>
        (\<forall>k. waits_for pc' = Some k \<longrightarrow> waits_for pc = Some k) \<or>
      mentions pc' \<subseteq> dom (tasks s') \<and> (\<forall>k. waits_for pc' = Some k \<longrightarrow> has_winner s' k)"
    if "threads s' i = Some pc'" for i pc'
    using assms(1) that by (elim canceller_stepE) (auto simp: has_winner_def split: if_splits)
  with refs show ?thesis by (intro inv_refs_cong [OF inv(1)]) blast+
qed

lemma inv_refs_closer:
  assumes step: "closer_step dbg s s'" and inv: "inv_refs s" "inv_tasks s" "inv_handles s"
  shows "inv_refs s'"
proof (rule inv_refs_cong [OF inv(1)])
  note refs = one_task_refs [OF one_task_closer [OF step inv(2)]]
  show "dom (tasks s) \<subseteq> dom (tasks s')" using refs(1) by simp
  show "has_winner s k \<Longrightarrow> has_winner s' k" for k by (rule refs(2))
  fix i pc' assume thr: "threads s' i = Some pc'"
  show "(\<exists>pc. threads s i = Some pc \<and> mentions pc' \<subseteq> mentions pc \<and>
         (\<forall>k. waits_for pc' = Some k \<longrightarrow> waits_for pc = Some k)) \<or>
      (mentions pc' \<subseteq> dom (tasks s') \<and> (\<forall>k. waits_for pc' = Some k \<longrightarrow> has_winner s' k))"
    using step
  proof (cases rule: closer_step.cases)
    case (stop_take j q r ks)
    have "dom (abort_handles (svc s)) \<subseteq> dom (tasks s)"
      using inv(3) by (force simp: inv_handles_def)
    then have m: "mentions (StopLoop q r ks 0) \<subseteq> dom (tasks s')" using stop_take by simp
    have "pc' = StopLoop q r ks 0 \<or> threads s i = Some pc'"
      using stop_take thr by (cases "j = i") simp_all
    then show ?thesis
    proof
      assume "pc' = StopLoop q r ks 0"
      with m show ?thesis by simp
    qed blast
  next
    case (stop_hook_won j q r k ks n t old v)
    then have "has_winner s' k" and "mentions (StopHookWait q r k ks n) \<subseteq> dom (tasks s')"
      using inv_refsD [OF inv(1) stop_hook_won(2)] by (auto simp: has_winner_def)
    with stop_hook_won thr show ?thesis by (cases "j = i") auto
  qed (use thr in \<open>auto split: if_splits\<close>)
qed

lemma waiter_step_refs:
  assumes "waiter_step s s'" and "threads s' i = Some pc'"
  shows "mentions pc' = {} \<and> waits_for pc' = None \<or> threads s i = Some pc'"
  using assms by (elim waiter_stepE) (auto split: if_splits)

lemma inv_refs_waiter:
  assumes "waiter_step s s'" and "inv_refs s"
  shows "inv_refs s'"
proof (rule inv_refs_cong [OF assms(2)])
  note refs = one_task_refs [OF one_task_waiter [OF assms(1)]]
  show "dom (tasks s) \<subseteq> dom (tasks s')" using refs(1) by simp
  show "has_winner s k \<Longrightarrow> has_winner s' k" for k by (rule refs(2))
  show "(\<exists>pc. threads s i = Some pc \<and> mentions pc' \<subseteq> mentions pc \<and>
         (\<forall>k. waits_for pc' = Some k \<longrightarrow> waits_for pc = Some k)) \<or>
      (mentions pc' \<subseteq> dom (tasks s') \<and> (\<forall>k. waits_for pc' = Some k \<longrightarrow> has_winner s' k))"
    if "threads s' i = Some pc'" for i pc'
    using waiter_step_refs [OF assms(1) that] by auto
qed

lemma inv_refs_reclaim:
  assumes "reclaim_step s s'" and inv: "inv_refs s"
  shows "inv_refs s'"
  using assms(1)
proof (cases rule: reclaim_step.cases)
  case (reclaim k t)
  show ?thesis unfolding inv_refs_def
  proof (intro allI impI conjI)
    fix i pc assume "threads s' i = Some pc"
    then have pc: "threads s i = Some pc" using reclaim(1) by simp
    then have no: "k \<notin> mentions pc" using reclaim(6) by blast
    with pc inv show "mentions pc \<subseteq> dom (tasks s')" using reclaim(1) by (auto simp: inv_refs_def)
    show "has_winner s' j" if "waits_for pc = Some j" for j
      using inv pc that no waits_for_mentions [OF that] reclaim(1)
      by (auto simp: inv_refs_def has_winner_def)
  qed
next
  case (thread_exit i pc)
  with inv show ?thesis by (auto simp: inv_refs_def has_winner_def)
qed

lemma inv_refs_step:
  "cstep dbg s s' \<Longrightarrow> inv_refs s \<Longrightarrow> inv_tasks s \<Longrightarrow> inv_handles s \<Longrightarrow> inv_refs s'"
  by (elim cstepE) (blast intro: inv_refs_task inv_refs_holder inv_refs_canceller
      inv_refs_closer inv_refs_waiter inv_refs_reclaim)+

section \<open>The tally of a stop\<close>

text \<open>
  The cancellations a running stop has counted, with the one being counted now; together
  with the tasks still queued they never exceed the queued count it reported.
\<close>

fun tally :: "csys \<Rightarrow> thread_pc \<Rightarrow> (usize \<times> nat) option" where
  "tally s (StopTake q r) = Some (q, 0)"
| "tally s (StopLoop q r ks n) = Some (q, unat n)"
| "tally s (StopHook q r k ks n) = Some (q, unat n)"
| "tally s (StopHookWait q r k ks n) = Some (q, unat n + done_at s k)"
| "tally s pc = None"

fun report_of :: "thread_pc \<Rightarrow> StopReport option" where
  "report_of (CloseCapacity rep) = rep"
| "report_of (CloseCheck rep) = rep"
| "report_of (CloseMonitor rep) = rep"
| "report_of (CloseNotify rep) = rep"
| "report_of (Closed rep) = rep"
| "report_of pc = None"

definition inv_stop :: "csys \<Rightarrow> bool" where
  "inv_stop s \<longleftrightarrow>
     (\<forall>q r. holder s = StopUnlock q r \<longrightarrow> queued_total s \<le> unat q) \<and>
     (\<forall>i pc q n. threads s i = Some pc \<longrightarrow> tally s pc = Some (q, n) \<longrightarrow>
        is_not_running (svc s) \<and> n + queued_total s \<le> unat q) \<and>
     (\<forall>i pc rep. threads s i = Some pc \<longrightarrow> report_of pc = Some rep \<longrightarrow>
        report_cancelled rep \<le> report_queued rep)"

lemma tally_wake [simp]:
  "tally s (wake_producer pc) = tally s pc" "tally s (wake_monitor pc) = tally s pc"
  "tally s (wake_notified pc) = tally s pc"
  "report_of (wake_producer pc) = report_of pc" "report_of (wake_monitor pc) = report_of pc"
  "report_of (wake_notified pc) = report_of pc"
  by (cases pc; simp)+

lemma inv_stopD:
  assumes "inv_stop s"
  shows "holder s = StopUnlock q r \<Longrightarrow> queued_total s \<le> unat q"
    "threads s i = Some pc \<Longrightarrow> tally s pc = Some (q, n) \<Longrightarrow> is_not_running (svc s)"
    "threads s i = Some pc \<Longrightarrow> tally s pc = Some (q, n) \<Longrightarrow> n + queued_total s \<le> unat q"
    "threads s i = Some pc \<Longrightarrow> report_of pc = Some rep \<Longrightarrow> report_cancelled rep \<le> report_queued rep"
  using assms by (auto simp: inv_stop_def)

text \<open>The tally of a thread that does not move falls with the counter it is added to.\<close>

lemma tally_stays:
  assumes "threads s i = Some pc" and "tally s' pc = Some (q, n')" and "inv_refs s"
    and "\<And>j u. tasks s j = Some u \<Longrightarrow> winner u \<noteq> None \<Longrightarrow> j \<in> mentions pc \<Longrightarrow>
      done_at s' j + queued_total s' \<le> done_at s j + queued_total s"
    and "queued_total s' \<le> queued_total s"
  obtains n where "tally s pc = Some (q, n)" "n' + queued_total s' \<le> n + queued_total s"
proof (cases "waits_for pc")
  case None
  with assms(2) have "tally s pc = Some (q, n')" by (cases pc) auto
  from that [OF this add_left_mono [OF assms(5)]] show ?thesis .
next
  case (Some k)
  with assms(1,3) have "has_winner s k" unfolding inv_refs_def by blast
  then obtain u where "tasks s k = Some u" "winner u \<noteq> None" unfolding has_winner_def by blast
  from assms(4) [OF this waits_for_mentions [OF Some]]
  have "done_at s' k + queued_total s' \<le> done_at s k + queued_total s" .
  with Some assms(2) show ?thesis by (cases pc) (auto intro: that)
qed

lemma inv_stop_cong:
  assumes inv: "inv_stop s" "inv_refs s" and le: "queued_total s' \<le> queued_total s \<or> \<not> is_not_running (svc s)"
    and closed: "is_not_running (svc s) \<Longrightarrow> is_not_running (svc s')"
    and hold: "\<And>q r. holder s' = StopUnlock q r \<Longrightarrow> queued_total s' \<le> unat q"
    and dn: "\<And>i pc j u. is_not_running (svc s) \<Longrightarrow> threads s i = Some pc \<Longrightarrow> tasks s j = Some u \<Longrightarrow>
      winner u \<noteq> None \<Longrightarrow> j \<in> mentions pc \<Longrightarrow> done_at s' j + queued_total s' \<le> done_at s j + queued_total s"
    and thr: "\<And>i pc'. threads s' i = Some pc' \<Longrightarrow>
      (\<exists>pc. threads s i = Some pc \<and> tally s' pc' = tally s' pc \<and> report_of pc' = report_of pc) \<or>
      ((\<forall>q n. tally s' pc' = Some (q, n) \<longrightarrow> is_not_running (svc s') \<and> n + queued_total s' \<le> unat q) \<and>
       (\<forall>rep. report_of pc' = Some rep \<longrightarrow> report_cancelled rep \<le> report_queued rep))"
  shows "inv_stop s'"
proof -
  have old: "is_not_running (svc s') \<and> n' + queued_total s' \<le> unat q"
    if pc: "threads s i = Some pc" "tally s' pc = Some (q, n')" for i pc q n'
  proof -
    have "\<exists>m. tally s pc = Some (q, m)" using pc(2) by (cases pc) auto
    then have nr: "is_not_running (svc s)" using inv_stopD(2) [OF inv(1) pc(1)] by blast
    with le have "queued_total s' \<le> queued_total s" by simp
    with dn [OF nr pc(1)] obtain n where n: "tally s pc = Some (q, n)"
      "n' + queued_total s' \<le> n + queued_total s"
      by (rule tally_stays [OF pc inv(2)]) blast+
    from inv_stopD(3) [OF inv(1) pc(1) n(1)] n(2) closed [OF nr] show ?thesis by simp
  qed
  show ?thesis
    unfolding inv_stop_def
  proof (intro conjI allI impI)
    fix i pc' q n assume "threads s' i = Some pc'" "tally s' pc' = Some (q, n)"
    then show "is_not_running (svc s')" and "n + queued_total s' \<le> unat q"
      using thr old by metis+
  next
    fix i pc' rep assume "threads s' i = Some pc'" "report_of pc' = Some rep"
    then show "report_cancelled rep \<le> report_queued rep"
      using thr inv_stopD(4) [OF inv(1)] by metis
  qed (rule hold)
qed

lemma inv_stop_one_task:
  assumes one: "one_task s s'" and inv: "inv_stop s" "inv_refs s" "inv_tasks s"
    and closed: "is_not_running (svc s) \<Longrightarrow> is_not_running (svc s')"
    and thr: "\<And>i pc'. threads s' i = Some pc' \<Longrightarrow>
      (\<exists>pc. threads s i = Some pc \<and> tally s' pc' = tally s' pc \<and> report_of pc' = report_of pc) \<or>
      ((\<forall>q n. tally s' pc' = Some (q, n) \<longrightarrow> is_not_running (svc s') \<and> n + queued_total s' \<le> unat q) \<and>
       (\<forall>rep. report_of pc' = Some rep \<longrightarrow> report_cancelled rep \<le> report_queued rep))"
  shows "inv_stop s'"
proof (rule inv_stop_cong [OF inv(1,2) _ closed])
  note tot = one_task_totals [OF one inv(3)]
  show "queued_total s' \<le> queued_total s \<or> \<not> is_not_running (svc s)" using tot(1) by simp
  show "queued_total s' \<le> unat q" if "holder s' = StopUnlock q r" for q r
    using that one inv_stopD(1) [OF inv(1), of q r] tot(1) by (simp add: one_task_def)
  show "done_at s' j + queued_total s' \<le> done_at s j + queued_total s"
    if "tasks s j = Some u" "winner u \<noteq> None" for j u using tot(3) [OF that] .
qed (use thr in blast)+

lemma fin_step_threads:
  assumes "fin_step dbg f s f' s'" and "threads s' i = Some pc'"
  shows "\<exists>pc. threads s i = Some pc \<and> tally x pc' = tally x pc \<and> report_of pc' = report_of pc"
  using assms by (cases rule: fin_step.cases) auto

lemma inv_stop_task:
  assumes step: "task_step dbg s s'" and inv: "inv_stop s" "inv_refs s" "inv_tasks s"
  shows "inv_stop s'"
proof (rule inv_stop_one_task [OF one_task_task [OF step inv(3)] inv])
  show "is_not_running (svc s')" if "is_not_running (svc s)"
    using closed_stays [OF cstep.by_task [OF step] that] .
  show "(\<exists>pc. threads s i = Some pc \<and> tally s' pc' = tally s' pc \<and> report_of pc' = report_of pc) \<or>
      ((\<forall>q n. tally s' pc' = Some (q, n) \<longrightarrow> is_not_running (svc s') \<and> n + queued_total s' \<le> unat q) \<and>
       (\<forall>rep. report_of pc' = Some rep \<longrightarrow> report_cancelled rep \<le> report_queued rep))"
    if "threads s' i = Some pc'" for i pc'
    using step that by (elim task_stepE) (auto dest: fin_step_threads)
qed

lemma inv_stop_canceller:
  assumes step: "canceller_step s s'" and inv: "inv_stop s" "inv_refs s" "inv_tasks s"
  shows "inv_stop s'"
proof (rule inv_stop_one_task [OF one_task_canceller [OF step inv(3)] inv])
  show "is_not_running (svc s')" if "is_not_running (svc s)"
    using closed_stays [OF cstep.by_canceller [OF step] that] .
  show "(\<exists>pc. threads s i = Some pc \<and> tally s' pc' = tally s' pc \<and> report_of pc' = report_of pc) \<or>
      ((\<forall>q n. tally s' pc' = Some (q, n) \<longrightarrow> is_not_running (svc s') \<and> n + queued_total s' \<le> unat q) \<and>
       (\<forall>rep. report_of pc' = Some rep \<longrightarrow> report_cancelled rep \<le> report_queued rep))"
    if "threads s' i = Some pc'" for i pc'
    using step that by (elim canceller_stepE) (auto split: if_splits)
qed

lemma add_assign_Some:
  assumes "add_assign dbg n 1 = Some m" and "unat n + 1 < 2 ^ 64"
  shows "unat m = unat n + 1"
proof -
  have "m = n + 1" using assms(1) by (simp add: add_assign_def split: if_splits)
  then show ?thesis using unat_usize_add [of n 1] assms(2) by simp
qed

lemma inv_stop_closer:
  assumes step: "closer_step dbg s s'" and inv: "inv_stop s" "inv_refs s" "inv_tasks s"
  shows "inv_stop s'"
proof (rule inv_stop_one_task [OF one_task_closer [OF step inv(3)] inv])
  show "is_not_running (svc s')" if "is_not_running (svc s)"
    using closed_stays [OF cstep.by_closer [OF step] that] .
  fix j pc' assume thr: "threads s' j = Some pc'"
  show "(\<exists>pc. threads s j = Some pc \<and> tally s' pc' = tally s' pc \<and> report_of pc' = report_of pc) \<or>
      ((\<forall>q n. tally s' pc' = Some (q, n) \<longrightarrow> is_not_running (svc s') \<and> n + queued_total s' \<le> unat q) \<and>
       (\<forall>rep. report_of pc' = Some rep \<longrightarrow> report_cancelled rep \<le> report_queued rep))"
    using step
  proof (cases rule: closer_step.cases)
    case (stop_hook_won i q r k ks n t old v)
    then have "done_at s' k = 0" by (simp add: done_at_def winner_done_def)
    with stop_hook_won thr show ?thesis by (cases "i = j") auto
  next
    case (stop_hook_waited i q r k ks n t m)
    then have d: "done_at s' k = 1" "done_at s k = 1" by (simp_all add: done_at_def winner_done_def)
    then have "tally s (StopHookWait q r k ks n) = Some (q, unat n + 1)" by simp
    from inv_stopD(3) [OF inv(1) stop_hook_waited(2) this]
    have "unat n + 1 < 2 ^ 64" using unat_usize_less [of q] by linarith
    from add_assign_Some [OF stop_hook_waited(5) this]
    have "tally s' (StopLoop q r ks m) = tally s' (StopHookWait q r k ks n)" using d by simp
    with stop_hook_waited thr show ?thesis by (cases "i = j") auto
  next
    case (stop_loop_end i q r n)
    have "tally s (StopLoop q r [] n) = Some (q, unat n)" by simp
    from inv_stopD(3) [OF inv(1) stop_loop_end(2) this] have "n \<le> q" by (simp add: word_le_nat_alt)
    with stop_loop_end thr show ?thesis by (cases "i = j") (auto simp: close_report_def)
  qed (use thr in \<open>auto split: if_splits\<close>)
qed

lemma inv_stop_waiter:
  assumes step: "waiter_step s s'" and inv: "inv_stop s" "inv_refs s" "inv_tasks s"
  shows "inv_stop s'"
proof (rule inv_stop_one_task [OF one_task_waiter [OF step] inv])
  show "is_not_running (svc s')" if "is_not_running (svc s)"
    using closed_stays [OF cstep.by_waiter [OF step] that] .
  show "(\<exists>pc. threads s i = Some pc \<and> tally s' pc' = tally s' pc \<and> report_of pc' = report_of pc) \<or>
      ((\<forall>q n. tally s' pc' = Some (q, n) \<longrightarrow> is_not_running (svc s') \<and> n + queued_total s' \<le> unat q) \<and>
       (\<forall>rep. report_of pc' = Some rep \<longrightarrow> report_cancelled rep \<le> report_queued rep))"
    if "threads s' i = Some pc'" for i pc'
    using step that by (elim waiter_stepE) (auto split: if_splits)
qed

lemma inv_stop_holder:
  assumes step: "holder_step dbg s s'"
    and inv: "inv_stop s" "inv_refs s" "inv_tasks s" "inv_lock s" "inv_counts s"
  shows "inv_stop s'"
proof (rule inv_stop_cong [OF inv(1,2)])
  have same: "tasks s' = tasks s" "queued_total s' = queued_total s" if "is_not_running (svc s)"
    using closed_holder_tasks [OF step inv(4) that] by (simp_all add: queued_total_def)
  then show "queued_total s' \<le> queued_total s \<or> \<not> is_not_running (svc s)" by auto
  show "is_not_running (svc s')" if "is_not_running (svc s)"
    using closed_stays [OF cstep.by_holder [OF step] that] .
  show "done_at s' j + queued_total s' \<le> done_at s j + queued_total s"
    if "is_not_running (svc s)" for j
    using same [OF that] by (simp add: done_at_def)
  have snap: "unat q = queued_total s" if "task_count_snapshot (svc s) = (q, r)" for q r
    using that inv(5) by (simp add: task_count_snapshot_def inv_counts_def counts_are_def)
  show "queued_total s' \<le> unat q" if "holder s' = StopUnlock q r" for q r
    using step that by (elim holder_stepE) (auto simp: snap queued_total_def)
  show "(\<exists>pc. threads s i = Some pc \<and> tally s' pc' = tally s' pc \<and> report_of pc' = report_of pc) \<or>
      ((\<forall>q n. tally s' pc' = Some (q, n) \<longrightarrow> is_not_running (svc s') \<and> n + queued_total s' \<le> unat q) \<and>
       (\<forall>rep. report_of pc' = Some rep \<longrightarrow> report_cancelled rep \<le> report_queued rep))"
    if thr: "threads s' i = Some pc'" for i pc'
    using step
  proof (cases rule: holder_step.cases)
    case (stop_unlock q r j)
    then have "queued_total s' \<le> unat q" "is_not_running (svc s')"
      using inv_stopD(1) [OF inv(1) stop_unlock(2)] inv(4)
      by (auto simp: queued_total_def inv_lock_def)
    with stop_unlock thr show ?thesis by (cases "i = j") auto
  qed (use thr in \<open>auto split: if_splits\<close>)
qed

lemma inv_stop_reclaim:
  assumes step: "reclaim_step s s'" and inv: "inv_stop s" "inv_refs s" "inv_tasks s"
  shows "inv_stop s'"
proof (rule inv_stop_cong [OF inv(1,2)])
  note tot = reclaim_totals [OF step inv(3)]
  show "queued_total s' \<le> queued_total s \<or> \<not> is_not_running (svc s)" using tot by simp
  show "is_not_running (svc s) \<Longrightarrow> is_not_running (svc s')" using tot by simp
  show "queued_total s' \<le> unat q" if "holder s' = StopUnlock q r" for q r
    using that tot inv_stopD(1) [OF inv(1), of q r] by simp
  show "done_at s' j + queued_total s' \<le> done_at s j + queued_total s" for j
    using step tot(1) by (cases rule: reclaim_step.cases) (auto simp: done_at_def intro!: add_mono)
  show "(\<exists>pc. threads s i = Some pc \<and> tally s' pc' = tally s' pc \<and> report_of pc' = report_of pc) \<or>
      ((\<forall>q n. tally s' pc' = Some (q, n) \<longrightarrow> is_not_running (svc s') \<and> n + queued_total s' \<le> unat q) \<and>
       (\<forall>rep. report_of pc' = Some rep \<longrightarrow> report_cancelled rep \<le> report_queued rep))"
    if "threads s' i = Some pc'" for i pc'
    using step that by (cases rule: reclaim_step.cases) (auto split: if_splits)
qed

lemma inv_stop_step:
  "cstep dbg s s' \<Longrightarrow> inv_stop s \<Longrightarrow> inv_refs s \<Longrightarrow> inv_tasks s \<Longrightarrow> inv_lock s \<Longrightarrow> inv_counts s \<Longrightarrow> inv_stop s'"
  by (elim cstepE) (blast intro: inv_stop_task inv_stop_holder inv_stop_canceller
      inv_stop_closer inv_stop_waiter inv_stop_reclaim)+

end
