(* ===== verification/Interleaving_Waiters.thy ===== *)
theory Interleaving_Waiters
  imports Interleaving_Handles
begin

text \<open>
  No wake-up is lost. Whenever the service is terminated and a thread is parked in one of
  the two termination waits, some thread is still on its way to the notification that wakes
  it; and a producer that was refused for saturation is on the channel whenever capacity or
  the lifecycle changes. The lemmas say, one by one, what a step can do to the pending
  notifications (\<open>pend_check\<close>, \<open>pend_mon\<close>, \<open>pend_not\<close>) and to the waiters.
\<close>

section \<open>Who will still notify\<close>

definition has_fin :: "(fin_pc \<Rightarrow> bool) \<Rightarrow> csys \<Rightarrow> bool" where
  "has_fin P s \<longleftrightarrow> (\<exists>k t f. tasks s k = Some t \<and> (owner t = Finishing f \<or> winner t = Some f) \<and> P f)"

definition has_thread :: "(thread_pc \<Rightarrow> bool) \<Rightarrow> csys \<Rightarrow> bool" where
  "has_thread P s \<longleftrightarrow> (\<exists>i pc. threads s i = Some pc \<and> P pc)"

fun will_signal_monitor :: "fin_pc \<Rightarrow> bool" where
  "will_signal_monitor (FinCapacity terminated) = terminated"
| "will_signal_monitor FinMonitor = True"
| "will_signal_monitor f = False"

fun will_signal_notify :: "fin_pc \<Rightarrow> bool" where
  "will_signal_notify (FinCapacity terminated) = terminated"
| "will_signal_notify FinMonitor = True"
| "will_signal_notify FinNotify = True"
| "will_signal_notify f = False"

fun before_capacity :: "thread_pc \<Rightarrow> bool" where
  "before_capacity (StopTake q r) = True"
| "before_capacity (StopLoop q r ks n) = True"
| "before_capacity (StopHook q r k ks n) = True"
| "before_capacity (StopHookWait q r k ks n) = True"
| "before_capacity (CloseCapacity rep) = True"
| "before_capacity pc = False"

definition before_check :: "thread_pc \<Rightarrow> bool" where
  "before_check pc \<longleftrightarrow> before_capacity pc \<or> (\<exists>rep. pc = CloseCheck rep)"

definition at_monitor :: "thread_pc \<Rightarrow> bool" where
  "at_monitor pc \<longleftrightarrow> (\<exists>rep. pc = CloseMonitor rep)"

definition at_notify :: "thread_pc \<Rightarrow> bool" where
  "at_notify pc \<longleftrightarrow> (\<exists>rep. pc = CloseMonitor rep \<or> pc = CloseNotify rep)"

definition pend_check :: "csys \<Rightarrow> bool" where
  "pend_check s \<longleftrightarrow> closing_holder (holder s) \<or> has_thread before_check s"

definition pend_mon :: "csys \<Rightarrow> bool" where
  "pend_mon s \<longleftrightarrow> has_fin will_signal_monitor s \<or> has_thread at_monitor s"

definition pend_not :: "csys \<Rightarrow> bool" where
  "pend_not s \<longleftrightarrow> has_fin will_signal_notify s \<or> has_thread at_notify s"

lemmas kind_defs = before_check_def at_monitor_def at_notify_def

lemma kinds_wake [simp]:
  "before_capacity (wake_producer pc) = before_capacity pc"
  "before_capacity (wake_monitor pc) = before_capacity pc"
  "before_capacity (wake_notified pc) = before_capacity pc"
  "before_check (wake_producer pc) = before_check pc" "before_check (wake_monitor pc) = before_check pc"
  "before_check (wake_notified pc) = before_check pc"
  "at_monitor (wake_producer pc) = at_monitor pc" "at_monitor (wake_monitor pc) = at_monitor pc"
  "at_monitor (wake_notified pc) = at_monitor pc"
  "at_notify (wake_producer pc) = at_notify pc" "at_notify (wake_monitor pc) = at_notify pc"
  "at_notify (wake_notified pc) = at_notify pc"
  by (cases pc; simp add: kind_defs)+

lemma has_thread_cong:
  assumes "has_thread P s" and "\<And>i pc. threads s i = Some pc \<Longrightarrow> P pc \<Longrightarrow> \<exists>pc'. threads s' i = Some pc' \<and> P pc'"
  shows "has_thread P s'"
  using assms unfolding has_thread_def by blast

lemma has_frame [simp]:
  "has_fin P (s\<lparr>threads := x\<rparr>) = has_fin P s" "has_fin P (s\<lparr>svc := v\<rparr>) = has_fin P s"
  "has_fin P (s\<lparr>holder := h\<rparr>) = has_fin P s" "has_fin P (s\<lparr>monitor := m\<rparr>) = has_fin P s"
  "has_fin P (signal_capacity s) = has_fin P s" "has_fin P (signal_monitor s) = has_fin P s"
  "has_fin P (signal_notify s) = has_fin P s"
  "has_thread Q (s\<lparr>tasks := y\<rparr>) = has_thread Q s" "has_thread Q (s\<lparr>svc := v\<rparr>) = has_thread Q s"
  "has_thread Q (s\<lparr>holder := h\<rparr>) = has_thread Q s" "has_thread Q (s\<lparr>monitor := m\<rparr>) = has_thread Q s"
  by (simp_all add: has_fin_def has_thread_def)

lemma has_fin_put:
  assumes "has_fin P s" and "tasks s k = Some t"
    and "\<And>f. P f \<Longrightarrow> owner t = Finishing f \<Longrightarrow> owner t' = Finishing f"
    and "\<And>f. P f \<Longrightarrow> winner t = Some f \<Longrightarrow> winner t' = Some f"
  shows "has_fin P (s1\<lparr>tasks := (tasks s)(k \<mapsto> t')\<rparr>)"
proof -
  obtain j u f where "tasks s j = Some u" "owner u = Finishing f \<or> winner u = Some f" "P f"
    using assms(1) by (auto simp: has_fin_def)
  then show ?thesis
    using assms(2-4) unfolding has_fin_def by (cases "j = k") (auto intro!: exI [of _ j])
qed

lemma has_fin_same: "tasks s' = tasks s \<Longrightarrow> has_fin P s \<Longrightarrow> has_fin P s'"
  by (simp add: has_fin_def)

lemma has_fin_here:
  "tasks s k = Some t \<Longrightarrow> owner t = Finishing f \<or> winner t = Some f \<Longrightarrow> P f \<Longrightarrow> has_fin P s"
  by (auto simp: has_fin_def)

section \<open>The monitor\<close>

fun inside :: "thread_pc option \<Rightarrow> bool" where
  "inside (Some WaitEval) = True"
| "inside (Some (WaitEmpty l)) = True"
| "inside p = False"

definition inv_monitor :: "csys \<Rightarrow> bool" where
  "inv_monitor s \<longleftrightarrow> (\<forall>i. monitor s = Some i \<longleftrightarrow> inside (threads s i))"

lemma inside_wake [simp]:
  "inside (map_option wake_producer p) = inside p" "inside (map_option wake_monitor p) = inside p"
  "inside (map_option wake_notified p) = inside p"
  by (cases p rule: inside.cases; simp)+

lemma inside_some_wake [simp]:
  "inside (Some (wake_producer pc)) = inside (Some pc)" "inside (Some (wake_monitor pc)) = inside (Some pc)"
  "inside (Some (wake_notified pc)) = inside (Some pc)"
  by (cases pc; simp)+

lemma inv_monitor_cong:
  assumes "inv_monitor s" and "monitor s' = monitor s" and "\<And>i. inside (threads s' i) = inside (threads s i)"
  shows "inv_monitor s'"
  using assms by (simp add: inv_monitor_def)

lemma fin_step_inside: "fin_step dbg f s f' s' \<Longrightarrow> inside (threads s' i) = inside (threads s i)"
  by (erule fin_step.cases) auto

lemma inv_monitor_task: "task_step dbg s s' \<Longrightarrow> inv_monitor s \<Longrightarrow> inv_monitor s'"
  by (elim task_stepE) (auto simp: fin_step_inside fin_step_frame intro: inv_monitor_cong)

lemma inv_monitor_holder: "holder_step dbg s s' \<Longrightarrow> inv_monitor s \<Longrightarrow> inv_monitor s'"
  by (elim holder_stepE) (auto elim!: inv_monitor_cong split: if_splits)

lemma inv_monitor_canceller: "canceller_step s s' \<Longrightarrow> inv_monitor s \<Longrightarrow> inv_monitor s'"
  by (elim canceller_stepE) (auto elim!: inv_monitor_cong split: if_splits)

lemma inv_monitor_closer: "closer_step dbg s s' \<Longrightarrow> inv_monitor s \<Longrightarrow> inv_monitor s'"
  by (elim closer_stepE) (auto elim!: inv_monitor_cong split: if_splits)

lemma inv_monitor_move:
  assumes "inv_monitor s" and "threads s i = p" and "inside p \<or> monitor s = None"
    and "m = (if inside (Some pc') then Some i else None)"
  shows "inv_monitor (s\<lparr>monitor := m, threads := (threads s)(i \<mapsto> pc')\<rparr>)"
proof -
  have "monitor s = None \<or> monitor s = Some i" using assms(1-3) by (auto simp: inv_monitor_def)
  then have "\<not> inside (threads s j)" if "j \<noteq> i" for j
    using assms(1) that unfolding inv_monitor_def by (metis option.distinct(1) option.inject)
  then show ?thesis using assms(4) by (auto simp: inv_monitor_def)
qed

lemma inv_monitor_waiter: "waiter_step s s' \<Longrightarrow> inv_monitor s \<Longrightarrow> inv_monitor s'"
  by (elim waiter_stepE)
    ((simp, rule inv_monitor_move, assumption, assumption, simp, simp; fail) |
     (erule inv_monitor_cong; auto split: if_splits; fail))+

lemma inv_monitor_reclaim: "reclaim_step s s' \<Longrightarrow> inv_monitor s \<Longrightarrow> inv_monitor s'"
  by (elim reclaim_stepE) (auto elim!: inv_monitor_cong split: if_splits)

lemma inv_monitor_step: "cstep dbg s s' \<Longrightarrow> inv_monitor s \<Longrightarrow> inv_monitor s'"
  by (elim cstepE) (blast intro: inv_monitor_task inv_monitor_holder inv_monitor_canceller
      inv_monitor_closer inv_monitor_waiter inv_monitor_reclaim)+

section \<open>Termination is stable\<close>

lemma terminated_iff:
  assumes "inv_counts s"
  shows "is_terminated_state (svc s) \<longleftrightarrow>
    is_not_running (svc s) \<and> queued_total s + running_total s = 0"
  using assms is_empty_counts_are unfolding inv_counts_def is_terminated_state_def
  by (metis add_is_0)

lemma terminated_stable:
  assumes "cstep dbg s s'" and "inv_tasks s" and "inv_lock s" and "inv_counts s" and "inv_counts s'"
    and "is_terminated_state (svc s)"
  shows "is_terminated_state (svc s')"
  using closed_totals(2) [OF assms(1-3)] closed_stays [OF assms(1)] assms(4-6)
  by (simp add: terminated_iff)

text \<open>Termination begins with a store to the lifecycle or with a counted task.\<close>

lemma fin_step_terminates:
  assumes "fin_step dbg f s f' s'" and "is_terminated_state (svc s')" and "\<not> is_terminated_state (svc s)"
  shows "f' = FinCapacity True"
  using assms by (cases rule: fin_step.cases)
    (auto simp: is_terminated_state_def elim!: finish_task_section_frame)

lemma task_step_terminates:
  assumes step: "task_step dbg s s'" and inv: "inv_tasks s" "inv_counts s" "inv_counts s'"
    and now: "is_terminated_state (svc s')" "\<not> is_terminated_state (svc s)"
  shows "has_fin (\<lambda>f. f = FinCapacity True) s'"
  using step
proof (cases rule: task_step.cases)
  case (start_count k t v)
  have t': "tasks s' k = Some (t\<lparr>owner := RunningTask\<rparr>)" using start_count(1) by simp
  have "task_state (tracker t) = TASK_STATE_RUNNING"
    using task_okD(2) [OF inv_tasksD(2) [OF inv(1) start_count(2)]] start_count(3) by simp
  then have "running_part (t\<lparr>owner := RunningTask\<rparr>) \<noteq> 0" by (simp add: running_part_def)
  moreover have "inv_tasks s'" using inv_tasks_task [OF step inv(1)] .
  ultimately have "running_total s' \<noteq> 0" using parts_le_totals(2) [OF _ t'] by fastforce
  with now(1) inv(3) show ?thesis by (simp add: terminated_iff)
next
  case (owner_finish k t f f' s1)
  then have "f' = FinCapacity True" using fin_step_terminates now by simp
  with owner_finish show ?thesis by (auto simp: has_fin_def)
next
  case (winner_finish k t f f' s1)
  then have "f' = FinCapacity True" using fin_step_terminates now by simp
  with winner_finish show ?thesis by (auto simp: has_fin_def)
qed (use now in \<open>simp_all add: is_terminated_state_def\<close>)

lemma holder_step_closes:
  assumes "holder_step dbg s s'" and "is_not_running (svc s')" and "\<not> is_not_running (svc s)"
  shows "closing_holder (holder s')"
  using assms by (elim holder_stepE) (auto elim: try_accept_task_cases)

lemma holder_step_terminates:
  assumes step: "holder_step dbg s s'" and inv: "inv_lock s"
    and now: "is_terminated_state (svc s')" "\<not> is_terminated_state (svc s)"
  shows "closing_holder (holder s')"
proof (cases "is_not_running (svc s)")
  case False
  with holder_step_closes [OF step] now(1) show ?thesis by (simp add: is_terminated_state_def)
next
  case True
  with step inv have "task_counts (svc s') = task_counts (svc s)"
    by (elim holder_stepE) (auto simp: inv_lock_def)
  with True now show ?thesis by (simp add: is_terminated_state_def)
qed

lemma other_steps_keep_svc:
  "canceller_step s s' \<Longrightarrow> is_terminated_state (svc s') = is_terminated_state (svc s)"
  "closer_step dbg s s' \<Longrightarrow> is_terminated_state (svc s') = is_terminated_state (svc s)"
  "waiter_step s s' \<Longrightarrow> is_terminated_state (svc s') = is_terminated_state (svc s)"
  "reclaim_step s s' \<Longrightarrow> is_terminated_state (svc s') = is_terminated_state (svc s)"
  "canceller_step s s' \<Longrightarrow> is_not_running (svc s') = is_not_running (svc s)"
  "closer_step dbg s s' \<Longrightarrow> is_not_running (svc s') = is_not_running (svc s)"
  "waiter_step s s' \<Longrightarrow> svc s' = svc s"
  "reclaim_step s s' \<Longrightarrow> svc s' = svc s"
  by (erule canceller_step.cases closer_step.cases waiter_step.cases reclaim_step.cases;
      simp add: is_terminated_state_def)+

lemma task_step_keeps_lifecycle: "task_step dbg s s' \<Longrightarrow> is_not_running (svc s') = is_not_running (svc s)"
  by (elim task_stepE) (auto simp: fin_step_frame elim: mark_task_started_cases)

section \<open>Pending notifications are not dropped\<close>

lemma has_thread_move:
  assumes "has_thread P s" and "threads s' = (threads s)(i \<mapsto> pc')"
    and "\<And>pc. threads s i = Some pc \<Longrightarrow> P pc \<Longrightarrow> P pc'"
  shows "has_thread P s'"
  using assms by (intro has_thread_cong [OF assms(1)]) auto

lemma has_thread_here: "threads s i = Some pc \<Longrightarrow> P pc \<Longrightarrow> has_thread P s"
  by (auto simp: has_thread_def)

text \<open>A predicate on program counters that no wake-up can see.\<close>

definition wake_blind :: "(thread_pc \<Rightarrow> bool) \<Rightarrow> bool" where
  "wake_blind P \<longleftrightarrow> (\<forall>pc. P (wake_producer pc) = P pc \<and> P (wake_monitor pc) = P pc \<and>
     P (wake_notified pc) = P pc)"

lemma wake_blindD [simp]:
  assumes "wake_blind P"
  shows "P (wake_producer pc) = P pc" "P (wake_monitor pc) = P pc" "P (wake_notified pc) = P pc"
  using assms by (simp_all add: wake_blind_def)

lemma kinds_blind [simp]:
  "wake_blind before_capacity" "wake_blind before_check" "wake_blind at_monitor" "wake_blind at_notify"
  by (simp_all add: wake_blind_def)

lemma has_thread_signal:
  assumes "has_thread P s" and "wake_blind P"
  shows "has_thread P (signal_capacity s)" "has_thread P (signal_monitor s)" "has_thread P (signal_notify s)"
  by (rule has_thread_cong [OF assms(1)]; simp add: assms(2))+

lemma has_thread_same: "has_thread P s \<Longrightarrow> threads s' = threads s \<Longrightarrow> has_thread P s'"
  by (simp add: has_thread_def)

lemma task_step_threads:
  assumes "task_step dbg s s'" and "has_thread P s" and "wake_blind P"
  shows "has_thread P s'"
proof -
  have fin: "has_thread P s1" if "fin_step dbg f s f' s1" for f f' s1
    using that
    by (cases rule: fin_step.cases) (use assms(2,3) in \<open>simp_all add: has_thread_signal has_thread_same\<close>)
  show ?thesis
    using assms(1)
    by (elim task_stepE) (use assms(2) fin in \<open>auto intro: has_thread_same\<close>)
qed

lemma task_step_fin:
  assumes step: "task_step dbg s s'" and inv: "inv_tasks s" and fin: "has_fin P s"
  shows "has_fin P s' \<or> (\<exists>f f' s1. fin_step dbg f s f' s1 \<and> P f \<and> \<not> P f' \<and> threads s' = threads s1)"
  using step
proof (cases rule: task_step.cases)
  case (owner_finish k t f f' s1)
  show ?thesis
  proof (cases "P f \<and> \<not> P f'")
    case True
    with owner_finish show ?thesis by auto
  next
    case False
    show ?thesis
    proof (cases "P f'")
      case True
      then show ?thesis using owner_finish by (auto simp: has_fin_def)
    next
      case nf: False
      have "s' = s1\<lparr>tasks := (tasks s)(k \<mapsto> t\<lparr>owner := Finishing f'\<rparr>)\<rparr>"
        using owner_finish(1) by (simp add: fin_step_frame [OF owner_finish(4)])
      with has_fin_put [OF fin owner_finish(2), of "t\<lparr>owner := Finishing f'\<rparr>" s1] owner_finish(3) False nf
      show ?thesis by auto
    qed
  qed
next
  case (winner_finish k t f f' s1)
  show ?thesis
  proof (cases "P f \<and> \<not> P f'")
    case True
    with winner_finish show ?thesis by auto
  next
    case False
    show ?thesis
    proof (cases "P f'")
      case True
      then show ?thesis using winner_finish by (auto simp: has_fin_def)
    next
      case nf: False
      have "s' = s1\<lparr>tasks := (tasks s)(k \<mapsto> t\<lparr>winner := Some f'\<rparr>)\<rparr>"
        using winner_finish(1) by (simp add: fin_step_frame [OF winner_finish(4)])
      with has_fin_put [OF fin winner_finish(2), of "t\<lparr>winner := Some f'\<rparr>" s1] winner_finish(3) False nf
      show ?thesis by auto
    qed
  qed
qed (use fin in \<open>auto intro!: has_fin_put\<close>)

lemma holder_step_fin:
  assumes "holder_step dbg s s'" and "inv_tasks s" and "has_fin P s"
  shows "has_fin P s'"
proof -
  obtain j u f where j: "tasks s j = Some u" "owner u = Finishing f \<or> winner u = Some f" "P f"
    using assms(3) by (auto simp: has_fin_def)
  from assms(1) show ?thesis
  proof (cases rule: holder_step.cases)
    case (submit_create k)
    with j have "tasks s' j = Some u" by auto
    with j show ?thesis by (auto simp: has_fin_def)
  next
    case (submit_unlock k t)
    have "owner t = Admitted" using inv_tasksD(3) [OF assms(2) submit_unlock(3)] submit_unlock(2) by simp
    with submit_unlock(1) show ?thesis by (auto intro!: has_fin_put [OF assms(3) submit_unlock(3)])
  qed (use j in \<open>auto simp: has_fin_def\<close>)
qed

lemma canceller_step_fin: "canceller_step s s' \<Longrightarrow> inv_tasks s \<Longrightarrow> has_fin P s \<Longrightarrow> has_fin P s'"
  by (elim canceller_stepE)
    ((simp; fail) |
     (drule inv_tasksD(2), assumption, simp, rule has_fin_put, assumption, assumption,
      simp, force simp: task_ok_def))+

lemma closer_step_fin: "closer_step dbg s s' \<Longrightarrow> inv_tasks s \<Longrightarrow> has_fin P s \<Longrightarrow> has_fin P s'"
  by (elim closer_stepE)
    ((simp; fail) |
     (drule inv_tasksD(2), assumption, simp, rule has_fin_put, assumption, assumption,
      simp, force simp: task_ok_def))+

lemma waiter_step_fin: "waiter_step s s' \<Longrightarrow> has_fin P s \<Longrightarrow> has_fin P s'"
  by (elim waiter_stepE) (auto simp: has_fin_def)

lemma reclaim_step_fin:
  assumes "reclaim_step s s'" and "has_fin P s" and "\<not> P FinDone"
  shows "has_fin P s'"
  using assms(1)
proof (cases rule: reclaim_step.cases)
  case (reclaim k t)
  obtain j u f where j: "tasks s j = Some u" "owner u = Finishing f \<or> winner u = Some f" "P f"
    using assms(2) by (auto simp: has_fin_def)
  have "j \<noteq> k" using j reclaim assms(3) by auto
  with j reclaim(1) show ?thesis by (auto simp: has_fin_def)
qed (use assms(2) in \<open>auto simp: has_fin_def\<close>)

text \<open>Only a closer's own steps move a closer.\<close>

definition closing_pc :: "thread_pc \<Rightarrow> bool" where
  "closing_pc pc \<longleftrightarrow> before_check pc \<or> at_notify pc"

lemma closing_pc_simps [simp]:
  "\<not> closing_pc (CancelMark k)" "\<not> closing_pc (CancelRemove k)" "\<not> closing_pc (CancelCas k)"
  "\<not> closing_pc (CancelWait k)" "\<not> closing_pc (CancelAbort k)" "\<not> closing_pc CancelReturned"
  "\<not> closing_pc (Closed rep)" "\<not> closing_pc WaitLock" "\<not> closing_pc WaitEval"
  "\<not> closing_pc (WaitEmpty l)" "\<not> closing_pc WaitParked" "\<not> closing_pc WaitReturned"
  "\<not> closing_pc (AwaitEnable n)" "\<not> closing_pc (AwaitLoad n)" "\<not> closing_pc (AwaitEmpty n l)"
  "\<not> closing_pc (AwaitParked n)" "\<not> closing_pc AwaitReturned" "\<not> closing_pc (ProduceTry n)"
  "\<not> closing_pc (ProduceWait n)"
  by (simp_all add: closing_pc_def kind_defs)

lemma closer_unmoved_holder:
  "holder_step dbg s s' \<Longrightarrow> threads s i = Some pc \<Longrightarrow> closing_pc pc \<Longrightarrow> threads s' i = Some pc"
  by (elim holder_stepE) auto

lemma closer_unmoved_canceller:
  "canceller_step s s' \<Longrightarrow> threads s i = Some pc \<Longrightarrow> closing_pc pc \<Longrightarrow> threads s' i = Some pc"
  by (elim canceller_stepE) auto

lemma closer_unmoved_waiter:
  "waiter_step s s' \<Longrightarrow> threads s i = Some pc \<Longrightarrow> closing_pc pc \<Longrightarrow> threads s' i = Some pc"
  by (elim waiter_stepE) auto

lemma closer_unmoved_reclaim:
  "reclaim_step s s' \<Longrightarrow> threads s i = Some pc \<Longrightarrow> closing_pc pc \<Longrightarrow> threads s' i = Some pc"
  by (elim reclaim_stepE) auto

lemmas closer_unmoved = closer_unmoved_holder closer_unmoved_canceller closer_unmoved_waiter
  closer_unmoved_reclaim

lemma closers_stay:
  assumes "has_thread P s" and "\<And>pc. P pc \<Longrightarrow> closing_pc pc"
    and "holder_step dbg s s' \<or> canceller_step s s' \<or> waiter_step s s' \<or> reclaim_step s s'"
  shows "has_thread P s'"
  using assms closer_unmoved by (intro has_thread_cong [OF assms(1)]) meson

lemma kinds_closing: "before_check pc \<Longrightarrow> closing_pc pc" "at_notify pc \<Longrightarrow> closing_pc pc"
  "at_monitor pc \<Longrightarrow> closing_pc pc" "before_capacity pc \<Longrightarrow> closing_pc pc"
  by (auto simp: closing_pc_def kind_defs)

lemma task_step_holder: "task_step dbg s s' \<Longrightarrow> holder s' = holder s"
  by (elim task_stepE) (simp_all add: fin_step_frame)

lemma others_keep_holder:
  "canceller_step s s' \<Longrightarrow> holder s' = holder s" "closer_step dbg s s' \<Longrightarrow> holder s' = holder s"
  "waiter_step s s' \<Longrightarrow> holder s' = holder s" "reclaim_step s s' \<Longrightarrow> holder s' = holder s"
  by (erule canceller_step.cases closer_step.cases waiter_step.cases reclaim_step.cases; simp)+

lemma closing_holder_moves:
  "holder_step dbg s s' \<Longrightarrow> inv_lock s \<Longrightarrow> closing_holder (holder s) \<Longrightarrow>
   closing_holder (holder s') \<or> has_thread before_capacity s'"
  by (elim holder_stepE) (auto simp: inv_lock_def intro: has_thread_here)

lemma closer_step_check:
  assumes "closer_step dbg s s'" and "has_thread before_check s"
  shows "has_thread before_check s' \<or> monitor s = None \<and> (is_terminated_state (svc s) \<longrightarrow> pend_mon s')"
  using assms(1)
proof (cases rule: closer_step.cases)
  case (close_check i rep)
  then show ?thesis by (auto simp: pend_mon_def at_monitor_def has_thread_def)
next
  case (close_monitor i rep)
  then show ?thesis using assms(2)
    by (auto intro!: has_thread_move [OF has_thread_signal(2) [OF assms(2)]] simp: kind_defs)
next
  case (close_notify i rep)
  then show ?thesis using assms(2)
    by (auto intro!: has_thread_move [OF has_thread_signal(3) [OF assms(2)]] simp: kind_defs)
next
  case (close_capacity i rep)
  then show ?thesis by (auto simp: kind_defs intro: has_thread_here)
qed (use assms(2) in \<open>auto simp: kind_defs intro: has_thread_here\<close>)

lemma pend_check_step:
  assumes "cstep dbg s s'" and "inv_lock s" and "pend_check s"
  shows "pend_check s' \<or> monitor s = None \<and> (is_terminated_state (svc s) \<longrightarrow> pend_mon s')"
  using assms(1)
proof (cases rule: cstep.cases)
  case by_task
  with assms(3) show ?thesis
    using task_step_threads [OF by_task, of before_check] task_step_holder [OF by_task]
    by (auto simp: pend_check_def)
next
  case by_holder
  have "has_thread before_check s'" if "has_thread before_capacity s'"
    using that by (auto simp: has_thread_def before_check_def)
  with assms(3) show ?thesis
    using closing_holder_moves [OF by_holder assms(2)] closers_stay [of before_check s] by_holder
    by (auto simp: pend_check_def kinds_closing)
next
  case by_closer
  with assms(3) show ?thesis
    using closer_step_check [OF by_closer] others_keep_holder(2) [OF by_closer]
    by (auto simp: pend_check_def)
qed (use assms(3) others_keep_holder closers_stay [of before_check s] in
    \<open>auto simp: pend_check_def kinds_closing\<close>)

lemma cstep_fin:
  assumes "cstep dbg s s'" and "inv_tasks s" and "has_fin P s" and "\<not> P FinDone"
  shows "has_fin P s' \<or> (\<exists>f f' s1. fin_step dbg f s f' s1 \<and> P f \<and> \<not> P f' \<and> threads s' = threads s1)"
  using assms(1)
proof (cases rule: cstep.cases)
  case by_task
  then show ?thesis by (rule task_step_fin [OF _ assms(2,3)])
qed (simp_all add: holder_step_fin [OF _ assms(2,3)] canceller_step_fin [OF _ assms(2,3)]
    closer_step_fin [OF _ assms(2,3)] waiter_step_fin [OF _ assms(3)] reclaim_step_fin [OF _ assms(3,4)])

lemma cstep_closers:
  assumes "cstep dbg s s'" and "has_thread P s" and "\<And>pc. P pc \<Longrightarrow> closing_pc pc" and "wake_blind P"
  shows "has_thread P s' \<or> closer_step dbg s s'"
  using assms(1)
proof (cases rule: cstep.cases)
  case by_task
  then show ?thesis using task_step_threads [OF by_task assms(2,4)] by simp
qed (use closers_stay [OF assms(2,3), of dbg s'] in simp_all)

text \<open>Nobody is parked, or waiting for a channel change, right after the wake-up.\<close>

definition none_parked :: "csys \<Rightarrow> bool" where
  "none_parked s \<longleftrightarrow> (\<forall>i. threads s i \<noteq> Some WaitParked)"

definition none_unnotified :: "csys \<Rightarrow> bool" where
  "none_unnotified s \<longleftrightarrow> (\<forall>i l. threads s i \<noteq> Some (AwaitParked False) \<and> threads s i \<noteq> Some (AwaitEmpty False l))"

definition none_unchanged :: "csys \<Rightarrow> bool" where
  "none_unchanged s \<longleftrightarrow> (\<forall>i. threads s i \<noteq> Some (ProduceWait False))"

lemma wake_target [simp]:
  "wake_monitor pc \<noteq> WaitParked" "wake_notified pc \<noteq> AwaitParked False"
  "wake_notified pc \<noteq> AwaitEmpty False l" "wake_producer pc \<noteq> ProduceWait False"
  by (cases pc; simp)+

lemma signal_wakes:
  "none_parked (signal_monitor s)" "none_unnotified (signal_notify s)" "none_unchanged (signal_capacity s)"
  by (simp_all add: none_parked_def none_unnotified_def none_unchanged_def)

lemma none_put:
  "none_parked s \<Longrightarrow> pc \<noteq> WaitParked \<Longrightarrow> none_parked (put_thread i pc s)"
  "none_unnotified s \<Longrightarrow> pc \<noteq> AwaitParked False \<Longrightarrow> (\<And>l. pc \<noteq> AwaitEmpty False l) \<Longrightarrow>
   none_unnotified (put_thread i pc s)"
  "none_unchanged s \<Longrightarrow> pc \<noteq> ProduceWait False \<Longrightarrow> none_unchanged (put_thread i pc s)"
  by (simp_all add: none_parked_def none_unnotified_def none_unchanged_def)

lemma none_frame:
  "none_parked s \<Longrightarrow> threads s' = threads s \<Longrightarrow> none_parked s'"
  "none_unnotified s \<Longrightarrow> threads s' = threads s \<Longrightarrow> none_unnotified s'"
  "none_unchanged s \<Longrightarrow> threads s' = threads s \<Longrightarrow> none_unchanged s'"
  by (simp_all add: none_parked_def none_unnotified_def none_unchanged_def)

lemma closer_step_mon:
  assumes "closer_step dbg s s'" and "has_thread at_monitor s"
  shows "has_thread at_monitor s' \<or> none_parked s'"
  using assms(1)
proof (cases rule: closer_step.cases)
  case (close_monitor i rep)
  then show ?thesis by (simp add: none_put signal_wakes)
next
  case (close_notify i rep)
  then show ?thesis
    by (auto intro!: has_thread_move [OF has_thread_signal(3) [OF assms(2)]] simp: kind_defs)
next
  case (close_capacity i rep)
  then show ?thesis
    by (auto intro!: has_thread_move [OF has_thread_signal(1) [OF assms(2)]] simp: kind_defs)
qed (use assms(2) in \<open>auto intro!: has_thread_move [OF assms(2)] simp: kind_defs\<close>)

lemma closer_step_not:
  assumes "closer_step dbg s s'" and "has_thread at_notify s"
  shows "has_thread at_notify s' \<or> none_unnotified s'"
  using assms(1)
proof (cases rule: closer_step.cases)
  case (close_monitor i rep)
  then show ?thesis by (auto simp: kind_defs intro: has_thread_here)
next
  case (close_notify i rep)
  then show ?thesis by (simp add: none_put signal_wakes)
next
  case (close_capacity i rep)
  then show ?thesis
    by (auto intro!: has_thread_move [OF has_thread_signal(1) [OF assms(2)]] simp: kind_defs)
qed (use assms(2) in \<open>auto intro!: has_thread_move [OF assms(2)] simp: kind_defs\<close>)

lemma fin_step_mon:
  "fin_step dbg f s f' s1 \<Longrightarrow> will_signal_monitor f \<Longrightarrow> \<not> will_signal_monitor f' \<Longrightarrow> none_parked s1"
  by (erule fin_step.cases) (auto simp: signal_wakes)

lemma fin_step_not:
  "fin_step dbg f s f' s1 \<Longrightarrow> will_signal_notify f \<Longrightarrow> \<not> will_signal_notify f' \<Longrightarrow> none_unnotified s1"
  by (erule fin_step.cases) (auto simp: signal_wakes)

lemma pend_mon_step:
  assumes "cstep dbg s s'" and "inv_tasks s" and "pend_mon s"
  shows "pend_mon s' \<or> none_parked s'"
proof -
  have "pend_mon s' \<or> none_parked s'" if "has_fin will_signal_monitor s"
    using cstep_fin [OF assms(1,2) that] fin_step_mon none_frame(1) by (fastforce simp: pend_mon_def)
  moreover have "pend_mon s' \<or> none_parked s'" if "has_thread at_monitor s"
    using cstep_closers [OF assms(1) that] closer_step_mon [OF _ that] kinds_closing(3)
    by (auto simp: pend_mon_def)
  ultimately show ?thesis using assms(3) by (auto simp: pend_mon_def)
qed

lemma pend_not_step:
  assumes "cstep dbg s s'" and "inv_tasks s" and "pend_not s"
  shows "pend_not s' \<or> none_unnotified s'"
proof -
  have "pend_not s' \<or> none_unnotified s'" if "has_fin will_signal_notify s"
    using cstep_fin [OF assms(1,2) that] fin_step_not none_frame(2) by (fastforce simp: pend_not_def)
  moreover have "pend_not s' \<or> none_unnotified s'" if "has_thread at_notify s"
    using cstep_closers [OF assms(1) that] closer_step_not [OF _ that] kinds_closing(2)
    by (auto simp: pend_not_def)
  ultimately show ?thesis using assms(3) by (auto simp: pend_not_def)
qed

lemma pend_mon_not: "pend_mon s \<Longrightarrow> pend_not s"
proof -
  have "will_signal_notify f" if "will_signal_monitor f" for f using that by (cases f) auto
  then show "pend_mon s \<Longrightarrow> pend_not s"
    unfolding pend_mon_def pend_not_def has_fin_def has_thread_def kind_defs by blast
qed

text \<open>Termination begins with a pending notification.\<close>

lemma terminates_pending:
  assumes step: "cstep dbg s s'" and inv: "inv_tasks s" "inv_lock s" "inv_counts s" "inv_counts s'"
    and now: "is_terminated_state (svc s')" "\<not> is_terminated_state (svc s)"
  shows "pend_check s' \<or> pend_mon s'"
  using step
proof (cases rule: cstep.cases)
  case by_task
  have "\<And>f. f = FinCapacity True \<Longrightarrow> will_signal_monitor f" by simp
  then show ?thesis using task_step_terminates [OF by_task inv(1,3,4) now]
    unfolding pend_mon_def has_fin_def by blast
next
  case by_holder
  from holder_step_terminates [OF this inv(2) now] show ?thesis by (simp add: pend_check_def)
qed (use other_steps_keep_svc now in \<open>simp_all add: is_terminated_state_def\<close>)

lemma closes_pending:
  assumes "cstep dbg s s'" and "is_not_running (svc s')" and "\<not> is_not_running (svc s)"
  shows "closing_holder (holder s')"
  using assms(1)
  by (cases rule: cstep.cases)
    (use assms(2,3) holder_step_closes task_step_keeps_lifecycle other_steps_keep_svc in auto)

section \<open>No termination wake-up is lost\<close>

text \<open>The waiters that matter: parked, or about to park on what they have already read.\<close>

fun wait_ok :: "csys \<Rightarrow> thread_pc \<Rightarrow> bool" where
  "wait_ok s (WaitEmpty l) \<longleftrightarrow> (l = Running \<and> is_not_running (svc s) \<longrightarrow> pend_check s)"
| "wait_ok s WaitParked \<longleftrightarrow> (is_terminated_state (svc s) \<longrightarrow> pend_check s \<or> pend_mon s)"
| "wait_ok s (AwaitEmpty n l) \<longleftrightarrow>
     (\<not> n \<and> l = Running \<and> is_terminated_state (svc s) \<longrightarrow> pend_check s \<or> pend_not s)"
| "wait_ok s (AwaitParked n) \<longleftrightarrow> (\<not> n \<and> is_terminated_state (svc s) \<longrightarrow> pend_check s \<or> pend_not s)"
| "wait_ok s pc \<longleftrightarrow> True"

definition inv_wait :: "csys \<Rightarrow> bool" where
  "inv_wait s \<longleftrightarrow> (\<forall>i pc. threads s i = Some pc \<longrightarrow> wait_ok s pc)"

text \<open>Where a waiter that matters came from.\<close>

definition came_from :: "csys \<Rightarrow> thread_pc option \<Rightarrow> thread_pc \<Rightarrow> bool" where
  "came_from s p pc' \<longleftrightarrow> p = Some pc' \<or>
     (case pc' of
        WaitParked \<Rightarrow> \<exists>l. p = Some (WaitEmpty l) \<and> \<not> (l \<noteq> Running \<and> is_empty (task_counts (svc s)))
      | WaitEmpty l \<Rightarrow> l = Running \<longrightarrow> \<not> is_not_running (svc s)
      | AwaitEmpty n l \<Rightarrow> n \<or> (l = Running \<longrightarrow> \<not> is_not_running (svc s))
      | AwaitParked n \<Rightarrow> n \<or> (\<exists>l. p = Some (AwaitEmpty n l) \<and> terminated_view l (svc s) \<noteq> Terminated)
      | _ \<Rightarrow> True)"

lemma came_from_wake [simp]:
  "came_from s (Some pc) (wake_producer pc)" "came_from s (Some pc) (wake_monitor pc)"
  "came_from s (Some pc) (wake_notified pc)"
  by (cases pc; simp add: came_from_def)+

lemma came_from_same [simp]: "came_from s (Some pc) pc"
  by (simp add: came_from_def)

lemma came_from_closing [simp]:
  "came_from s p (StopLoop q r ks n)" "came_from s p (StopHook q r k ks n)"
  "came_from s p (StopHookWait q r k ks n)" "came_from s p (CloseCapacity rep)"
  "came_from s p (CloseCheck rep)" "came_from s p (CloseMonitor rep)"
  "came_from s p (CloseNotify rep)" "came_from s p (Closed rep)"
  by (simp_all add: came_from_def)

lemma fin_step_came:
  assumes "fin_step dbg f s f' s1" and "threads s1 i = Some pc'"
  shows "came_from s (threads s i) pc'"
  using assms by (cases rule: fin_step.cases) auto

lemma thread_origin:
  assumes step: "cstep dbg s s'" and pc': "threads s' i = Some pc'"
  shows "came_from s (threads s i) pc'"
  using step
proof (cases rule: cstep.cases)
  case by_task
  with pc' show ?thesis by (elim task_stepE) (auto dest: fin_step_came)
next
  case by_holder
  with pc' show ?thesis by (elim holder_stepE) (auto simp: came_from_def split: if_splits)
next
  case by_canceller
  with pc' show ?thesis by (elim canceller_stepE) (auto simp: came_from_def split: if_splits)
next
  case by_closer
  with pc' show ?thesis
    by (elim closer_stepE) (auto split: if_splits)
next
  case by_waiter
  with pc' show ?thesis
    by (elim waiter_stepE) (auto simp: came_from_def is_not_running_def split: if_splits)
next
  case by_reclaim
  with pc' show ?thesis by (elim reclaim_stepE) (auto split: if_splits)
qed

lemma inv_wait_step:
  assumes step: "cstep dbg s s'" and inv: "inv_wait s" "inv_tasks s" "inv_lock s" "inv_counts s"
    "inv_counts s'" "inv_monitor s"
  shows "inv_wait s'"
  unfolding inv_wait_def
proof (intro allI impI)
  fix i pc' assume pc': "threads s' i = Some pc'"
  let ?T = "is_terminated_state (svc s)" and ?T' = "is_terminated_state (svc s')"
  note old = inv(1) [unfolded inv_wait_def, rule_format, of i]
  note from_step = thread_origin [OF step pc', unfolded came_from_def]
  note begins = terminates_pending [OF step inv(2-5)] and closes = closes_pending [OF step]
  have check: "pend_check s' \<or> monitor s = None \<and> (?T \<longrightarrow> pend_mon s')" if "pend_check s"
    using pend_check_step [OF step inv(3) that] .
  have T_run: "?T \<Longrightarrow> is_not_running (svc s)" by (simp add: is_terminated_state_def)
  have keeps_mon: "pend_check s' \<or> pend_mon s' \<or> none_parked s'" if "?T" "pend_check s \<or> pend_mon s"
    using check that pend_mon_step [OF step inv(2)] by blast
  have keeps_not: "pend_check s' \<or> pend_not s' \<or> none_unnotified s'" if "?T" "pend_check s \<or> pend_not s"
    using check that pend_not_step [OF step inv(2)] pend_mon_not by blast
  show "wait_ok s' pc'"
  proof (cases pc')
    case WaitParked
    have "pend_check s' \<or> pend_mon s'" if T': "?T'"
    proof (cases "?T")
      case False
      with begins T' show ?thesis by blast
    next
      case True
      consider "threads s i = Some WaitParked"
        | l where "threads s i = Some (WaitEmpty l)" "l = Running"
        using from_step WaitParked True by (auto simp: is_terminated_state_def)
      then show ?thesis
      proof cases
        case 1
        with old True have "pend_check s \<or> pend_mon s" by simp
        with keeps_mon True pc' WaitParked show ?thesis by (auto simp: none_parked_def)
      next
        case 2
        then have "pend_check s" using old T_run [OF True] by simp
        moreover have "monitor s = Some i" using inv(6) 2 by (simp add: inv_monitor_def)
        ultimately show ?thesis using check by auto
      qed
    qed
    with WaitParked show ?thesis by simp
  next
    case (WaitEmpty l)
    have "pend_check s'" if "l = Running" "is_not_running (svc s')"
    proof (cases "is_not_running (svc s)")
      case False
      with closes that show ?thesis by (simp add: pend_check_def)
    next
      case True
      with from_step WaitEmpty that have "threads s i = Some (WaitEmpty Running)" by auto
      then have "pend_check s" "monitor s = Some i"
        using old True inv(6) by (simp_all add: inv_monitor_def)
      with check show ?thesis by auto
    qed
    with WaitEmpty show ?thesis by simp
  next
    case (AwaitEmpty n l)
    have "pend_check s' \<or> pend_not s'" if n: "\<not> n" "l = Running" and T': "?T'"
    proof (cases "?T")
      case False
      with begins T' pend_mon_not show ?thesis by blast
    next
      case True
      with from_step AwaitEmpty n T_run have "threads s i = Some (AwaitEmpty False Running)" by auto
      with old True have "pend_check s \<or> pend_not s" by simp
      with keeps_not True pc' AwaitEmpty n show ?thesis by (auto simp: none_unnotified_def)
    qed
    with AwaitEmpty show ?thesis by simp
  next
    case (AwaitParked n)
    have "pend_check s' \<or> pend_not s'" if n: "\<not> n" and T': "?T'"
    proof (cases "?T")
      case False
      with begins T' pend_mon_not show ?thesis by blast
    next
      case True
      consider "threads s i = Some (AwaitParked False)"
        | l where "threads s i = Some (AwaitEmpty False l)" "terminated_view l (svc s) \<noteq> Terminated"
        using from_step AwaitParked n by auto
      then have "pend_check s \<or> pend_not s"
      proof cases
        case 1
        with old True show ?thesis by simp
      next
        case 2
        then have "l = Running"
          using True by (auto simp: terminated_view_def is_terminated_state_def split: if_splits)
        with 2 old True show ?thesis by simp
      qed
      with keeps_not True pc' AwaitParked n show ?thesis by (auto simp: none_unnotified_def)
    qed
    with AwaitParked show ?thesis by simp
  qed simp_all
qed

section \<open>No capacity wake-up is lost\<close>

abbreviation total :: "csys \<Rightarrow> nat" where
  "total s \<equiv> queued_total s + running_total s"

fun at_capacity :: "fin_pc \<Rightarrow> bool" where
  "at_capacity (FinCapacity terminated) = True"
| "at_capacity f = False"

lemma capacity_constant: "cstep dbg s s' \<Longrightarrow> task_capacity (svc s') = task_capacity (svc s)"
proof (elim cstepE)
  show "task_step dbg s s' \<Longrightarrow> task_capacity (svc s') = task_capacity (svc s)"
    by (elim task_stepE) (auto simp: fin_step_frame elim!: mark_task_started_cases)
  show "holder_step dbg s s' \<Longrightarrow> task_capacity (svc s') = task_capacity (svc s)"
    by (elim holder_stepE) (auto elim!: try_accept_task_cases)
  show "canceller_step s s' \<Longrightarrow> task_capacity (svc s') = task_capacity (svc s)"
    by (elim canceller_stepE) simp_all
  show "closer_step dbg s s' \<Longrightarrow> task_capacity (svc s') = task_capacity (svc s)"
    by (elim closer_stepE) simp_all
qed (simp_all add: other_steps_keep_svc)

lemma total_unat: "inv_counts s \<Longrightarrow> total s = unat (queued (task_counts (svc s))) + unat (running (task_counts (svc s)))"
  by (simp add: inv_counts_def counts_are_def)

lemma other_steps_keep_counts:
  "canceller_step s s' \<Longrightarrow> task_counts (svc s') = task_counts (svc s)"
  "closer_step dbg s s' \<Longrightarrow> task_counts (svc s') = task_counts (svc s)"
  by (erule canceller_step.cases closer_step.cases; simp)+

lemma holder_step_total:
  assumes "holder_step dbg s s'" and inv: "inv_counts s" "inv_counts s'"
  shows "total s \<le> total s'"
  using assms(1)
proof (cases rule: holder_step.cases)
  case (submit_accept v)
  from inv_counts_accept [OF inv(1) submit_accept(2,4)] submit_accept show ?thesis
    by (simp add: queued_total_def running_total_def)
qed (use inv in \<open>auto simp: total_unat elim: try_accept_task_cases\<close>)

lemma task_step_total:
  assumes step: "task_step dbg s s'" and inv: "inv_tasks s" "inv_counts s" "inv_counts s'"
    and less: "total s' < total s"
  shows "has_fin at_capacity s'"
  using step
proof (cases rule: task_step.cases)
  case (start_count k t v)
  have "task_ok k t" using inv_tasksD(2) [OF inv(1) start_count(2)] .
  then have "queued_part t + running_part t \<le> queued_part (t\<lparr>owner := RunningTask\<rparr>) + running_part (t\<lparr>owner := RunningTask\<rparr>)"
    using start_count(3) by (auto simp: part_defs task_ok_def)
  moreover have "tasks s' = (tasks s)(k \<mapsto> t\<lparr>owner := RunningTask\<rparr>)" "holder s' = holder s"
    using start_count(1) by simp_all
  ultimately show ?thesis using totals_move [OF inv(1) start_count(2)] less by fastforce
next
  case (owner_finish k t f f' s1)
  show ?thesis
  proof (cases f)
    case (FinCount b)
    then have "at_capacity f'" using owner_finish(4) by (auto elim: fin_step.cases)
    with owner_finish(1) show ?thesis by (auto simp: has_fin_def)
  qed (use owner_finish less inv in \<open>auto simp: total_unat elim: fin_step.cases\<close>)
next
  case (winner_finish k t f f' s1)
  show ?thesis
  proof (cases f)
    case (FinCount b)
    then have "at_capacity f'" using winner_finish(4) by (auto elim: fin_step.cases)
    with winner_finish(1) show ?thesis by (auto simp: has_fin_def)
  qed (use winner_finish less inv in \<open>auto simp: total_unat elim: fin_step.cases\<close>)
qed (use less inv in \<open>simp_all add: total_unat\<close>)

lemma step_total:
  assumes step: "cstep dbg s s'" and inv: "inv_tasks s" "inv_counts s" "inv_counts s'"
    and less: "total s' < total s"
  shows "has_fin at_capacity s'"
  using step
proof (cases rule: cstep.cases)
  case by_task
  from task_step_total [OF this inv less] show ?thesis .
next
  case by_holder
  with holder_step_total [OF this inv(2,3)] less show ?thesis by simp
qed (use less inv in \<open>simp_all add: total_unat other_steps_keep_counts other_steps_keep_svc\<close>)

definition pend_close_capacity :: "csys \<Rightarrow> bool" where
  "pend_close_capacity s \<longleftrightarrow> closing_holder (holder s) \<or> has_thread before_capacity s"

definition inv_produce :: "csys \<Rightarrow> bool" where
  "inv_produce s \<longleftrightarrow> (\<forall>i. threads s i = Some (ProduceWait False) \<longrightarrow>
     (total s < unat (task_capacity (svc s)) \<longrightarrow> has_fin at_capacity s) \<and>
     (is_not_running (svc s) \<longrightarrow> pend_close_capacity s))"

lemma closer_step_capacity:
  assumes "closer_step dbg s s'" and "has_thread before_capacity s"
  shows "has_thread before_capacity s' \<or> none_unchanged s'"
  using assms(1)
proof (cases rule: closer_step.cases)
  case (close_capacity i rep)
  then show ?thesis by (simp add: none_put signal_wakes)
next
  case (close_monitor i rep)
  then show ?thesis
    by (auto intro!: has_thread_move [OF has_thread_signal(2) [OF assms(2)]])
next
  case (close_notify i rep)
  then show ?thesis
    by (auto intro!: has_thread_move [OF has_thread_signal(3) [OF assms(2)]])
qed (use assms(2) in \<open>auto intro!: has_thread_move [OF assms(2)]\<close>)

lemma pend_close_capacity_step:
  assumes step: "cstep dbg s s'" and inv: "inv_tasks s" "inv_lock s" and pend: "pend_close_capacity s"
  shows "pend_close_capacity s' \<or> none_unchanged s'"
proof (cases "has_thread before_capacity s")
  case True
  from cstep_closers [OF step True] closer_step_capacity [OF _ True] kinds_closing(4) show ?thesis
    by (auto simp: pend_close_capacity_def)
next
  case False
  with pend have h: "closing_holder (holder s)" by (simp add: pend_close_capacity_def)
  show ?thesis using step
    by (cases rule: cstep.cases)
      (use h closing_holder_moves inv(2) task_step_holder others_keep_holder in
        \<open>auto simp: pend_close_capacity_def\<close>)
qed

lemma producer_origin:
  assumes "cstep dbg s s'" and "threads s' i = Some (ProduceWait False)"
  shows "threads s i = Some (ProduceWait False) \<or>
    holder_step dbg s s' \<and> holder s = SubmitReserve \<and> svc s' = unlock_submission (svc s) \<and>
    tasks s' = tasks s \<and> holder s' = Unlocked \<and> unfinished (task_counts (svc s)) \<ge> task_capacity (svc s)"
proof -
  have fin: "threads s j = Some (ProduceWait False)"
    if "fin_step dbg f s f' s1" "threads s1 j = Some (ProduceWait False)" for f f' s1 j
  proof -
    have "wake_monitor pc = ProduceWait n \<longleftrightarrow> pc = ProduceWait n"
      "wake_notified pc = ProduceWait n \<longleftrightarrow> pc = ProduceWait n" for pc n by (cases pc; simp)+
    with that show ?thesis by (cases rule: fin_step.cases) auto
  qed
  have wakes: "wake_monitor pc = ProduceWait n \<longleftrightarrow> pc = ProduceWait n"
    "wake_notified pc = ProduceWait n \<longleftrightarrow> pc = ProduceWait n" for pc n by (cases pc; simp)+
  from assms show ?thesis
  proof (elim cstepE)
    assume "task_step dbg s s'" then show ?thesis
      using assms(2) by (elim task_stepE) (auto dest: fin)
  next
    assume h: "holder_step dbg s s'"
    then have "threads s i = Some (ProduceWait False) \<or> holder s = SubmitReserve \<and>
        svc s' = unlock_submission (svc s) \<and> tasks s' = tasks s \<and> holder s' = Unlocked \<and>
        unfinished (task_counts (svc s)) \<ge> task_capacity (svc s)"
      using assms(2) by (cases rule: holder_step.cases) (auto split: if_splits elim: try_accept_task_cases)
    with h show ?thesis by blast
  next
    assume "canceller_step s s'" then show ?thesis
      using assms(2) by (elim canceller_stepE) (auto split: if_splits)
  next
    assume "closer_step dbg s s'" then show ?thesis
      using assms(2) by (elim closer_stepE) (auto simp: wakes split: if_splits)
  next
    assume "waiter_step s s'" then show ?thesis
      using assms(2) by (elim waiter_stepE) (auto split: if_splits)
  next
    assume "reclaim_step s s'" then show ?thesis
      using assms(2) by (elim reclaim_stepE) (auto split: if_splits)
  qed
qed

lemma fin_step_capacity:
  "fin_step dbg f s f' s1 \<Longrightarrow> at_capacity f \<Longrightarrow> \<not> at_capacity f' \<Longrightarrow> none_unchanged s1"
  by (erule fin_step.cases) (auto simp: signal_wakes)

lemma inv_produce_step:
  assumes step: "cstep dbg s s'" and inv: "inv_produce s" "inv_tasks s" "inv_lock s" "inv_counts s" "inv_counts s'"
  shows "inv_produce s'"
  unfolding inv_produce_def
proof (intro allI impI)
  fix i assume i: "threads s' i = Some (ProduceWait False)"
  then have here: "\<not> none_unchanged s'" by (auto simp: none_unchanged_def)
  note cap = capacity_constant [OF step]
  from producer_origin [OF step i]
  show "(total s' < unat (task_capacity (svc s')) \<longrightarrow> has_fin at_capacity s') \<and>
      (is_not_running (svc s') \<longrightarrow> pend_close_capacity s')"
  proof (elim disjE conjE)
    assume old: "threads s i = Some (ProduceWait False)"
    have "has_fin at_capacity s'" if "total s' < unat (task_capacity (svc s'))"
    proof (cases "total s < unat (task_capacity (svc s))")
      case True
      then have "has_fin at_capacity s" using inv(1) old by (auto simp: inv_produce_def)
      from cstep_fin [OF step inv(2) this] show ?thesis
        using fin_step_capacity none_frame(3) here by fastforce
    next
      case False
      with that cap have "total s' < total s" by simp
      from step_total [OF step inv(2,4,5) this] show ?thesis .
    qed
    moreover have "pend_close_capacity s'" if "is_not_running (svc s')"
    proof (cases "is_not_running (svc s)")
      case True
      then have "pend_close_capacity s" using inv(1) old by (auto simp: inv_produce_def)
      from pend_close_capacity_step [OF step inv(2,3) this] here show ?thesis by simp
    next
      case False
      from closes_pending [OF step that this] show ?thesis by (simp add: pend_close_capacity_def)
    qed
    ultimately show ?thesis by blast
  next
    assume h: "holder s = SubmitReserve" and svc: "svc s' = unlock_submission (svc s)"
      and t: "tasks s' = tasks s" and h': "holder s' = Unlocked"
      and full: "unfinished (task_counts (svc s)) \<ge> task_capacity (svc s)"
    have "unat (unfinished (task_counts (svc s))) = total s"
      using inv(4) by (simp add: inv_counts_def unfinished_counts_are)
    moreover have "total s' = total s" using h h' t by (simp add: queued_total_def running_total_def)
    ultimately have "\<not> total s' < unat (task_capacity (svc s'))"
      using full cap by (simp add: word_le_nat_alt)
    moreover have "\<not> is_not_running (svc s')" using inv(3) h svc by (simp add: inv_lock_def)
    ultimately show ?thesis by simp
  qed
qed

section \<open>All invariants of the interleaved service\<close>

definition cinv :: "csys \<Rightarrow> bool" where
  "cinv s \<longleftrightarrow> inv_lock s \<and> inv_tasks s \<and> inv_counts s \<and> inv_handles s \<and> inv_refs s \<and> inv_stop s \<and>
     inv_monitor s \<and> inv_wait s \<and> inv_produce s"

lemma cinvD:
  assumes "cinv s"
  shows "inv_lock s" "inv_tasks s" "inv_counts s" "inv_handles s" "inv_refs s" "inv_stop s"
    "inv_monitor s" "inv_wait s" "inv_produce s"
  using assms by (simp_all add: cinv_def)

lemma cinv_init: "cinv (cinit capacity)"
  by (simp add: cinv_def cinit_def inv_lock_def inv_tasks_def inv_counts_def inv_handles_def inv_refs_def
      inv_stop_def inv_monitor_def inv_wait_def inv_produce_def state_with_task_capacity_def
      queued_total_def running_total_def is_not_running_def)

lemma cinv_step: "cstep dbg s s' \<Longrightarrow> cinv s \<Longrightarrow> cinv s'"
  using inv_counts_step [of dbg s s']
  by (auto simp: cinv_def inv_lock_step inv_tasks_step inv_handles_step inv_refs_step
      inv_stop_step inv_monitor_step inv_wait_step inv_produce_step)

lemma creach_cinv: "creach dbg capacity s \<Longrightarrow> cinv s \<and> task_capacity (svc s) = capacity"
proof (induction rule: creach.induct)
  case creach_init
  show ?case by (simp add: cinv_init) (simp add: cinit_def state_with_task_capacity_def)
next
  case (creach_step s s')
  then show ?case using cinv_step capacity_constant by auto
qed

end
