(* ===== verification/Interleaving_Demo.thy ===== *)
theory Interleaving_Demo
  imports Interleaving_Invariants
begin

text \<open>
  A few concrete runs of the interleaved service, step by step, for the witnesses of the
  properties: each lemma adds one step to the run before it, with its side conditions
  evaluated by the simplifier.
\<close>

lemmas by_T = creach_step [OF _ by_task]
lemmas by_H = creach_step [OF _ by_holder]
lemmas by_C = creach_step [OF _ by_closer]
lemmas by_W = creach_step [OF _ by_waiter]

lemmas run_simps = is_not_running_def try_accept_task_def unfinished_def saturating_add_def
  accept_task_def mark_task_started_def mark_started_def debug_assert_def add_assign_def
  registration_new_def tracker_new_def is_finished_def
  finish_def key_def unlock_submission_def TASK_STATE_QUEUED_def TASK_STATE_RUNNING_def
  TASK_STATE_FINISHED_def finish_from_def finish_task_section_def counts_finish_task_def
  saturating_sub_def is_empty_def state_shutdown_def shutdown_bits_def fetch_update_def state_stop_def
  stop_bits_def task_count_snapshot_def close_report_def is_terminated_state_def terminated_view_def
  signal_capacity_def signal_monitor_def signal_notify_def wake_all_def notify_capacity_changed_def
  notify_all_def notify_waiters_def wrapping_add_def load_def

lemma run_0: "creach True 1 \<lparr>svc = \<lparr>lifecycle_byte = 0, task_counts = \<lparr>queued = 0, running = 0\<rparr>,
    monitor_notified = 0, task_capacity = 1, submission_lock = False, abort_handles = Map.empty,
    terminated_notify = 0, capacity_tx = 0\<rparr>, tasks = Map.empty, holder = Unlocked,
    threads = Map.empty, monitor = None\<rparr>"
  using creach_init [of True 1] by (simp add: cinit_def state_with_task_capacity_def counts_default_def)

text \<open>
  The common beginning: a service of capacity 1 accepts the task at address 16, and its
  worker receives the payload.
\<close>

lemmas r1 =
  by_H [OF run_0 lock [where h = SubmitCheck], simplified run_simps, simplified, OF refl]
lemmas r2 =
  by_H [OF r1 submit_open, simplified run_simps, simplified]
lemmas r3 =
  by_H [OF r2 submit_accept, simplified run_simps, simplified, OF refl]
lemmas r4 =
  by_H [OF r3 submit_create [where k = 16], simplified run_simps, simplified]
lemmas r5 =
  by_H [OF r4 submit_register [where k = 16], simplified run_simps, simplified, OF refl, simplified]
lemmas run_submitted =
  by_H [OF r5 submit_unlock [where k = 16], simplified run_simps, simplified, OF refl, simplified]
lemmas r7 =
  by_T [OF run_submitted send_ok [where k = 16], simplified run_simps, simplified, OF refl, simplified]
lemmas r8 =
  by_T [OF r7 receive [where k = 16], simplified run_simps, simplified, OF refl, simplified]
lemmas r9 =
  by_T [OF r8 start_won [where k = 16], simplified run_simps, simplified, OF refl, simplified, OF conjI [OF refl refl], simplified]
lemmas run_started =
  by_T [OF r9 start_count [where k = 16], simplified run_simps, simplified, OF refl, simplified, OF refl, simplified]

text \<open>
  A producer (thread 3) is refused for saturation and waits on the channel; then the
  closure returns, and its count has just been taken off.
\<close>

lemmas p1 =
  by_W [OF run_started produce_start [where i = 3], simplified run_simps, simplified, simplified]
lemmas p2 =
  by_H [OF p1 lock [where h = SubmitCheck], simplified run_simps, simplified, OF refl, simplified]
lemmas p3 =
  by_H [OF p2 submit_open, simplified run_simps, simplified]
lemmas run_saturated =
  by_H [OF p3 producer_saturated [where i = 3 and n = False], simplified run_simps, simplified, OF refl, simplified]
lemmas q1 =
  by_T [OF run_saturated closure_returns [where k = 16], simplified run_simps, simplified, OF refl, simplified]
lemmas q2 =
  by_T [OF q1 drop_mark [where k = 16], simplified run_simps, simplified, OF refl, simplified]
lemmas q3 =
  by_T [OF q2 drop_remove [where k = 16], simplified run_simps, simplified, OF refl, simplified]
lemmas q4 =
  by_T [OF q3 drop_swap [where k = 16], simplified run_simps, simplified, OF refl, simplified, OF conjI [OF refl refl], simplified]
lemmas run_freed =
  by_T [OF q4 owner_finish [where k = 16, OF _ _ fin_count [where started = True and terminated = False]],
    simplified run_simps, simplified, OF refl, simplified, OF refl, simplified]

text \<open>
  Two threads wait for termination (thread 0 in the monitor, thread 2 asynchronously)
  while the task runs; the service is shut down (thread 1), and the task finishes.
\<close>

lemmas w1 =
  by_W [OF run_started wait_start [where i = 0], simplified run_simps, simplified, simplified]
lemmas w2 =
  by_W [OF w1 wait_enter [where i = 0], simplified run_simps, simplified, simplified]
lemmas w3 =
  by_W [OF w2 wait_lifecycle [where i = 0], simplified run_simps, simplified, simplified]
lemmas w4 =
  by_W [OF w3 wait_park [where i = 0 and l = Running], simplified run_simps, simplified, simplified]
lemmas w5 =
  by_W [OF w4 await_start [where i = 2], simplified run_simps, simplified, simplified]
lemmas w6 =
  by_W [OF w5 await_enable [where i = 2 and n = False], simplified run_simps, simplified, simplified]
lemmas w7 =
  by_W [OF w6 await_load [where i = 2 and n = False], simplified run_simps, simplified, simplified]
lemmas run_waiting =
  by_W [OF w7 await_park [where i = 2 and n = False and l = Running], simplified run_simps, simplified, simplified]
lemmas s1 =
  by_H [OF run_waiting lock [where h = ShutdownStore], simplified run_simps, simplified, OF refl, simplified]
lemmas s2 =
  by_H [OF s1 shutdown_store, simplified run_simps, simplified]
lemmas s3 =
  by_H [OF s2 shutdown_unlock [where i = 1], simplified run_simps, simplified]
lemmas s4 =
  by_C [OF s3 close_capacity [where i = 1], simplified run_simps, simplified, OF refl, simplified]
lemmas run_closed =
  by_C [OF s4 close_check [where i = 1], simplified run_simps, simplified, OF refl, simplified]
lemmas t1 =
  by_T [OF run_closed closure_returns [where k = 16], simplified run_simps, simplified, OF refl, simplified]
lemmas t2 =
  by_T [OF t1 drop_mark [where k = 16], simplified run_simps, simplified, OF refl, simplified]
lemmas t3 =
  by_T [OF t2 drop_remove [where k = 16], simplified run_simps, simplified, OF refl, simplified]
lemmas t4 =
  by_T [OF t3 drop_swap [where k = 16], simplified run_simps, simplified, OF refl, simplified, OF conjI [OF refl refl], simplified]
lemmas run_terminated =
  by_T [OF t4 owner_finish [where k = 16, OF _ _ fin_count [where started = True and terminated = True]],
    simplified run_simps, simplified, OF refl, simplified, OF refl, simplified]

text \<open>
  A stop (thread 5) finds the task queued, wins its cancellation and runs to its end.
\<close>

lemmas x1 =
  by_H [OF run_submitted lock [where h = StopStore], simplified run_simps, simplified, OF refl]
lemmas x2 =
  by_H [OF x1 stop_store, simplified run_simps, simplified]
lemmas x3 =
  by_H [OF x2 stop_snapshot, simplified run_simps, simplified, OF conjI [OF refl refl], simplified]
lemmas x4 =
  by_H [OF x3 stop_unlock [where i = 5 and q = 1 and r = 0], simplified run_simps, simplified, simplified]
lemmas x5 =
  by_C [OF x4 stop_take [where i = 5 and q = 1 and r = 0 and ks = "[16]"], simplified run_simps, simplified, simplified]
lemmas x6 =
  by_C [OF x5 stop_abort [where i = 5 and q = 1 and r = 0 and k = 16 and ks = "[]" and n = 0], simplified run_simps, simplified, simplified]
lemmas run_cancelled =
  by_C [OF x6 stop_hook_won [where i = 5 and q = 1 and r = 0 and k = 16 and ks = "[]" and n = 0], simplified run_simps, simplified, OF refl, simplified, OF conjI [OF refl refl], simplified]
lemmas y1 =
  by_T [OF run_cancelled winner_finish [where k = 16, OF _ _ fin_count [where started = False and terminated = True]],
    simplified run_simps, simplified, OF refl, simplified, OF refl, simplified]
lemmas y2 =
  by_T [OF y1 winner_finish [where k = 16, OF _ _ fin_capacity [where terminated = True]],
    simplified run_simps, simplified, OF refl, simplified]
lemmas y3 =
  by_T [OF y2 winner_finish [where k = 16, OF _ _ fin_monitor],
    simplified run_simps, simplified, OF refl, simplified]
lemmas y4 =
  by_T [OF y3 winner_finish [where k = 16, OF _ _ fin_notify],
    simplified run_simps, simplified, OF refl, simplified]
lemmas y5 =
  by_C [OF y4 stop_hook_waited [where i = 5 and q = 1 and r = 0 and k = 16 and ks = "[]" and n = 0], simplified run_simps, simplified, OF refl, simplified, OF refl, simplified]
lemmas y6 =
  by_C [OF y5 stop_loop_end [where i = 5 and q = 1 and r = 0 and n = 1], simplified run_simps, simplified, simplified]
lemmas y7 =
  by_C [OF y6 close_capacity [where i = 5], simplified run_simps, simplified, OF refl, simplified]
lemmas y8 =
  by_C [OF y7 close_check [where i = 5], simplified run_simps, simplified, OF refl, simplified]
lemmas y9 =
  by_C [OF y8 close_monitor [where i = 5], simplified run_simps, simplified, OF refl, simplified]
lemmas run_stopped =
  by_C [OF y9 close_notify [where i = 5], simplified run_simps, simplified, OF refl, simplified]
end
