(* ===== verification/Bounded_Service.thy ===== *)
theory Bounded_Service
  imports Main
begin

text \<open>
  The contract both services of the crate keep towards their clients, over any transition
  system: an invariant that every step keeps, a load within a fixed limit, and a close that
  is final and after which the load only falls. The consequences for whole runs are proved
  here once; the blocking service and the IO service interpret the locales on their own
  step relations. The last section is the abstract specification both refine: a pool that
  admits, releases and closes.
\<close>

locale bounded_service =
  fixes step :: "'s \<Rightarrow> 's \<Rightarrow> bool"
    and ok :: "'s \<Rightarrow> bool"
    and load :: "'s \<Rightarrow> nat"
    and limit :: "'s \<Rightarrow> nat"
    and closed :: "'s \<Rightarrow> bool"
  assumes ok_step: "step s s' \<Longrightarrow> ok s \<Longrightarrow> ok s'"
    and within_limit: "ok s \<Longrightarrow> load s \<le> limit s"
    and limit_step: "step s s' \<Longrightarrow> limit s' = limit s"
    and closed_step: "step s s' \<Longrightarrow> ok s \<Longrightarrow> closed s \<Longrightarrow> closed s'"
    and drain_step: "step s s' \<Longrightarrow> ok s \<Longrightarrow> closed s \<Longrightarrow> load s' \<le> load s"
begin

lemma ok_run: "step\<^sup>*\<^sup>* s s' \<Longrightarrow> ok s \<Longrightarrow> ok s'"
  by (induction rule: rtranclp_induct) (auto intro: ok_step)

lemma limit_run: "step\<^sup>*\<^sup>* s s' \<Longrightarrow> limit s' = limit s"
  by (induction rule: rtranclp_induct) (auto dest: limit_step)

lemma bounded_run: "step\<^sup>*\<^sup>* s s' \<Longrightarrow> ok s \<Longrightarrow> load s' \<le> limit s"
  using within_limit [OF ok_run] limit_run by fastforce

lemma closed_run: "step\<^sup>*\<^sup>* s s' \<Longrightarrow> ok s \<Longrightarrow> closed s \<Longrightarrow> closed s' \<and> load s' \<le> load s"
proof (induction rule: rtranclp_induct)
  case (step t u)
  then have t: "ok t" "closed t" "load t \<le> load s" by (auto intro: ok_run)
  from closed_step [OF step(2) t(1,2)] drain_step [OF step(2) t(1,2)] t(3) show ?case by simp
qed simp

text \<open>Termination (closed, and nothing left) is stable.\<close>

lemma terminated_run:
  "step\<^sup>*\<^sup>* s s' \<Longrightarrow> ok s \<Longrightarrow> closed s \<Longrightarrow> load s = 0 \<Longrightarrow> closed s' \<and> load s' = 0"
  using closed_run by fastforce

text \<open>A step that adds load is only possible while the service is open and below its limit.\<close>

lemma admission_needs_room:
  "step s s' \<Longrightarrow> ok s \<Longrightarrow> load s < load s' \<Longrightarrow> \<not> closed s \<and> load s < limit s"
  using drain_step within_limit [OF ok_step] limit_step by fastforce

end

text \<open>
  A service with waiters: whoever waits for termination, when the service has terminated,
  is owed a wake-up that some pending step will give.
\<close>

locale waitable_service = bounded_service +
  fixes waiting :: "'i \<Rightarrow> 's \<Rightarrow> bool"
    and pending :: "'s \<Rightarrow> bool"
  assumes owed: "ok s \<Longrightarrow> closed s \<Longrightarrow> load s = 0 \<Longrightarrow> waiting i s \<Longrightarrow> pending s"
begin

lemma quiet_run:
  "step\<^sup>*\<^sup>* s s' \<Longrightarrow> ok s \<Longrightarrow> closed s \<Longrightarrow> load s = 0 \<Longrightarrow> \<not> pending s' \<Longrightarrow> \<not> waiting i s'"
  using owed ok_run terminated_run by blast

end

section \<open>The abstract pool\<close>

text \<open>
  What a client may rely on, and all it may rely on: a load that is admitted only while the
  pool is open and has room, released one at a time, and a close that happens once.
\<close>

record pool =
  pool_load :: nat
  pool_limit :: nat
  pool_closed :: bool

inductive pool_step :: "pool \<Rightarrow> pool \<Rightarrow> bool" where
  pool_admit: "\<not> pool_closed p \<Longrightarrow> pool_load p < pool_limit p \<Longrightarrow> pool_step p (p\<lparr>pool_load := Suc (pool_load p)\<rparr>)"
| pool_release: "pool_load p = Suc n \<Longrightarrow> pool_step p (p\<lparr>pool_load := n\<rparr>)"
| pool_close: "\<not> pool_closed p \<Longrightarrow> pool_step p (p\<lparr>pool_closed := True\<rparr>)"

definition new_pool :: "nat \<Rightarrow> pool" where
  "new_pool n = \<lparr>pool_load = 0, pool_limit = n, pool_closed = False\<rparr>"

definition pool_of :: "('s \<Rightarrow> nat) \<Rightarrow> ('s \<Rightarrow> nat) \<Rightarrow> ('s \<Rightarrow> bool) \<Rightarrow> 's \<Rightarrow> pool" where
  "pool_of load limit closed s = \<lparr>pool_load = load s, pool_limit = limit s, pool_closed = closed s\<rparr>"

text \<open>A service whose steps move the load by at most one, and not while they close.\<close>

locale pool_service = bounded_service +
  assumes unit_step: "step s s' \<Longrightarrow> ok s \<Longrightarrow> load s' \<le> Suc (load s) \<and> load s \<le> Suc (load s')"
    and close_alone: "step s s' \<Longrightarrow> ok s \<Longrightarrow> \<not> closed s \<Longrightarrow> closed s' \<Longrightarrow> load s' = load s"
begin

lemma simulates:
  assumes "step s s'" and "ok s"
  shows "pool_step\<^sup>=\<^sup>= (pool_of load limit closed s) (pool_of load limit closed s')"
proof -
  note lim = limit_step [OF assms(1)] and close = closed_step [OF assms]
  from unit_step [OF assms] consider "load s' = load s" | "load s' = Suc (load s)" | "load s = Suc (load s')"
    by linarith
  then show ?thesis
  proof cases
    case 1
    then show ?thesis using lim close pool_close [of "pool_of load limit closed s"]
      by (cases "closed s' = closed s") (auto simp: pool_of_def)
  next
    case 2
    then have "\<not> closed s" "load s < limit s" using admission_needs_room [OF assms] by simp_all
    moreover have "\<not> closed s'" using close_alone [OF assms] 2 calculation(1) by auto
    ultimately show ?thesis using 2 lim pool_admit [of "pool_of load limit closed s"] by (simp add: pool_of_def)
  next
    case 3
    then have "closed s' = closed s" using close_alone [OF assms] close by fastforce
    then show ?thesis using 3 lim pool_release [of "pool_of load limit closed s" "load s'"] by (simp add: pool_of_def)
  qed
qed

lemma run_simulates: "step\<^sup>*\<^sup>* s s' \<Longrightarrow> ok s \<Longrightarrow> pool_step\<^sup>*\<^sup>* (pool_of load limit closed s) (pool_of load limit closed s')"
proof (induction rule: rtranclp_induct)
  case (step t u)
  from simulates [OF step(2) ok_run [OF step(1,4)]] step.IH [OF step(4)] show ?case
    by (auto intro: rtranclp.rtrancl_into_rtrancl)
qed simp

end

end
