(* ===== verification/Interleaving_Claims.thy ===== *)
theory Interleaving_Claims
  imports Interleaving_Waiters Interleaving_Demo Bounded_Service
begin

text \<open>
  What holds of the blocking service under every interleaving of its threads: the service
  is an instance of the bounded, waitable services of \<open>Bounded_Service\<close>, and the properties
  below follow from the invariants of the theories \<open>Interleaving_Invariants\<close>,
  \<open>Interleaving_Handles\<close> and \<open>Interleaving_Waiters\<close>.
\<close>

section \<open>The interpretation\<close>

definition waits_termination :: "nat \<Rightarrow> csys \<Rightarrow> bool" where
  "waits_termination i s \<longleftrightarrow> threads s i = Some WaitParked \<or> threads s i = Some (AwaitParked False)"

definition wakeup_pending :: "csys \<Rightarrow> bool" where
  "wakeup_pending s \<longleftrightarrow> pend_check s \<or> pend_not s"

interpretation blocking: waitable_service "cstep dbg" cinv "\<lambda>s. queued_total s + running_total s"
  "\<lambda>s. unat (task_capacity (svc s))" "\<lambda>s. is_not_running (svc s)" waits_termination wakeup_pending
proof
  fix s s' assume step: "cstep dbg s s'"
  show "cinv s \<Longrightarrow> cinv s'" using cinv_step [OF step] .
  show "unat (task_capacity (svc s')) = unat (task_capacity (svc s))"
    using capacity_constant [OF step] by simp
  show "is_not_running (svc s) \<Longrightarrow> is_not_running (svc s')" using closed_stays [OF step] .
  show "queued_total s' + running_total s' \<le> queued_total s + running_total s"
    if "cinv s" "is_not_running (svc s)"
    using closed_totals(2) [OF step cinvD(2,1) [OF that(1)] that(2)] .
next
  fix s assume "cinv s"
  from cinvD(3) [OF this] show "queued_total s + running_total s \<le> unat (task_capacity (svc s))"
    by (simp add: inv_counts_def)
next
  fix s i assume inv: "cinv s" and "is_not_running (svc s)" "queued_total s + running_total s = 0"
  then have T: "is_terminated_state (svc s)" by (simp add: terminated_iff [OF cinvD(3)])
  assume "waits_termination i s"
  then obtain pc where pc: "threads s i = Some pc" "pc = WaitParked \<or> pc = AwaitParked False"
    by (auto simp: waits_termination_def)
  have "wait_ok s pc" using cinvD(8) [OF inv] pc(1) by (simp add: inv_wait_def)
  with pc(2) T show "wakeup_pending s" by (auto simp: wakeup_pending_def intro: pend_mon_not)
qed

lemma creach_run: "creach dbg capacity s \<Longrightarrow> (cstep dbg)\<^sup>*\<^sup>* s s' \<Longrightarrow> creach dbg capacity s'"
  by (rotate_tac, induction rule: rtranclp_induct) (auto intro: creach_step)

lemma creachD:
  assumes "creach dbg capacity s"
  shows "cinv s" "task_capacity (svc s) = capacity"
  using creach_cinv [OF assms] by simp_all

section \<open>Forward moves\<close>

text \<open>
  A step of any thread leaves a task's tracker and its completion mark where they were or
  moves them forward.
\<close>

definition moves_forward :: "ctask \<Rightarrow> ctask \<Rightarrow> bool" where
  "moves_forward t t' \<longleftrightarrow> task_state (tracker t) \<le> task_state (tracker t') \<and>
     marker (tracker t') = marker (tracker t) \<and>
     (is_finished (registration t) \<longrightarrow> is_finished (registration t'))"

lemma moves_forward_refl [simp]: "moves_forward t t"
  by (simp add: moves_forward_def)

lemma task_state_le_finished: "task_ok k t \<Longrightarrow> task_state (tracker t) \<le> TASK_STATE_FINISHED"
  by (cases "owner t") (auto simp: task_ok_def TASK_STATE_QUEUED_def TASK_STATE_RUNNING_def TASK_STATE_FINISHED_def)

lemma cstep_moves_forward:
  assumes "cstep dbg s s'" and "cinv s" and "tasks s k = Some t" and "tasks s' k = Some t'"
  shows "moves_forward t t'"
proof -
  have ok: "task_ok j u" if "tasks s j = Some u" for j u
    using cinvD(2) [OF assms(2)] that by (simp add: inv_tasks_def)
  note le = task_state_le_finished [OF ok, unfolded TASK_STATE_FINISHED_def]
  from assms(1,3,4) show ?thesis
    by (elim cstepE task_stepE holder_stepE canceller_stepE closer_stepE waiter_stepE reclaim_stepE)
      (auto simp: moves_forward_def compare_exchange_def swap_def finish_def is_finished_def le fin_step_frame
        TASK_STATE_QUEUED_def TASK_STATE_RUNNING_def TASK_STATE_FINISHED_def split: if_splits dest: fin_step_frame(1))
qed

section \<open>Counting running closures\<close>

lemma card_le_msum:
  assumes "finite (dom m)" and "\<And>k v. k \<in> A \<Longrightarrow> m k = Some v \<Longrightarrow> 1 \<le> f v" and "A \<subseteq> dom m"
  shows "card A \<le> msum f m"
proof -
  have "card A = (\<Sum>k\<in>A. 1)" by simp
  also have "\<dots> \<le> (\<Sum>k\<in>A. f (the (m k)))" using assms(2,3) by (intro sum_mono) (auto simp: subset_iff)
  also have "\<dots> \<le> msum f m" unfolding msum_def using assms(1,3) by (intro sum_mono2) auto
  finally show ?thesis .
qed

definition closures_running :: "csys \<Rightarrow> usize set" where
  "closures_running s = {k. \<exists>t. tasks s k = Some t \<and> owner t = RunningTask}"

lemma closures_running_le:
  assumes "cinv s"
  shows "card (closures_running s) \<le> running_total s"
  unfolding running_total_def
proof (rule card_le_msum)
  show "finite (dom (tasks s))" using inv_tasksD(1) [OF cinvD(2) [OF assms]] .
  show "closures_running s \<subseteq> dom (tasks s)" by (auto simp: closures_running_def)
  fix k t assume "k \<in> closures_running s" and t: "tasks s k = Some t"
  then have "owner t = RunningTask" by (auto simp: closures_running_def)
  with task_okD(2) [OF inv_tasksD(2) [OF cinvD(2) [OF assms] t]]
  show "1 \<le> running_part t" by (simp add: running_part_def)
qed

lemma fin_parts_le:
  assumes "cinv s" and t: "tasks s k = Some t" and f: "owner t = Finishing f \<or> winner t = Some f"
  shows "fin_queued f \<le> queued_total s" "fin_running f \<le> running_total s"
proof -
  have "fin_queued f \<le> queued_part t" "fin_running f \<le> running_part t" using f by (auto simp: part_defs)
  with parts_le_totals [OF cinvD(2) [OF assms(1)] t]
  show "fin_queued f \<le> queued_total s" "fin_running f \<le> running_total s" by simp_all
qed

section \<open>The load moves one task at a time\<close>

lemma fin_step_unit:
  assumes step: "fin_step dbg f s f' s1" and inv: "cinv s"
    and le: "fin_queued f \<le> queued_total s" "fin_running f \<le> running_total s"
    and counts': "counts_are q' r' (task_counts (svc s1))"
  shows "q' + r' \<le> total s \<and> total s \<le> Suc (q' + r')"
proof -
  have counts: "counts_are (queued_total s) (running_total s) (task_counts (svc s))"
    using cinvD(3) [OF inv] by (simp add: inv_counts_def)
  show ?thesis using step
  proof (cases rule: fin_step.cases)
    case (fin_count started terminated v)
    obtain c where c: "counts_finish_task dbg started (task_counts (svc s)) = Some c" "v = (svc s)\<lparr>task_counts := c\<rparr>"
      by (rule finish_task_section_frame [OF fin_count(5)]) (rule that)
    have "counts_are q' r' c" using counts' fin_count(3) c(2) by simp
    moreover have "\<exists>q r. counts_are q r c \<and> Suc (q + r) = total s"
    proof (cases started)
      case True
      then have "0 < running_total s" using le(2) fin_count(1) by simp
      obtain d where "counts_finish_task dbg True (task_counts (svc s)) = Some d"
        "counts_are (queued_total s) (running_total s - 1) d"
        by (rule finish_running_counts [OF counts \<open>0 < running_total s\<close>])
      with c(1) True \<open>0 < running_total s\<close> show ?thesis
        by (intro exI [of _ "queued_total s"] exI [of _ "running_total s - 1"]) simp
    next
      case False
      then have "0 < queued_total s" using le(1) fin_count(1) by simp
      obtain d where "counts_finish_task dbg False (task_counts (svc s)) = Some d"
        "counts_are (queued_total s - 1) (running_total s) d"
        by (rule finish_queued_counts [OF counts \<open>0 < queued_total s\<close>])
      with c(1) False \<open>0 < queued_total s\<close> show ?thesis
        by (intro exI [of _ "queued_total s - 1"] exI [of _ "running_total s"]) simp
    qed
    ultimately show ?thesis by (auto simp: counts_are_def)
  qed (use counts counts' in \<open>auto simp: counts_are_def\<close>)
qed

lemma same_counts_total:
  "cinv s \<Longrightarrow> cinv s' \<Longrightarrow> task_counts (svc s') = task_counts (svc s) \<Longrightarrow> total s' = total s"
  using total_unat [OF cinvD(3)] by simp

lemma step_unit:
  assumes step: "cstep dbg s s'" and inv: "cinv s"
  shows "total s' \<le> Suc (total s) \<and> total s \<le> Suc (total s')"
proof -
  note inv' = cinv_step [OF step inv]
  have counts: "counts_are (queued_total s) (running_total s) (task_counts (svc s))"
    and counts': "counts_are (queued_total s') (running_total s') (task_counts (svc s'))"
    using cinvD(3) [OF inv] cinvD(3) [OF inv'] by (simp_all add: inv_counts_def)
  note same = same_counts_total [OF inv inv']
  show ?thesis using step
  proof (cases rule: cstep.cases)
    case by_task
    then show ?thesis
    proof (cases rule: task_step.cases)
      case (start_count k t v)
      have "0 < queued_part t" using start_count(3) by (simp add: part_defs)
      then have "0 < queued_total s" using parts_le_totals(1) [OF cinvD(2) [OF inv] start_count(2)] by simp
      obtain c where c: "mark_started dbg (task_counts (svc s)) = Some c" "v = (svc s)\<lparr>task_counts := c\<rparr>"
        by (rule mark_task_started_cases [OF start_count(5)]) (rule that)
      obtain d where "mark_started dbg (task_counts (svc s)) = Some d"
        "counts_are (queued_total s - 1) (running_total s + 1) d"
        by (rule mark_started_counts [OF counts \<open>0 < queued_total s\<close>])
      then have "counts_are (queued_total s - 1) (running_total s + 1) c" using c(1) by simp
      moreover have "counts_are (queued_total s') (running_total s') c" using counts' start_count(1) c(2) by simp
      ultimately show ?thesis using \<open>0 < queued_total s\<close> by (auto simp: counts_are_def)
    next
      case (owner_finish k t f f' s1)
      have "counts_are (queued_total s') (running_total s') (task_counts (svc s1))" using counts' owner_finish(1) by simp
      from fin_step_unit [OF owner_finish(4) inv fin_parts_le [OF inv owner_finish(2)] this] owner_finish(3)
      show ?thesis by simp
    next
      case (winner_finish k t f f' s1)
      have "counts_are (queued_total s') (running_total s') (task_counts (svc s1))" using counts' winner_finish(1) by simp
      from fin_step_unit [OF winner_finish(4) inv fin_parts_le [OF inv winner_finish(2)] this] winner_finish(3)
      show ?thesis by simp
    qed (use same in simp_all)
  next
    case by_holder
    then show ?thesis
    proof (cases rule: holder_step.cases)
      case (submit_accept v)
      from inv_counts_accept [OF cinvD(3) [OF inv] submit_accept(2,4)] submit_accept show ?thesis
        by (simp add: queued_total_def running_total_def)
    next
      case (lock v h)
      then show ?thesis using same by (auto simp: lock_submission_def split: if_splits)
    qed (use same in \<open>auto elim: try_accept_task_cases\<close>)
  qed (use same in \<open>simp_all add: other_steps_keep_counts other_steps_keep_svc\<close>)
qed

lemma step_close_alone:
  assumes step: "cstep dbg s s'" and inv: "cinv s" and "\<not> is_not_running (svc s)" "is_not_running (svc s')"
  shows "total s' = total s"
proof -
  have "task_counts (svc s') = task_counts (svc s)" using step
  proof (cases rule: cstep.cases)
    case by_task
    then show ?thesis using assms(3,4) task_step_keeps_lifecycle by simp
  next
    case by_holder
    then show ?thesis using assms(3,4)
      by (cases rule: holder_step.cases) (auto simp: lock_submission_def split: if_splits elim: try_accept_task_cases)
  qed (simp_all add: other_steps_keep_counts other_steps_keep_svc)
  then show ?thesis by (rule same_counts_total [OF inv cinv_step [OF step inv]])
qed

definition pool_load_of :: "csys \<Rightarrow> nat" where
  "pool_load_of s = unat (queued (task_counts (svc s))) + unat (running (task_counts (svc s)))"

interpretation blocking_pool: pool_service "cstep dbg" cinv pool_load_of
  "\<lambda>s. unat (task_capacity (svc s))" "\<lambda>s. is_not_running (svc s)"
proof
  fix s s' assume step: "cstep dbg s s'"
  show "cinv s \<Longrightarrow> cinv s'" using cinv_step [OF step] .
  show "unat (task_capacity (svc s')) = unat (task_capacity (svc s))" using capacity_constant [OF step] by simp
  show "is_not_running (svc s) \<Longrightarrow> is_not_running (svc s')" using closed_stays [OF step] .
  assume inv: "cinv s"
  have load: "pool_load_of s = total s" "pool_load_of s' = total s'"
    using total_unat [OF cinvD(3) [OF inv]] total_unat [OF cinvD(3) [OF cinv_step [OF step inv]]]
    by (simp_all add: pool_load_of_def)
  show "pool_load_of s' \<le> pool_load_of s" if "is_not_running (svc s)"
    using blocking.drain_step [OF step inv that] load by simp
  show "pool_load_of s' \<le> Suc (pool_load_of s) \<and> pool_load_of s \<le> Suc (pool_load_of s')"
    using step_unit [OF step inv] load by simp
  show "pool_load_of s' = pool_load_of s" if "\<not> is_not_running (svc s)" "is_not_running (svc s')"
    using step_close_alone [OF step inv that] load by simp
next
  fix s assume inv: "cinv s"
  show "pool_load_of s \<le> unat (task_capacity (svc s))"
    using blocking.within_limit [OF inv] total_unat [OF cinvD(3) [OF inv]] by (simp add: pool_load_of_def)
qed

section \<open>No panic\<close>

lemma cinv_no_panic:
  assumes inv: "cinv s"
  shows "\<not> about_to_panic dbg s"
proof
  note lockd = cinvD(1) [OF inv] and tasks = cinvD(2) [OF inv] and handles = cinvD(4) [OF inv]
  have c: "counts_are (queued_total s) (running_total s) (task_counts (svc s))"
    and cap: "queued_total s + running_total s \<le> unat (task_capacity (svc s))"
    using cinvD(3) [OF inv] by (simp_all add: inv_counts_def)
  note part = fin_parts_le [OF inv]
  assume "about_to_panic dbg s"
  then consider
    (accept) "holder s = SubmitReserve" "try_accept_task dbg (svc s) = None"
    | (insert) k where "holder s = SubmitRegister k" "abort_handles (svc s) k \<noteq> None"
    | (start) k t where "tasks s k = Some t" "owner t = MarkCount" "mark_task_started dbg (svc s) = None"
    | (finish) k t b where "tasks s k = Some t" "owner t = Finishing (FinCount b) \<or> winner t = Some (FinCount b)"
        "finish_task_section dbg b (svc s) = None"
    | (tally) i q r k ks n where "threads s i = Some (StopHookWait q r k ks n)" "add_assign dbg n 1 = None"
    unfolding about_to_panic_def key_eq by (elim disjE exE conjE) blast+
  then show False
  proof cases
    case accept
    show False
    proof (cases "unfinished (task_counts (svc s)) \<ge> task_capacity (svc s)")
      case True
      with accept(2) show False by (simp add: try_accept_task_def)
    next
      case False
      then have "queued_total s + running_total s < unat (task_capacity (svc s))"
        by (simp add: not_le word_less_nat_alt unfinished_counts_are [OF c])
      then have "queued_total s + running_total s < 2 ^ 64 - 1"
        using unat_usize_less [of "task_capacity (svc s)"] by linarith
      then obtain c' where "accept_task dbg (task_counts (svc s)) = Some c'"
        using accept_task_counts [OF c] by blast
      with accept(2) False show False by (simp add: try_accept_task_def)
    qed
  next
    case insert
    with handles show False by (fastforce simp: inv_handles_def)
  next
    case start
    have "queued_part t \<noteq> 0" using start(2) by (simp add: part_defs)
    then have "0 < queued_total s" using parts_le_totals(1) [OF tasks start(1)] by simp
    then obtain c' where "mark_started dbg (task_counts (svc s)) = Some c'"
      using mark_started_counts [OF c] by blast
    with start(3) show False by (simp add: mark_task_started_def)
  next
    case finish
    note le = part [OF finish(1,2)]
    have "counts_finish_task dbg b (task_counts (svc s)) \<noteq> None"
    proof (cases b)
      case True
      with le(2) have "0 < running_total s" by simp
      then show ?thesis using finish_running_counts [OF c] True by (metis option.distinct(1))
    next
      case False
      with le(1) have "0 < queued_total s" by simp
      then show ?thesis using finish_queued_counts [OF c] False by (metis option.distinct(1))
    qed
    with finish(3) show False by (auto simp: finish_task_section_def)
  next
    case tally
    have "tally s (StopHookWait q r k ks n) = Some (q, unat n + done_at s k)" by simp
    from inv_stopD(3) [OF cinvD(6) [OF inv] tally(1) this]
    have "unat n + queued_total s + done_at s k \<le> unat q" by simp
    moreover have "1 \<le> done_at s k + queued_total s"
    proof -
      have "has_winner s k" using cinvD(5) [OF inv] tally(1) by (auto simp: inv_refs_def)
      then obtain t f where t: "tasks s k = Some t" "winner t = Some f" by (auto simp: has_winner_def)
      show ?thesis
      proof (cases "f = FinCount False")
        case True
        with part(1) [OF t(1), of f] t(2) show ?thesis by simp
      next
        case False
        with t show ?thesis by (simp add: done_at_def winner_done_def)
      qed
    qed
    ultimately have "unat n + unat (1 :: usize) < 2 ^ 64" using unat_usize_less [of q] by simp
    with tally(2) show False by (simp add: add_assign_fits)
  qed
qed

section \<open>What a close fixes\<close>

lemma closed_tasks_step:
  assumes step: "cstep dbg s s'" and inv: "cinv s" and closed: "is_not_running (svc s)"
  shows "dom (tasks s') \<subseteq> dom (tasks s)"
  using step
proof (cases rule: cstep.cases)
  case by_task
  from one_task_refs(1) [OF one_task_task [OF this cinvD(2) [OF inv]]] show ?thesis by simp
next
  case by_holder
  from closed_holder_tasks(1) [OF this cinvD(1) [OF inv] closed] show ?thesis by simp
next
  case by_canceller
  from one_task_refs(1) [OF one_task_canceller [OF this cinvD(2) [OF inv]]] show ?thesis by simp
next
  case by_closer
  from one_task_refs(1) [OF one_task_closer [OF this cinvD(2) [OF inv]]] show ?thesis by simp
next
  case by_waiter
  from one_task_refs(1) [OF one_task_waiter [OF this]] show ?thesis by simp
next
  case by_reclaim
  then show ?thesis by (cases rule: reclaim_step.cases) auto
qed

lemma closed_tasks_run:
  assumes "(cstep dbg)\<^sup>*\<^sup>* s s'" and "cinv s" and "is_not_running (svc s)"
  shows "dom (tasks s') \<subseteq> dom (tasks s)"
  using assms(1)
proof (induction rule: rtranclp_induct)
  case (step u v)
  have "cinv u" "is_not_running (svc u)"
    using blocking.ok_run [OF step(1) assms(2)] blocking.closed_run [OF step(1) assms(2,3)] by simp_all
  from closed_tasks_step [OF step(2) this] step.IH show ?case by blast
qed simp

section \<open>The observed lifecycle\<close>

definition lifecycle_ok :: "csys \<Rightarrow> bool" where
  "lifecycle_ok s \<longleftrightarrow> lifecycle_byte (svc s) \<in> {0, 1, 2}"

lemma shutdown_bits_small: "v \<in> {0, 1, 2} \<Longrightarrow> shutdown_bits v = (if v = 0 then 1 else v)"
  by (auto simp: shutdown_bits_def fetch_update_def)

lemma step_lifecycle_byte:
  assumes "cstep dbg s s'"
  shows "lifecycle_byte (svc s') \<in> {lifecycle_byte (svc s), shutdown_bits (lifecycle_byte (svc s)), 2}"
  using assms
proof (elim cstepE)
  assume "task_step dbg s s'" then show ?thesis
    by (elim task_stepE) (auto simp: fin_step_frame elim!: mark_task_started_cases)
next
  assume "holder_step dbg s s'" then show ?thesis
    by (elim holder_stepE)
      (auto simp: state_shutdown_def state_stop_def stop_bits_def elim!: try_accept_task_cases)
next
  assume "canceller_step s s'" then show ?thesis by (elim canceller_stepE) simp_all
next
  assume "closer_step dbg s s'" then show ?thesis by (elim closer_stepE) simp_all
qed (simp_all add: other_steps_keep_svc)

lemma step_lifecycle_ok:
  assumes "cstep dbg s s'" and "lifecycle_ok s"
  shows "lifecycle_ok s'"
proof -
  have "lifecycle_byte (svc s) \<in> {0, 1, 2}" using assms(2) by (simp add: lifecycle_ok_def)
  then show ?thesis
    using step_lifecycle_byte [OF assms(1)] shutdown_bits_small [of "lifecycle_byte (svc s)"]
    unfolding lifecycle_ok_def by (cases "lifecycle_byte (svc s) = 0") auto
qed

lemma creach_lifecycle_ok: "creach dbg capacity s \<Longrightarrow> lifecycle_ok s"
proof (induction rule: creach.induct)
  case creach_init
  show ?case by (simp add: lifecycle_ok_def cinit_def state_with_task_capacity_def)
qed (rule step_lifecycle_ok)

lemma load_small [simp]: "load 1 = ShuttingDown" "load 2 = Stopping"
  by (simp_all add: load_def)

lemma step_load_le:
  assumes "cstep dbg s s'" and "lifecycle_ok s"
  shows "load (lifecycle_byte (svc s)) \<le> load (lifecycle_byte (svc s'))"
proof -
  let ?a = "lifecycle_byte (svc s)" and ?b = "lifecycle_byte (svc s')"
  have a: "?a \<in> {0, 1, 2}" using assms(2) by (simp add: lifecycle_ok_def)
  have "?b \<in> {?a, if ?a = 0 then 1 else ?a, 2}"
    using step_lifecycle_byte [OF assms(1)] shutdown_bits_small [OF a] by simp
  then have "?b = ?a \<or> ?a = 0 \<or> ?b = 2" by (auto split: if_splits)
  then show ?thesis
  proof (elim disjE)
    assume "?b = 2"
    then show ?thesis using a by (elim insertE emptyE) simp_all
  qed simp_all
qed

lemma step_state_lifecycle_le:
  assumes step: "cstep dbg s s'" and inv: "cinv s" "lifecycle_ok s"
  shows "state_lifecycle (svc s) \<le> state_lifecycle (svc s')"
proof (cases "is_terminated_state (svc s)")
  case True
  then have "is_terminated_state (svc s')"
    using terminated_stable [OF step cinvD(2,1,3) [OF inv(1)] cinvD(3) [OF cinv_step [OF step inv(1)]]]
    by simp
  then have "state_lifecycle (svc s') = Terminated" by (simp add: state_lifecycle_Terminated_iff)
  then show ?thesis by simp
next
  case False
  have "state_lifecycle (svc s) = load (lifecycle_byte (svc s))"
    using False by (auto simp: state_lifecycle_def is_terminated_state_def is_not_running_def Let_def)
  also note step_load_le [OF step inv(2)]
  also have "load (lifecycle_byte (svc s')) \<le> state_lifecycle (svc s')"
    by (simp add: state_lifecycle_def Let_def)
  finally show ?thesis .
qed

lemma run_state_lifecycle_le:
  assumes "(cstep dbg)\<^sup>*\<^sup>* s s'" and "creach dbg capacity s"
  shows "state_lifecycle (svc s) \<le> state_lifecycle (svc s')"
  using assms(1)
proof (induction rule: rtranclp_induct)
  case (step u v)
  have "creach dbg capacity u" using creach_run [OF assms(2) step(1)] .
  from step_state_lifecycle_le [OF step(2) creachD(1) [OF this] creach_lifecycle_ok [OF this]]
  show ?case by (rule order_trans [OF step.IH])
qed simp

section \<open>Properties\<close>

text \<open>
  C1: Admission under concurrency. Whatever the threads do, the two counters are exact (a
  task counts as queued until its \<^verbatim>\<open>mark_started\<close> or the accounting of its cancellation has
  run), their sum never exceeds the capacity, and no more user closures run at once than
  the running counter says.
\<close>
theorem concurrent_counters_exact:
  assumes "creach dbg capacity s"
  shows "unat (queued (task_counts (svc s))) = queued_total s \<and>
    unat (running (task_counts (svc s))) = running_total s \<and>
    queued_total s + running_total s \<le> unat capacity \<and>
    card (closures_running s) \<le> unat (running (task_counts (svc s)))"
proof -
  have "counts_are (queued_total s) (running_total s) (task_counts (svc s))"
    using cinvD(3) [OF creachD(1) [OF assms]] by (simp add: inv_counts_def)
  then show ?thesis
    using closures_running_le [OF creachD(1) [OF assms]] blocking.within_limit [OF creachD(1) [OF assms]]
      creachD(2) [OF assms] by (simp add: counts_are_def)
qed

theorem concurrent_counters_exact_witness:
  "\<exists>s. creach True 1 s \<and> 16 \<in> closures_running s \<and> queued_total s + running_total s \<le> 1"
proof -
  obtain s where s: "creach True 1 s" "16 \<in> closures_running s"
    by (rule that [OF run_started]) (simp add: closures_running_def)
  with concurrent_counters_exact [OF s(1)] show ?thesis by auto
qed

text \<open>
  C6: No panic and no false report under concurrency. In no reachable state is a thread about
  to fail a debug assertion (an occupied abort-handle key, a counter that should be positive)
  or to overflow a counter or the tally of a stop, in either build profile. However the tasks,
  other stops and cancelling handles interleave with a stop, the cancelled count of the report
  it returns is at most the queued count it read: each cancellation it counts is of a task
  that was queued then, and is counted by nobody else.
\<close>
theorem concurrent_no_panic:
  assumes "creach dbg capacity s"
  shows "\<not> about_to_panic dbg s \<and>
    (\<forall>i rep. threads s i = Some (Closed (Some rep)) \<longrightarrow> report_cancelled rep \<le> report_queued rep)"
proof (intro conjI allI impI)
  note inv = creachD(1) [OF assms]
  show "\<not> about_to_panic dbg s" by (rule cinv_no_panic [OF inv])
  fix i rep assume closed: "threads s i = Some (Closed (Some rep))"
  have "report_of (Closed (Some rep)) = Some rep" by simp
  from inv_stopD(4) [OF cinvD(6) [OF inv] closed this] show "report_cancelled rep \<le> report_queued rep" .
qed

theorem concurrent_no_panic_witness:
  "(\<exists>s. creach True 1 s \<and> holder s = SubmitRegister 16 \<and> \<not> about_to_panic True s) \<and>
   (\<exists>s rep. creach True 1 s \<and> threads s 5 = Some (Closed (Some rep)) \<and> report_cancelled rep = 1 \<and>
     report_cancelled rep \<le> report_queued rep)"
proof
  obtain s where s: "creach True 1 s" "holder s = SubmitRegister 16" by (rule that [OF r4]) simp
  with concurrent_no_panic [OF s(1)]
  show "\<exists>s. creach True 1 s \<and> holder s = SubmitRegister 16 \<and> \<not> about_to_panic True s" by blast
next
  obtain s rep where s: "creach True 1 s" "threads s 5 = Some (Closed (Some rep))" "report_cancelled rep = 1"
    by (rule that [OF run_stopped]) (simp, simp)
  with concurrent_no_panic [OF s(1)]
  show "\<exists>s rep. creach True 1 s \<and> threads s 5 = Some (Closed (Some rep)) \<and> report_cancelled rep = 1 \<and>
     report_cancelled rep \<le> report_queued rep" by blast
qed

text \<open>
  C2: No lost termination wake-up. In a terminated service, a thread parked in
  \<^verbatim>\<open>wait_termination\<close> is still owed a \<^verbatim>\<open>notify_all\<close>, and one parked in \<^verbatim>\<open>await_termination\<close>
  a \<^verbatim>\<open>notify_waiters\<close>: some thread is before its termination check or before that call. So
  once no such call is pending, nobody waits for termination any more.
\<close>
theorem no_lost_termination_wakeup:
  assumes "creach dbg capacity s" and "is_terminated_state (svc s)"
  shows "(threads s i = Some WaitParked \<longrightarrow> pend_check s \<or> pend_mon s) \<and>
    (threads s i = Some (AwaitParked False) \<longrightarrow> pend_check s \<or> pend_not s) \<and>
    ((cstep dbg)\<^sup>*\<^sup>* s s' \<longrightarrow> \<not> wakeup_pending s' \<longrightarrow> \<not> waits_termination i s')"
proof -
  note inv = creachD(1) [OF assms(1)]
  have "threads s i = Some pc \<Longrightarrow> wait_ok s pc" for pc
    using cinvD(8) [OF inv] by (simp add: inv_wait_def)
  moreover have "is_not_running (svc s)" "queued_total s + running_total s = 0"
    using assms(2) terminated_iff [OF cinvD(3) [OF inv]] by simp_all
  ultimately show ?thesis
    using assms(2) blocking.quiet_run [of dbg s s' i] inv by fastforce
qed

theorem no_lost_termination_wakeup_witness:
  "\<exists>s. creach True 1 s \<and> is_terminated_state (svc s) \<and> threads s 0 = Some WaitParked \<and>
     (pend_check s \<or> pend_mon s)"
proof -
  obtain s where s: "creach True 1 s" "is_terminated_state (svc s)" "threads s 0 = Some WaitParked"
    by (rule that [OF run_terminated])
      (simp_all add: is_terminated_state_def is_not_running_def is_empty_def)
  from no_lost_termination_wakeup [OF s(1,2), of 0] s show ?thesis by blast
qed

text \<open>
  C5: The observed lifecycle only moves forward, and a close is final. Along every run, what
  \<^verbatim>\<open>lifecycle()\<close> would answer (running, shutting down, stopping, terminated) never goes back.
  From a reachable state that is shutting down or stopping, every run stays closed, accepts
  no task, never raises the sum of the counters, and keeps a terminated service terminated.
\<close>
theorem close_is_final:
  assumes "creach dbg capacity s" and "(cstep dbg)\<^sup>*\<^sup>* s s'"
  shows "state_lifecycle (svc s) \<le> state_lifecycle (svc s') \<and>
    (is_not_running (svc s) \<longrightarrow> is_not_running (svc s') \<and> dom (tasks s') \<subseteq> dom (tasks s) \<and>
      unat (queued (task_counts (svc s'))) + unat (running (task_counts (svc s')))
        \<le> unat (queued (task_counts (svc s))) + unat (running (task_counts (svc s))) \<and>
      (is_terminated_state (svc s) \<longrightarrow> is_terminated_state (svc s')))"
proof (intro conjI impI)
  show "state_lifecycle (svc s) \<le> state_lifecycle (svc s')" by (rule run_state_lifecycle_le [OF assms(2,1)])
next
  note inv = creachD(1) [OF assms(1)] and inv' = creachD(1) [OF creach_run [OF assms]]
  note terminated = terminated_iff [OF cinvD(3) [OF inv]] terminated_iff [OF cinvD(3) [OF inv']]
  assume closed: "is_not_running (svc s)"
  note run = blocking.closed_run [OF assms(2) inv closed]
  show "is_not_running (svc s')" using run by blast
  show "dom (tasks s') \<subseteq> dom (tasks s)" by (rule closed_tasks_run [OF assms(2) inv closed])
  show "unat (queued (task_counts (svc s'))) + unat (running (task_counts (svc s')))
      \<le> unat (queued (task_counts (svc s))) + unat (running (task_counts (svc s)))"
    using run total_unat [OF cinvD(3) [OF inv]] total_unat [OF cinvD(3) [OF inv']] by auto
  show "is_terminated_state (svc s')" if "is_terminated_state (svc s)"
    using run that terminated by auto
qed

theorem close_is_final_witness:
  "\<exists>s s'. creach True 1 s \<and> is_not_running (svc s) \<and> (cstep True)\<^sup>*\<^sup>* s s' \<and> dom (tasks s') \<subseteq> dom (tasks s) \<and>
     state_lifecycle (svc s) \<le> state_lifecycle (svc s')"
proof -
  obtain s where s: "creach True 1 s" "is_not_running (svc s)"
    by (rule that [OF run_terminated]) (simp add: is_not_running_def)
  from close_is_final [OF s(1) rtranclp.rtrancl_refl] s show ?thesis by blast
qed

text \<open>
  C4: A cancelled task never runs. Once a cancellation (a handle's or a stop's) has won the
  tracker of a task, the task is not and will not be counted as started, its closure is not
  running, its guard's drop counts nothing more, and the cancellation is never undone.
\<close>
theorem cancelled_task_never_runs:
  assumes "creach dbg capacity s" and "tasks s k = Some t" and "winner t \<noteq> None"
  shows "task_state (tracker t) = TASK_STATE_FINISHED \<and> owner t \<noteq> MarkCount \<and>
    owner t \<noteq> RunningTask \<and> (\<forall>f. owner t = Finishing f \<longrightarrow> f = FinDone) \<and>
    (\<forall>s' t'. task_step dbg s s' \<longrightarrow> tasks s' k = Some t' \<longrightarrow> winner t' \<noteq> None)"
proof -
  note tasks = cinvD(2) [OF creachD(1) [OF assms(1)]]
  note ok = inv_tasksD(2) [OF tasks assms(2)]
  have "winner t' \<noteq> None" if "task_step dbg s s'" "tasks s' k = Some t'" for s' t'
    using one_task_refs(2) [OF one_task_task [OF that(1) tasks], of k] assms(2,3) that(2)
    by (auto simp: has_winner_def)
  with ok assms(3) show ?thesis by (auto simp: task_ok_def)
qed

theorem cancelled_task_never_runs_witness:
  "\<exists>s t. creach True 1 s \<and> tasks s 16 = Some t \<and> winner t = Some (FinCount False) \<and> owner t \<noteq> RunningTask"
proof -
  obtain s t where s: "creach True 1 s" "tasks s 16 = Some t" "winner t = Some (FinCount False)"
    by (rule that [OF run_cancelled]) (simp, simp)
  from cancelled_task_never_runs [OF s(1,2)] s show ?thesis by auto
qed

text \<open>
  C8: No lost capacity wake-up. A producer that was refused for saturation and waits on an
  unchanged channel is still owed the change: if the service now has room, a finisher is
  between its count and its \<^verbatim>\<open>notify_capacity_changed\<close>; if it has been closed, the closer is
  before its own.
\<close>
theorem no_lost_capacity_wakeup:
  assumes "creach dbg capacity s" and "threads s i = Some (ProduceWait False)"
  shows "(unfinished (task_counts (svc s)) < capacity \<longrightarrow> has_fin at_capacity s) \<and>
    (is_not_running (svc s) \<longrightarrow> pend_close_capacity s)"
proof -
  note inv = creachD(1) [OF assms(1)]
  have "unat (unfinished (task_counts (svc s))) = queued_total s + running_total s"
    using cinvD(3) [OF inv] by (simp add: inv_counts_def unfinished_counts_are)
  then show ?thesis
    using cinvD(9) [OF inv] assms(2) creachD(2) [OF assms(1)]
    by (auto simp: inv_produce_def word_less_nat_alt)
qed

theorem no_lost_capacity_wakeup_witness:
  "\<exists>s. creach True 1 s \<and> threads s 3 = Some (ProduceWait False) \<and>
     unfinished (task_counts (svc s)) < 1 \<and> has_fin at_capacity s"
proof -
  obtain s where s: "creach True 1 s" "threads s 3 = Some (ProduceWait False)"
    "unfinished (task_counts (svc s)) < 1"
    by (rule that [OF run_freed]) (simp_all add: unfinished_def saturating_add_def)
  from no_lost_capacity_wakeup [OF s(1,2)] s show ?thesis by blast
qed

text \<open>
  C9: The tasks of the service stay well formed, at every step. A tracked abort handle is
  under the key of its own marker and belongs to a live task whose guard has not removed it
  yet, and an insertion never finds its key occupied. Each task's accounting state is one its
  guard's place allows (running while its closure runs, finished once its guard has counted
  it out), and every step of every thread leaves that state and the completion mark alone or
  moves them forward: queued, running, finished.
\<close>
theorem tasks_well_formed:
  assumes "creach dbg capacity s"
  shows "(\<forall>k a. abort_handles (svc s) k = Some a \<longrightarrow> key (tracked_marker a) = k \<and>
      (\<exists>t. tasks s k = Some t \<and> \<not> past_removal (owner t))) \<and>
    (\<forall>k. holder s = SubmitRegister k \<longrightarrow> abort_handles (svc s) (key k) = None) \<and>
    (\<forall>k t. tasks s k = Some t \<longrightarrow> marker (tracker t) = k \<and>
      task_state (tracker t) \<in> owner_states (owner t) \<and>
      (\<forall>s' t'. cstep dbg s s' \<longrightarrow> tasks s' k = Some t' \<longrightarrow> moves_forward t t'))"
proof -
  note inv = creachD(1) [OF assms]
  have "inv_handles s" "inv_tasks s" using cinvD(2,4) [OF inv] by simp_all
  then have "(\<forall>k a. abort_handles (svc s) k = Some a \<longrightarrow> key (tracked_marker a) = k \<and>
      (\<exists>t. tasks s k = Some t \<and> \<not> past_removal (owner t))) \<and>
    (\<forall>k. holder s = SubmitRegister k \<longrightarrow> abort_handles (svc s) (key k) = None)"
    unfolding inv_handles_def by (metis key_eq not_None_eq)
  moreover have "marker (tracker t) = k \<and> task_state (tracker t) \<in> owner_states (owner t)"
    if "tasks s k = Some t" for k t
    using \<open>inv_tasks s\<close> that by (simp add: inv_tasks_def task_ok_def)
  ultimately show ?thesis using cstep_moves_forward [OF _ inv] by blast
qed

theorem tasks_well_formed_witness:
  "\<exists>s a. creach True 1 s \<and> abort_handles (svc s) 16 = Some a \<and> tracked_marker a = 16"
proof -
  obtain s a where s: "creach True 1 s" "abort_handles (svc s) 16 = Some a"
    by (rule that [OF run_submitted]) simp
  from tasks_well_formed [OF s(1)] s show ?thesis by auto
qed

text \<open>
  C17: The blocking service refines the abstract pool. Every step of every thread is one
  admission, one release or the close of a pool whose load is the sum of the two counters,
  or invisible to it; so every run from a new service is a run of a new pool.
\<close>
theorem blocking_refines_pool:
  assumes "creach dbg capacity s"
  shows "pool_step\<^sup>*\<^sup>* (new_pool (unat capacity))
      (pool_of pool_load_of (\<lambda>s. unat (task_capacity (svc s))) (\<lambda>s. is_not_running (svc s)) s) \<and>
    (cstep dbg s s' \<longrightarrow>
       pool_step\<^sup>=\<^sup>= (pool_of pool_load_of (\<lambda>s. unat (task_capacity (svc s))) (\<lambda>s. is_not_running (svc s)) s)
         (pool_of pool_load_of (\<lambda>s. unat (task_capacity (svc s))) (\<lambda>s. is_not_running (svc s)) s'))"
proof -
  have "(cstep dbg)\<^sup>*\<^sup>* (cinit capacity) s" using assms
    by (induction rule: creach.induct) (auto intro: rtranclp.rtrancl_into_rtrancl)
  from blocking_pool.run_simulates [OF this cinv_init] blocking_pool.simulates [OF _ creachD(1) [OF assms]]
  show ?thesis
    by (simp add: pool_of_def new_pool_def pool_load_of_def cinit_def state_with_task_capacity_def
        counts_default_def is_not_running_def)
qed

theorem blocking_refines_pool_witness:
  "\<exists>s. creach True 1 s \<and> pool_load_of s = 1 \<and>
     pool_step\<^sup>*\<^sup>* (new_pool 1) (pool_of pool_load_of (\<lambda>s. unat (task_capacity (svc s))) (\<lambda>s. is_not_running (svc s)) s)"
proof -
  obtain s where s: "creach True 1 s" "pool_load_of s = 1"
    by (rule that [OF run_submitted]) (simp add: pool_load_of_def)
  with blocking_refines_pool [OF s(1)] show ?thesis by auto
qed

end
