(* ===== verification/Fair_Progress.thy ===== *)
theory Fair_Progress
  imports Exec_Prelude "HOL-Library.Product_Lexorder"
begin

text \<open>
  Progress along fair executions, the interface under which the liveness of the interleaved
  services is stated: agents whose enabled steps are not put off for ever, and the rule that
  a rank which some agent can lower and nobody raises is used up.
\<close>

section \<open>Fair executions\<close>

text \<open>
  Infinite executions; points that stay where they are are included. In a fair one an agent
  that can act at every point from some point on does act; in a strongly fair one an agent
  that can act again and again does (this is what a lock that starves nobody gives).
\<close>

definition fair_execution ::
  "('s \<Rightarrow> 's \<Rightarrow> bool) \<Rightarrow> ('a \<Rightarrow> 's \<Rightarrow> 's \<Rightarrow> bool) \<Rightarrow> (nat \<Rightarrow> 's) \<Rightarrow> bool" where
  "fair_execution step act \<sigma> \<longleftrightarrow>
     (\<forall>n. \<sigma> (Suc n) = \<sigma> n \<or> step (\<sigma> n) (\<sigma> (Suc n))) \<and>
     (\<forall>a n. (\<forall>m\<ge>n. \<exists>s'. act a (\<sigma> m) s') \<longrightarrow> (\<exists>m\<ge>n. act a (\<sigma> m) (\<sigma> (Suc m))))"

definition strongly_fair_execution ::
  "('s \<Rightarrow> 's \<Rightarrow> bool) \<Rightarrow> ('a \<Rightarrow> 's \<Rightarrow> 's \<Rightarrow> bool) \<Rightarrow> (nat \<Rightarrow> 's) \<Rightarrow> bool" where
  "strongly_fair_execution step act \<sigma> \<longleftrightarrow>
     (\<forall>n. \<sigma> (Suc n) = \<sigma> n \<or> step (\<sigma> n) (\<sigma> (Suc n))) \<and>
     (\<forall>a n. (\<forall>m\<ge>n. \<exists>l\<ge>m. \<exists>s'. act a (\<sigma> l) s') \<longrightarrow> (\<exists>m\<ge>n. act a (\<sigma> m) (\<sigma> (Suc m))))"

lemma fair_executionD:
  assumes "fair_execution step act \<sigma>"
  shows "\<sigma> (Suc n) = \<sigma> n \<or> step (\<sigma> n) (\<sigma> (Suc n))"
    "(\<And>m. n \<le> m \<Longrightarrow> \<exists>s'. act a (\<sigma> m) s') \<Longrightarrow> \<exists>m\<ge>n. act a (\<sigma> m) (\<sigma> (Suc m))"
  using assms unfolding fair_execution_def by blast+

lemma strongly_fair_executionD:
  assumes "strongly_fair_execution step act \<sigma>"
  shows "\<sigma> (Suc n) = \<sigma> n \<or> step (\<sigma> n) (\<sigma> (Suc n))"
    "(\<And>m. n \<le> m \<Longrightarrow> \<exists>l\<ge>m. \<exists>s'. act a (\<sigma> l) s') \<Longrightarrow> \<exists>m\<ge>n. act a (\<sigma> m) (\<sigma> (Suc m))"
  using assms unfolding strongly_fair_execution_def by blast+

lemma strongly_fair: "strongly_fair_execution step act \<sigma> \<Longrightarrow> fair_execution step act \<sigma>"
  unfolding fair_execution_def strongly_fair_execution_def by (meson order_refl order_trans)

section \<open>The rule\<close>

locale fair_system =
  fixes step :: "'s \<Rightarrow> 's \<Rightarrow> bool"
    and act :: "'a \<Rightarrow> 's \<Rightarrow> 's \<Rightarrow> bool"
    and ok :: "'s \<Rightarrow> bool"
  assumes act_step: "act a s s' \<Longrightarrow> step s s'"
    and ok_step: "step s s' \<Longrightarrow> ok s \<Longrightarrow> ok s'"
begin

lemma ok_execution:
  assumes "fair_execution step act \<sigma>" and "ok (\<sigma> n)" and "n \<le> m"
  shows "ok (\<sigma> m)"
  using assms(3)
proof (induction m rule: dec_induct)
  case base
  show ?case by (rule assms(2))
next
  case (step m)
  then show ?case using fair_executionD(1) [OF assms(1), of m] ok_step by metis
qed

text \<open>
  While \<open>P\<close> holds, every step keeps it and lowers the rank, or keeps the rank and the agent
  that is to help, or reaches \<open>Q\<close>. The helping agent's steps lower the rank; unless the rank
  falls without it, it acts at some point.
\<close>

lemma leads_to_if_acts:
  fixes rank :: "'s \<Rightarrow> 'b::wellorder"
  assumes fair: "fair_execution step act \<sigma>" and ok: "ok (\<sigma> n)" and P: "P (\<sigma> n)"
    and stay: "\<And>s s'. step s s' \<Longrightarrow> ok s \<Longrightarrow> P s \<Longrightarrow>
      Q s' \<or> P s' \<and> (rank s' < rank s \<or> rank s' = rank s \<and> h s' = h s)"
    and helps: "\<And>s s'. act (h s) s s' \<Longrightarrow> ok s \<Longrightarrow> P s \<Longrightarrow> Q s' \<or> rank s' < rank s"
    and acts: "\<And>n. ok (\<sigma> n) \<Longrightarrow> (\<And>m. n \<le> m \<Longrightarrow> P (\<sigma> m) \<and> h (\<sigma> m) = h (\<sigma> n)) \<Longrightarrow>
      \<exists>m\<ge>n. act (h (\<sigma> n)) (\<sigma> m) (\<sigma> (Suc m))"
  shows "\<exists>m\<ge>n. Q (\<sigma> m)"
  using ok P
proof (induction "rank (\<sigma> n)" arbitrary: n rule: less_induct)
  case less
  show ?case
  proof (rule ccontr)
    assume never: "\<not> (\<exists>m\<ge>n. Q (\<sigma> m))"
    have P': "P (\<sigma> m) \<and> ok (\<sigma> m)" if "n \<le> m" for m
      using that
    proof (induction m rule: dec_induct)
      case (step m)
      then show ?case
        using fair_executionD(1) [OF fair, of m] stay [of "\<sigma> m" "\<sigma> (Suc m)"] ok_step never
        by (metis le_Suc_eq)
    qed (use less.prems in simp)
    have least: "\<not> rank (\<sigma> m) < rank (\<sigma> n)" if "n \<le> m" for m
      using less.hyps [of m] P' [OF that] never that order_trans by blast
    have same: "rank (\<sigma> m) = rank (\<sigma> n) \<and> h (\<sigma> m) = h (\<sigma> n)" if "n \<le> m" for m
      using that
    proof (induction m rule: dec_induct)
      case (step m)
      have "n \<le> Suc m" using step(1) by simp
      with step never P' [OF step(1)] least [of "Suc m"] show ?case
        using fair_executionD(1) [OF fair, of m] stay [of "\<sigma> m" "\<sigma> (Suc m)"] by metis
    qed simp
    obtain m where m: "n \<le> m" "act (h (\<sigma> n)) (\<sigma> m) (\<sigma> (Suc m))"
      using acts [OF less.prems(1)] P' same by blast
    then have "Q (\<sigma> (Suc m)) \<or> rank (\<sigma> (Suc m)) < rank (\<sigma> m)"
      using helps [of "\<sigma> m" "\<sigma> (Suc m)"] P' same by metis
    then show False using never same [OF m(1)] same [of "Suc m"] m(1) by (metis le_Suc_eq less_irrefl)
  qed
qed

lemma leads_to:
  fixes rank :: "'s \<Rightarrow> 'b::wellorder"
  assumes fair: "fair_execution step act \<sigma>" and ok: "ok (\<sigma> n)" and P: "P (\<sigma> n)"
    and stay: "\<And>s s'. step s s' \<Longrightarrow> ok s \<Longrightarrow> P s \<Longrightarrow>
      Q s' \<or> P s' \<and> (rank s' < rank s \<or> rank s' = rank s \<and> h s' = h s)"
    and helps: "\<And>s s'. act (h s) s s' \<Longrightarrow> ok s \<Longrightarrow> P s \<Longrightarrow> Q s' \<or> rank s' < rank s"
    and enabled: "\<And>s. ok s \<Longrightarrow> P s \<Longrightarrow> \<exists>s'. act (h s) s s'"
  shows "\<exists>m\<ge>n. Q (\<sigma> m)"
proof (rule leads_to_if_acts [where P = P and Q = Q and h = h and rank = rank, OF fair ok P stay helps])
  fix n
  assume "ok (\<sigma> n)" and same: "\<And>m. n \<le> m \<Longrightarrow> P (\<sigma> m) \<and> h (\<sigma> m) = h (\<sigma> n)"
  then have "\<exists>s'. act (h (\<sigma> n)) (\<sigma> m) s'" if "n \<le> m" for m
    using enabled [OF ok_execution [OF fair _ that]] that by metis
  then show "\<exists>m\<ge>n. act (h (\<sigma> n)) (\<sigma> m) (\<sigma> (Suc m))" by (rule fair_executionD(2) [OF fair])
qed

text \<open>The usual case: one agent helps throughout.\<close>

lemma leads_to_by:
  fixes rank :: "'s \<Rightarrow> 'b::wellorder"
  assumes fair: "fair_execution step act \<sigma>" and ok: "ok (\<sigma> n)" and P: "P (\<sigma> n)"
    and stay: "\<And>s s'. step s s' \<Longrightarrow> ok s \<Longrightarrow> P s \<Longrightarrow> Q s' \<or> P s' \<and> rank s' \<le> rank s"
    and helps: "\<And>s s'. act a s s' \<Longrightarrow> ok s \<Longrightarrow> P s \<Longrightarrow> Q s' \<or> rank s' < rank s"
    and enabled: "\<And>s. ok s \<Longrightarrow> P s \<Longrightarrow> \<exists>s'. act a s s'"
  shows "\<exists>m\<ge>n. Q (\<sigma> m)"
  using stay helps enabled
  by (intro leads_to [where h = "\<lambda>s. a" and P = P and Q = Q and rank = rank, OF fair ok P]) (auto simp: le_less)

text \<open>In a strongly fair execution the helping agent need only be able to act again and again.\<close>

lemma leads_to_strongly:
  fixes rank :: "'s \<Rightarrow> 'b::wellorder"
  assumes fair: "strongly_fair_execution step act \<sigma>" and ok: "ok (\<sigma> n)" and P: "P (\<sigma> n)"
    and stay: "\<And>s s'. step s s' \<Longrightarrow> ok s \<Longrightarrow> P s \<Longrightarrow>
      Q s' \<or> P s' \<and> (rank s' < rank s \<or> rank s' = rank s \<and> h s' = h s)"
    and helps: "\<And>s s'. act (h s) s s' \<Longrightarrow> ok s \<Longrightarrow> P s \<Longrightarrow> Q s' \<or> rank s' < rank s"
    and enabled: "\<And>s. ok s \<Longrightarrow> P s \<Longrightarrow> R s \<Longrightarrow> \<exists>s'. act (h s) s s'"
    and often: "\<And>n. ok (\<sigma> n) \<Longrightarrow> \<exists>m\<ge>n. R (\<sigma> m)"
  shows "\<exists>m\<ge>n. Q (\<sigma> m)"
proof (rule leads_to_if_acts [where P = P and Q = Q and h = h and rank = rank, OF strongly_fair [OF fair] ok P stay helps])
  fix n
  assume n: "ok (\<sigma> n)" and same: "\<And>m. n \<le> m \<Longrightarrow> P (\<sigma> m) \<and> h (\<sigma> m) = h (\<sigma> n)"
  have "\<exists>l\<ge>m. \<exists>s'. act (h (\<sigma> n)) (\<sigma> l) s'" if nm: "n \<le> m" for m
  proof -
    note ok = ok_execution [OF strongly_fair [OF fair] n]
    obtain l where l: "m \<le> l" "R (\<sigma> l)" using often [OF ok [OF nm]] by blast
    then have "n \<le> l" using nm by simp
    with enabled [OF ok [OF this] _ l(2)] same [OF this] l(1) show ?thesis by metis
  qed
  then show "\<exists>m\<ge>n. act (h (\<sigma> n)) (\<sigma> m) (\<sigma> (Suc m))" by (rule strongly_fair_executionD(2) [OF fair])
qed

end

end
