(* ===== verification/Blocking_Liveness.thy ===== *)
theory Blocking_Liveness
  imports Interleaving_Claims Fair_Progress
begin

text \<open>
  Liveness of the blocking service: in a strongly fair execution, whoever waits in
  \<^verbatim>\<open>wait_termination\<close> or \<^verbatim>\<open>await_termination\<close> of a service that has terminated returns. Strong
  fairness is what the monitor's lock has to give, since it is taken and released over and
  over by others; it is asked of code under way only, never of user closures, of submitters
  that do not hold the submission lock, or of calls that have not begun.
\<close>

section \<open>Agents\<close>

datatype svc_agent = OwnerAgent usize | WinnerAgent usize | LockAgent | SvcThread nat

fun leaving :: "owner_pc \<Rightarrow> bool" where
  "leaving DropMark = True"
| "leaving DropRemove = True"
| "leaving DropSwap = True"
| "leaving (Finishing f) = True"
| "leaving pc = False"

text \<open>A thread moves itself when its counter changes otherwise than by a notification.\<close>

definition cmoves :: "nat \<Rightarrow> csys \<Rightarrow> csys \<Rightarrow> bool" where
  "cmoves i s s' \<longleftrightarrow> (\<exists>pc. threads s i = Some pc \<and>
     threads s' i \<notin> {Some pc, Some (wake_monitor pc), Some (wake_notified pc), Some (wake_producer pc)})"

fun cact :: "bool \<Rightarrow> svc_agent \<Rightarrow> csys \<Rightarrow> csys \<Rightarrow> bool" where
  "cact dbg (OwnerAgent k) s s' \<longleftrightarrow> task_step dbg s s' \<and>
     (\<exists>t t'. tasks s k = Some t \<and> leaving (owner t) \<and> tasks s' k = Some t' \<and> owner t' \<noteq> owner t)"
| "cact dbg (WinnerAgent k) s s' \<longleftrightarrow> task_step dbg s s' \<and>
     (\<exists>t t'. tasks s k = Some t \<and> winner t \<noteq> None \<and> tasks s' k = Some t' \<and> winner t' \<noteq> winner t)"
| "cact dbg LockAgent s s' \<longleftrightarrow> holder s \<noteq> Unlocked \<and> holder_step dbg s s'"
| "cact dbg (SvcThread i) s s' \<longleftrightarrow>
     (canceller_step s s' \<or> closer_step dbg s s' \<or> waiter_step s s') \<and> cmoves i s s'"

definition clive :: "csys \<Rightarrow> bool" where
  "clive s \<longleftrightarrow> cinv s \<and> finite (dom (threads s)) \<and> lifecycle_ok s"

lemma cliveD:
  assumes "clive s"
  shows "cinv s" "finite (dom (threads s))" "lifecycle_ok s"
  using assms by (simp_all add: clive_def)

lemmas cstep_elims = cstepE task_stepE holder_stepE canceller_stepE closer_stepE waiter_stepE reclaim_stepE

lemma dom_wake [simp]: "dom (\<lambda>i. map_option f (m i)) = dom (m :: nat \<rightharpoonup> thread_pc)"
  by (auto simp: dom_def)

lemma fin_step_dom: "fin_step dbg f s f' s' \<Longrightarrow> dom (threads s') = dom (threads s)"
  by (erule fin_step.cases) (simp_all add: signal_capacity_def signal_monitor_def signal_notify_def wake_all_def)

lemma clive_step:
  assumes "cstep dbg s s'" and "clive s"
  shows "clive s'"
proof -
  have "finite (dom (threads s'))"
    using assms(1) cliveD(2) [OF assms(2)]
    by (elim cstep_elims) (simp_all add: fin_step_dom signal_capacity_def signal_monitor_def signal_notify_def wake_all_def)
  with cinv_step [OF assms(1) cliveD(1) [OF assms(2)]] step_lifecycle_ok [OF assms(1) cliveD(3) [OF assms(2)]]
  show ?thesis by (simp add: clive_def)
qed

interpretation svc_fair: fair_system "cstep dbg" "cact dbg" clive
proof
  show "cact dbg a s s' \<Longrightarrow> cstep dbg s s'" for a s s'
    by (cases a) (auto intro: cstep.intros)
qed (rule clive_step)

lemma creach_clive: "creach dbg capacity s \<Longrightarrow> clive s"
proof (induction rule: creach.induct)
  case creach_init
  show ?case using cinv_init creach_lifecycle_ok [OF creach.creach_init] by (simp add: clive_def) (simp add: cinit_def)
next
  case (creach_step s s')
  then show ?case using clive_step by blast
qed

lemma ended_step: "cstep dbg s s' \<Longrightarrow> clive s \<Longrightarrow> is_terminated_state (svc s) \<Longrightarrow> is_terminated_state (svc s')"
  using terminated_stable cinv_step cinvD(1-3) cliveD(1) by metis

section \<open>The two ways of waiting\<close>

text \<open>
  Parked and woken: \<open>True\<close> is the asynchronous wait, \<open>False\<close> the one in the monitor;
  \<open>will\<close> and \<open>willc\<close> say that a finishing task or a closing thread is yet to wake such a waiter.
\<close>

fun waits :: "bool \<Rightarrow> thread_pc" where
  "waits b = (if b then AwaitParked False else WaitParked)"

fun woken :: "bool \<Rightarrow> thread_pc" where
  "woken b = (if b then AwaitParked True else WaitLock)"

definition will :: "bool \<Rightarrow> fin_pc \<Rightarrow> bool" where
  "will b f = (if b then will_signal_notify f else will_signal_monitor f)"

definition willc :: "bool \<Rightarrow> thread_pc \<Rightarrow> bool" where
  "willc b pc \<longleftrightarrow> before_check pc \<or> (if b then at_notify pc else at_monitor pc)"

definition told :: "bool \<Rightarrow> csys \<Rightarrow> csys \<Rightarrow> bool" where
  "told b s s' \<longleftrightarrow> (\<forall>i. threads s i = Some (waits b) \<longrightarrow> threads s' i = Some (woken b))"

lemma parked_step:
  "cstep dbg s s' \<Longrightarrow> threads s i = Some (waits b) \<Longrightarrow> threads s' i \<in> {Some (waits b), Some (woken b)}"
  by (elim cstep_elims fin_step.cases)
    (auto simp: signal_capacity_def signal_monitor_def signal_notify_def wake_all_def split: if_splits)

section \<open>A finishing task\<close>

text \<open>\<open>fin_at w t f\<close>: the task's winner (\<open>w\<close>) or its owner is inside \<^verbatim>\<open>finish_task\<close> at \<open>f\<close>.\<close>

definition fin_at :: "bool \<Rightarrow> ctask \<Rightarrow> fin_pc \<Rightarrow> bool" where
  "fin_at w t f \<longleftrightarrow> (if w then winner t = Some f else owner t = Finishing f)"

definition fin_agent :: "bool \<Rightarrow> usize \<Rightarrow> svc_agent" where
  "fin_agent w k = (if w then WinnerAgent k else OwnerAgent k)"

fun fin_rank :: "fin_pc \<Rightarrow> nat" where
  "fin_rank (FinCount started) = 4"
| "fin_rank (FinCapacity terminated) = 3"
| "fin_rank FinMonitor = 2"
| "fin_rank FinNotify = 1"
| "fin_rank FinDone = 0"

definition rank_at :: "bool \<Rightarrow> usize \<Rightarrow> csys \<Rightarrow> nat" where
  "rank_at w k s = (case tasks s k of None \<Rightarrow> 0 | Some t \<Rightarrow>
     (if w then case_option 0 fin_rank (winner t)
      else case owner t of Finishing f \<Rightarrow> fin_rank f | _ \<Rightarrow> 0))"

lemma rank_at [simp]: "tasks s k = Some t \<Longrightarrow> fin_at w t f \<Longrightarrow> rank_at w k s = fin_rank f"
  by (auto simp: rank_at_def fin_at_def split: if_splits)

lemma fin_rank_zero [simp]: "fin_rank f = 0 \<longleftrightarrow> f = FinDone" "0 < fin_rank f \<longleftrightarrow> f \<noteq> FinDone"
  by (cases f; simp)+

lemma fin_step_rank: "fin_step dbg f s f' s1 \<Longrightarrow> fin_rank f' < fin_rank f"
  by (erule fin_step.cases) auto

lemma fin_step_tells:
  "fin_step dbg f s f' s1 \<Longrightarrow> will b f \<Longrightarrow> will b f' \<or> told b s s1"
  by (erule fin_step.cases) (auto simp: will_def told_def split: if_splits)

lemma fin_enabled:
  assumes "cinv s" and "tasks s k = Some t" and "fin_at w t f" and "f \<noteq> FinDone"
    and "(\<exists>b. f = FinCount b) \<Longrightarrow> monitor s = None"
  shows "\<exists>s'. cact dbg (fin_agent w k) s s'"
proof -
  have "\<exists>f' s1. fin_step dbg f s f' s1"
  proof (cases f)
    case (FinCount b)
    have "finish_task_section dbg b (svc s) \<noteq> None"
      using cinv_no_panic [OF assms(1), of dbg] assms(2,3) FinCount
      unfolding about_to_panic_def fin_at_def by (metis (full_types))
    with fin_count [OF assms(5), of dbg b] FinCount show ?thesis by auto
  qed (use assms(4) fin_capacity fin_monitor fin_notify in blast)+
  then obtain f' s1 where step: "fin_step dbg f s f' s1" by blast
  then have "f' \<noteq> f" using fin_step_rank by blast
  then show ?thesis
    using assms(2,3) owner_finish [OF assms(2) _ step] winner_finish [OF assms(2) _ step]
    by (cases w) (auto simp: fin_agent_def fin_at_def fin_step_frame [OF step] intro!: exI)
qed

lemma fin_keeps:
  assumes step: "cstep dbg s s'" and inv: "cinv s" and t: "tasks s k = Some t" "fin_at w t f"
    and live: "f \<noteq> FinDone \<or> (\<exists>j pc. threads s j = Some pc \<and> k \<in> mentions pc)"
  shows "\<exists>t'. tasks s' k = Some t' \<and> (fin_at w t' f \<or>
    (\<exists>f' s1. fin_step dbg f s f' s1 \<and> threads s' = threads s1 \<and> fin_at w t' f'))"
proof -
  note ok = task_okD [OF inv_tasksD(2) [OF cinvD(2) [OF inv] t(1)]]
  from step show ?thesis
  proof (cases rule: cstep.cases)
    case by_task
    then show ?thesis using t ok(2,3)
      by (cases rule: task_step.cases; cases w) (auto simp: fin_at_def fin_step_frame)
  next
    case by_holder
    then show ?thesis
    proof (cases rule: holder_step.cases)
      case (submit_unlock j u)
      then have "owner u = Admitted" using inv_tasksD(3) [OF cinvD(2) [OF inv], of j u] by simp
      with submit_unlock t show ?thesis by (auto simp: fin_at_def)
    qed (use t in auto)
  next
    case by_canceller
    then show ?thesis using t ok(2,3) by (cases rule: canceller_step.cases) (auto simp: fin_at_def)
  next
    case by_closer
    then show ?thesis using t ok(2,3) by (cases rule: closer_step.cases) (auto simp: fin_at_def)
  next
    case by_waiter
    then show ?thesis using t by (cases rule: waiter_step.cases) auto
  next
    case by_reclaim
    then show ?thesis using t live by (cases rule: reclaim_step.cases) (auto simp: fin_at_def split: if_splits)
  qed
qed

lemma fin_acts:
  assumes "cact dbg (fin_agent w k) s s'" and "tasks s k = Some t" and "fin_at w t f"
  shows "\<forall>t'. tasks s' k = Some t' \<longrightarrow> \<not> fin_at w t' f"
  using assms by (cases w) (auto simp: fin_agent_def fin_at_def)

text \<open>A finishing task that is to wake the parked waiters does.\<close>

lemma told_wakes: "told b s s' \<Longrightarrow> threads s i = Some (waits b) \<Longrightarrow> threads s' i = Some (woken b)"
  by (simp add: told_def)

abbreviation svc_fair_execution :: "bool \<Rightarrow> (nat \<Rightarrow> csys) \<Rightarrow> bool" where
  "svc_fair_execution dbg \<equiv> fair_execution (cstep dbg) (cact dbg)"

lemma finisher_wakes:
  assumes fair: "svc_fair_execution dbg \<sigma>" and live: "clive (\<sigma> n)"
    and parked: "threads (\<sigma> n) i = Some (waits b)"
    and fin: "tasks (\<sigma> n) k = Some t" "fin_at w t f" "will b f"
  shows "\<exists>m\<ge>n. threads (\<sigma> m) i = Some (woken b)"
proof (rule svc_fair.leads_to_by [OF fair live, where a = "fin_agent w k"
    and P = "\<lambda>s. threads s i = Some (waits b) \<and> (\<exists>t f. tasks s k = Some t \<and> fin_at w t f \<and> will b f)"
    and rank = "rank_at w k"])
  fix s s'
  assume live: "clive s" and P: "threads s i = Some (waits b) \<and>
      (\<exists>t f. tasks s k = Some t \<and> fin_at w t f \<and> will b f)"
  then obtain t f where t: "tasks s k = Some t" "fin_at w t f" "will b f"
    and i: "threads s i = Some (waits b)" by blast
  have nd: "f \<noteq> FinDone" and nc: "\<not> (\<exists>b. f = FinCount b)" using t(3) by (auto simp: will_def split: if_splits)
  have keeps: "threads s' i = Some (woken b) \<or> (threads s' i = Some (waits b) \<and>
      (\<exists>t' f'. tasks s' k = Some t' \<and> fin_at w t' f' \<and> will b f' \<and> (f' = f \<or> fin_rank f' < fin_rank f)))"
    if step: "cstep dbg s s'"
  proof -
    obtain t' where t': "tasks s' k = Some t'" and "fin_at w t' f \<or>
        (\<exists>f' s1. fin_step dbg f s f' s1 \<and> threads s' = threads s1 \<and> fin_at w t' f')"
      using fin_keeps [OF step cliveD(1) [OF live] t(1,2)] nd by blast
    then show ?thesis
    proof (elim disjE exE conjE)
      assume "fin_at w t' f"
      with t' t(3) parked_step [OF step i] show ?thesis by blast
    next
      fix f' s1 assume fs: "fin_step dbg f s f' s1" "threads s' = threads s1" "fin_at w t' f'"
      then show ?thesis
        using fin_step_tells [OF fs(1) t(3)] fin_step_rank [OF fs(1)] told_wakes [OF _ i] parked_step [OF step i] t'
        by (metis (no_types, lifting) insertE singletonD)
    qed
  qed
  show "threads s' i = Some (woken b) \<or> (threads s' i = Some (waits b) \<and>
      (\<exists>t f. tasks s' k = Some t \<and> fin_at w t f \<and> will b f)) \<and>
      rank_at w k s' \<le> rank_at w k s" if "cstep dbg s s'"
    using keeps [OF that] t(1,2) by auto
  show "threads s' i = Some (woken b) \<or> rank_at w k s' < rank_at w k s"
    if act: "cact dbg (fin_agent w k) s s'"
    using keeps [OF svc_fair.act_step [OF act]] fin_acts [OF act t(1,2)] t(1,2) by auto
  show "\<exists>s'. cact dbg (fin_agent w k) s s'"
    using fin_enabled [OF cliveD(1) [OF live] t(1,2) nd] nc by blast
qed (use parked fin in blast)

section \<open>The monitor is released\<close>

fun inside_rank :: "thread_pc \<Rightarrow> nat" where
  "inside_rank WaitEval = 1"
| "inside_rank pc = 0"

lemma inside_keeps:
  assumes "cstep dbg s s'" and "inv_monitor s" and "threads s i = Some pc" and "inside (Some pc)"
  shows "threads s' i = Some pc \<or> monitor s' = None \<or>
    (\<exists>l. pc = WaitEval \<and> threads s' i = Some (WaitEmpty l))"
  using assms(1)
proof (cases rule: cstep.cases)
  case by_task
  then show ?thesis using assms(3,4)
    by (elim task_stepE fin_step.cases) (auto elim!: inside.elims)
next
  case by_holder
  then show ?thesis using assms(3,4) by (elim holder_stepE) auto
next
  case by_canceller
  then show ?thesis using assms(3,4) by (elim canceller_stepE) auto
next
  case by_closer
  then show ?thesis using assms(3,4) by (elim closer_stepE) (auto elim!: inside.elims)
next
  case by_waiter
  then show ?thesis using assms(3,4) by (elim waiter_stepE) (auto elim!: inside.elims)
next
  case by_reclaim
  then show ?thesis using assms(3,4) by (elim reclaim_stepE) auto
qed

lemma monitor_freed:
  assumes fair: "svc_fair_execution dbg \<sigma>" and live: "clive (\<sigma> n)"
  shows "\<exists>m\<ge>n. monitor (\<sigma> m) = None"
proof (cases "monitor (\<sigma> n)")
  case None
  then show ?thesis by blast
next
  case (Some i)
  then have inside: "inside (threads (\<sigma> n) i)" using cinvD(7) [OF cliveD(1) [OF live]] by (metis inv_monitor_def)
  show ?thesis
  proof (rule svc_fair.leads_to_by [OF fair live, where a = "SvcThread i"
      and P = "\<lambda>s. inside (threads s i)" and rank = "\<lambda>s. inside_rank (the (threads s i))"])
    fix s s'
    assume live: "clive s" and "inside (threads s i)"
    then obtain pc where pc: "threads s i = Some pc" "inside (Some pc)" by (cases "threads s i") auto
    show "monitor s' = None \<or> inside (threads s' i) \<and>
        inside_rank (the (threads s' i)) \<le> inside_rank (the (threads s i))" if step: "cstep dbg s s'"
      using inside_keeps [OF step cinvD(7) [OF cliveD(1) [OF live]] pc] pc by auto
    show "monitor s' = None \<or> inside_rank (the (threads s' i)) < inside_rank (the (threads s i))"
      if act: "cact dbg (SvcThread i) s s'"
      using inside_keeps [OF svc_fair.act_step [OF act] cinvD(7) [OF cliveD(1) [OF live]] pc] pc act
      by (auto simp: cmoves_def)
    show "\<exists>s'. cact dbg (SvcThread i) s s'"
    proof (cases pc)
      case WaitEval
      with wait_lifecycle [of s i] pc show ?thesis by (auto simp: cmoves_def intro!: exI)
    next
      case (WaitEmpty l)
      with wait_ready [of s i l] wait_park [of s i l] pc show ?thesis
        by (cases "l \<noteq> Running \<and> is_empty (task_counts (svc s))") (auto simp: cmoves_def intro!: exI)
    qed (use pc in auto)
  qed (rule inside)
qed

section \<open>A closing thread\<close>

text \<open>
  How far a stop or shutdown has to go: its part of the code, the handles it has to visit,
  and, while it waits for the accounting of a task it cancelled, that task's winner, who
  then is the one to act.
\<close>

fun closer_rank :: "thread_pc \<Rightarrow> nat \<times> nat" where
  "closer_rank (StopTake q r) = (4, 0)"
| "closer_rank (StopLoop q r ks n) = (3, 3 * List.length ks)"
| "closer_rank (StopHook q r k ks n) = (3, 3 * List.length ks + 2)"
| "closer_rank (StopHookWait q r k ks n) = (3, 3 * List.length ks + 1)"
| "closer_rank (CloseCapacity rep) = (2, 0)"
| "closer_rank (CloseCheck rep) = (1, 0)"
| "closer_rank (CloseMonitor rep) = (0, 1)"
| "closer_rank pc = (0, 0)"

fun awaited_rank :: "csys \<Rightarrow> thread_pc \<Rightarrow> nat" where
  "awaited_rank s (StopHookWait q r k ks n) = rank_at True k s"
| "awaited_rank s pc = 0"

definition closer_agent :: "nat \<Rightarrow> csys \<Rightarrow> svc_agent" where
  "closer_agent j s = (case threads s j of
     Some (StopHookWait q r k ks n) \<Rightarrow> if 0 < rank_at True k s then WinnerAgent k else SvcThread j
   | _ \<Rightarrow> SvcThread j)"

lemma willc_simps [simp]:
  "willc b (StopTake q r)" "willc b (StopLoop q r ks n)" "willc b (StopHook q r k ks n)"
  "willc b (StopHookWait q r k ks n)" "willc b (CloseCapacity rep)" "willc b (CloseCheck rep)"
  "willc b (CloseMonitor rep)" "willc b (CloseNotify rep) = b"
  by (simp_all add: willc_def kind_defs)

lemma willc_cases [consumes 1]:
  assumes "willc b pc"
  obtains q r where "pc = StopTake q r" | q r ks n where "pc = StopLoop q r ks n"
    | q r k ks n where "pc = StopHook q r k ks n" | q r k ks n where "pc = StopHookWait q r k ks n"
    | rep where "pc = CloseCapacity rep" | rep where "pc = CloseCheck rep"
    | rep where "pc = CloseMonitor rep" | rep where "pc = CloseNotify rep" "b"
  using assms by (cases pc) (auto simp: willc_def kind_defs split: if_splits)

lemma willc_closing: "willc b pc \<Longrightarrow> closing_pc pc"
  by (auto simp: willc_def closing_pc_def kind_defs split: if_splits)

lemma closing_wake [simp]:
  "closing_pc pc \<Longrightarrow> wake_monitor pc = pc" "closing_pc pc \<Longrightarrow> wake_notified pc = pc"
  "closing_pc pc \<Longrightarrow> wake_producer pc = pc"
  by (cases pc; simp)+

lemma closer_unmoved_task:
  "task_step dbg s s' \<Longrightarrow> threads s j = Some pc \<Longrightarrow> closing_pc pc \<Longrightarrow> threads s' j = Some pc"
  by (elim task_stepE fin_step.cases) auto

lemma closer_keeps:
  assumes "cstep dbg s s'" and "is_terminated_state (svc s)" and "threads s j = Some pc" and "willc b pc"
  shows "told b s s' \<or> threads s' j = Some pc \<or>
    (\<exists>pc'. threads s' j = Some pc' \<and> willc b pc' \<and> closer_rank pc' < closer_rank pc)"
  using assms(1)
proof (cases rule: cstep.cases)
  case by_closer
  then show ?thesis
    using assms(2-4) willc_closing [OF assms(4)]
    by (cases rule: closer_step.cases) (auto simp: told_def less_prod_def)
qed (simp_all add: closer_unmoved [OF _ assms(3) willc_closing [OF assms(4)]]
    closer_unmoved_task [OF _ assms(3) willc_closing [OF assms(4)]])

lemma awaited_keeps:
  assumes "cstep dbg s s'" and "cinv s" and "threads s j = Some pc"
  shows "awaited_rank s' pc \<le> awaited_rank s pc"
proof (cases "waits_for pc")
  case None
  then show ?thesis by (cases pc) auto
next
  case (Some k)
  then have k: "has_winner s k" "k \<in> mentions pc"
    using cinvD(5) [OF assms(2)] assms(3) waits_for_mentions by (auto simp: inv_refs_def)
  obtain t f where t: "tasks s k = Some t" "fin_at True t f" using k(1) by (auto simp: has_winner_def fin_at_def)
  obtain t' f' where t': "tasks s' k = Some t'" "fin_at True t' f'" "f' = f \<or> fin_rank f' < fin_rank f"
    using fin_keeps [OF assms(1,2) t] k(2) assms(3) fin_step_rank by metis
  have "rank_at True k s' \<le> rank_at True k s" using t t' by auto
  with Some show ?thesis by (cases pc) auto
qed

text \<open>Nothing but the monitor can hold up a closing thread, or the winner it waits for.\<close>

lemma closer_enabled:
  assumes live: "clive s" and pc: "threads s j = Some pc" "willc b pc" and free: "monitor s = None"
  shows "\<exists>s'. cact dbg (closer_agent j s) s s'"
proof -
  note inv = cliveD(1) [OF live]
  have move: "\<exists>s'. cact dbg (closer_agent j s) s s'"
    if "closer_agent j s = SvcThread j" "closer_step dbg s s'" "threads s' j \<noteq> Some pc" for s'
    using that pc(1) closing_wake [OF willc_closing [OF pc(2)]] by (auto simp: cmoves_def)
  have refs: "mentions pc \<subseteq> dom (tasks s)" by (rule inv_refsD [OF cinvD(5) [OF inv] pc(1)])
  from pc(2) show ?thesis
  proof (cases rule: willc_cases)
    case (1 q r)
    have "dom (abort_handles (svc s)) \<subseteq> dom (tasks s)"
    proof
      fix k assume "k \<in> dom (abort_handles (svc s))"
      then obtain a where "abort_handles (svc s) k = Some a" by blast
      then show "k \<in> dom (tasks s)" using cinvD(4) [OF inv] unfolding inv_handles_def by blast
    qed
    from finite_distinct_list [OF finite_subset [OF this inv_tasksD(1) [OF cinvD(2) [OF inv]]]]
    obtain ks where ks: "set ks = dom (abort_handles (svc s))" "distinct ks" by blast
    show ?thesis by (intro move [OF _ stop_take [OF pc(1) [unfolded 1] ks(2,1)]])
        (simp_all add: closer_agent_def pc(1) 1)
  next
    case (2 q r ks n)
    show ?thesis
    proof (cases ks)
      case Nil
      show ?thesis by (intro move [OF _ stop_loop_end [OF pc(1) [unfolded 2 Nil]]])
        (simp_all add: closer_agent_def pc(1) 2)
    next
      case (Cons k ks')
      show ?thesis by (intro move [OF _ stop_skip [OF pc(1) [unfolded 2 Cons]]])
        (simp_all add: closer_agent_def pc(1) 2 Cons)
    qed
  next
    case (3 q r k ks n)
    obtain t where t: "tasks s k = Some t" using refs 3 by auto
    show ?thesis
    proof (cases "task_state (tracker t) = TASK_STATE_QUEUED")
      case True
      then show ?thesis by (intro move [OF _ stop_hook_won [OF pc(1) [unfolded 3] t]])
        (simp_all add: closer_agent_def pc(1) 3)
    next
      case False
      then show ?thesis by (intro move [OF _ stop_hook_lost [OF pc(1) [unfolded 3] t]])
        (simp_all add: closer_agent_def pc(1) 3)
    qed
  next
    case (4 q r k ks n)
    obtain t f where t: "tasks s k = Some t" "winner t = Some f"
      using cinvD(5) [OF inv] pc(1) 4 by (fastforce simp: inv_refs_def has_winner_def)
    then have f: "fin_at True t f" by (simp add: fin_at_def)
    show ?thesis
    proof (cases "f = FinDone")
      case True
      have "about_to_panic dbg s" if "add_assign dbg n 1 = None"
        using that pc(1) unfolding about_to_panic_def 4 by blast
      then obtain m where m: "add_assign dbg n 1 = Some m"
        using cinv_no_panic [OF inv] by blast
      show ?thesis by (intro move [OF _ stop_hook_waited [OF pc(1) [unfolded 4] t(1) t(2) [unfolded True] m]])
        (simp_all add: closer_agent_def pc(1) 4 rank_at [OF t(1) f] True)
    next
      case False
      with fin_enabled [OF inv t(1) f False, of dbg] free 4 pc t f show ?thesis
        by (simp add: closer_agent_def fin_agent_def)
    qed
  next
    case (5 rep)
    show ?thesis by (intro move [OF _ close_capacity [OF pc(1) [unfolded 5]]])
        (simp_all add: closer_agent_def pc(1) 5)
  next
    case (6 rep)
    show ?thesis by (intro move [OF _ close_check [OF pc(1) [unfolded 6] free]])
        (simp_all add: closer_agent_def pc(1) 6)
  next
    case (7 rep)
    show ?thesis by (intro move [OF _ close_monitor [OF pc(1) [unfolded 7]]])
        (simp_all add: closer_agent_def pc(1) 7)
  next
    case (8 rep)
    show ?thesis by (intro move [OF _ close_notify [OF pc(1) [unfolded 8(1)]]])
        (simp_all add: closer_agent_def pc(1) 8)
  qed
qed

definition closing_on :: "nat \<Rightarrow> bool \<Rightarrow> nat \<Rightarrow> csys \<Rightarrow> thread_pc \<Rightarrow> bool" where
  "closing_on i b j s pc \<longleftrightarrow> is_terminated_state (svc s) \<and> threads s i = Some (waits b) \<and>
     threads s j = Some pc \<and> willc b pc"

lemma closing_on_step:
  assumes step: "cstep dbg s s'" and live: "clive s" and on: "closing_on i b j s pc"
  shows "threads s' i = Some (woken b) \<or> (\<exists>pc'. closing_on i b j s' pc' \<and>
    (pc' = pc \<and> awaited_rank s' pc \<le> awaited_rank s pc \<or> closer_rank pc' < closer_rank pc))"
  using closer_keeps [OF step] parked_step [OF step] awaited_keeps [OF step cliveD(1) [OF live]]
    ended_step [OF step live] told_wakes on
  unfolding closing_on_def by (metis insertE singletonD)

lemma closer_acts:
  assumes act: "cact dbg (closer_agent j s) s s'" and inv: "cinv s" and pc: "threads s j = Some pc"
  shows "threads s' j \<noteq> Some pc \<or> awaited_rank s' pc < awaited_rank s pc"
proof (cases "closer_agent j s")
  case (SvcThread k)
  then have "k = j" by (auto simp: closer_agent_def split: option.splits thread_pc.splits if_splits)
  with act SvcThread pc show ?thesis by (auto simp: cmoves_def)
next
  case (WinnerAgent k)
  then obtain q r ks n where w: "pc = StopHookWait q r k ks n" using pc
    by (auto simp: closer_agent_def split: thread_pc.splits if_splits)
  have step: "cstep dbg s s'" by (rule svc_fair.act_step [OF act])
  obtain t f where t: "tasks s k = Some t" "fin_at True t f"
    using cinvD(5) [OF inv] pc w by (fastforce simp: inv_refs_def has_winner_def fin_at_def)
  have act': "cact dbg (fin_agent True k) s s'" using act WinnerAgent by (simp add: fin_agent_def)
  obtain t' f' where "tasks s' k = Some t'" "fin_at True t' f'" "fin_rank f' < fin_rank f"
    using fin_keeps [OF step inv t] fin_acts [OF act' t] fin_step_rank pc w by fastforce
  with t w show ?thesis by simp
qed (auto simp: closer_agent_def split: option.splits thread_pc.splits if_splits)

abbreviation svc_strongly_fair :: "bool \<Rightarrow> (nat \<Rightarrow> csys) \<Rightarrow> bool" where
  "svc_strongly_fair dbg \<equiv> strongly_fair_execution (cstep dbg) (cact dbg)"

lemma svc_closer_wakes:
  assumes fair: "svc_strongly_fair dbg \<sigma>" and live: "clive (\<sigma> n)" and on: "closing_on i b j (\<sigma> n) pc"
  shows "\<exists>m\<ge>n. threads (\<sigma> m) i = Some (woken b)"
proof (rule svc_fair.leads_to_strongly [OF fair live, where h = "closer_agent j"
    and P = "\<lambda>s. \<exists>pc. closing_on i b j s pc" and R = "\<lambda>s. monitor s = None"
    and rank = "\<lambda>s. (closer_rank (the (threads s j)), awaited_rank s (the (threads s j)))"])
  fix s s'
  let ?rank = "\<lambda>s. (closer_rank (the (threads s j)), awaited_rank s (the (threads s j)))"
  assume live: "clive s" and "\<exists>pc. closing_on i b j s pc"
  then obtain pc where on: "closing_on i b j s pc" by blast
  then have pc: "threads s j = Some pc" "willc b pc" by (simp_all add: closing_on_def)
  have moves: "threads s' i = Some (woken b) \<or> (\<exists>pc. closing_on i b j s' pc) \<and>
      (?rank s' < ?rank s \<or> threads s' j = Some pc \<and> awaited_rank s' pc = awaited_rank s pc)"
    if step: "cstep dbg s s'"
    using closing_on_step [OF step live on]
  proof (elim disjE exE conjE)
    fix pc' assume on': "closing_on i b j s' pc'" and "pc' = pc" "awaited_rank s' pc \<le> awaited_rank s pc"
    then show ?thesis using pc(1) by (cases "awaited_rank s' pc = awaited_rank s pc") (auto simp: closing_on_def less_prod_simp)
  next
    fix pc' assume on': "closing_on i b j s' pc'" and "closer_rank pc' < closer_rank pc"
    then have "?rank s' < ?rank s" using pc(1) by (simp add: closing_on_def less_prod_simp)
    with on' show ?thesis by blast
  qed simp
  have same: "?rank s' = ?rank s \<and> closer_agent j s' = closer_agent j s"
    if "threads s' j = Some pc" "awaited_rank s' pc = awaited_rank s pc"
    using that pc(1) by (cases pc) (simp_all add: closer_agent_def)
  show "threads s' i = Some (woken b) \<or> (\<exists>pc. closing_on i b j s' pc) \<and>
      (?rank s' < ?rank s \<or> ?rank s' = ?rank s \<and> closer_agent j s' = closer_agent j s)"
    if step: "cstep dbg s s'" using moves [OF step] same by blast
  show "threads s' i = Some (woken b) \<or> ?rank s' < ?rank s" if act: "cact dbg (closer_agent j s) s s'"
    using moves [OF svc_fair.act_step [OF act]] closer_acts [OF act cliveD(1) [OF live] pc(1)] by auto
  show "\<exists>s'. cact dbg (closer_agent j s) s s'" if "monitor s = None"
    by (rule closer_enabled [OF live pc that])
next
  fix n assume "clive (\<sigma> n)"
  then show "\<exists>m\<ge>n. monitor (\<sigma> m) = None" by (rule monitor_freed [OF strongly_fair [OF fair]])
qed (use on in blast)

section \<open>The holder of the lock, after its store of the lifecycle\<close>

fun svc_closing_rank :: "holder_pc \<Rightarrow> nat" where
  "svc_closing_rank StopSnapshot = 1"
| "svc_closing_rank h = 0"

lemma svc_closing_keeps:
  assumes "cstep dbg s s'" and "closing_holder (holder s)" and "inv_lock s"
  shows "holder s' = holder s \<or> has_thread before_check s' \<or>
    closing_holder (holder s') \<and> svc_closing_rank (holder s') < svc_closing_rank (holder s)"
  using assms(1)
proof (cases rule: cstep.cases)
  case by_holder
  then show ?thesis
    by (cases rule: holder_step.cases)
      (use assms(2,3) in \<open>auto simp: inv_lock_def has_thread_def kind_defs split: if_splits\<close>)
qed (simp_all add: task_step_holder others_keep_holder)

lemma svc_closing_moves:
  assumes "clive s" and "closing_holder (holder s)" and free: "monitor s = None"
  shows "\<exists>s'. cact dbg LockAgent s s'"
proof -
  obtain i where i: "threads s i = None"
    using ex_new_if_finite [OF infinite_UNIV_nat cliveD(2) [OF assms(1)]] by blast
  show ?thesis
  proof (cases "holder s")
    case ShutdownUnlock
    with shutdown_unlock [OF this i, of dbg] show ?thesis by auto
  next
    case StopSnapshot
    obtain q r where "task_count_snapshot (svc s) = (q, r)" by fastforce
    with stop_snapshot [OF StopSnapshot free this, of dbg] StopSnapshot show ?thesis by auto
  next
    case (StopUnlock q r)
    with stop_unlock [OF this i, of dbg] show ?thesis by auto
  qed (use assms(2) in simp_all)
qed

lemma svc_closing_hands_over:
  assumes fair: "svc_strongly_fair dbg \<sigma>" and live: "clive (\<sigma> n)"
    and parked: "threads (\<sigma> n) i = Some (waits b)" and closing: "closing_holder (holder (\<sigma> n))"
  shows "\<exists>m\<ge>n. threads (\<sigma> m) i = Some (woken b) \<or>
    threads (\<sigma> m) i = Some (waits b) \<and> has_thread before_check (\<sigma> m)"
proof (rule svc_fair.leads_to_strongly [OF fair live, where h = "\<lambda>s. LockAgent"
    and P = "\<lambda>s. threads s i = Some (waits b) \<and> closing_holder (holder s)"
    and R = "\<lambda>s. monitor s = None" and rank = "\<lambda>s. svc_closing_rank (holder s)"])
  fix s s'
  assume live: "clive s" and P: "threads s i = Some (waits b) \<and> closing_holder (holder s)"
  note lock = cinvD(1) [OF cliveD(1) [OF live]]
  show stays: "(threads s' i = Some (woken b) \<or> threads s' i = Some (waits b) \<and> has_thread before_check s') \<or>
      (threads s' i = Some (waits b) \<and> closing_holder (holder s')) \<and>
      (svc_closing_rank (holder s') < svc_closing_rank (holder s) \<or>
       svc_closing_rank (holder s') = svc_closing_rank (holder s) \<and> LockAgent = LockAgent)" if "cstep dbg s s'"
    using svc_closing_keeps [OF that _ lock] parked_step [OF that, of i b] P by (auto simp del: waits.simps woken.simps)
  show "(threads s' i = Some (woken b) \<or> threads s' i = Some (waits b) \<and> has_thread before_check s') \<or>
      svc_closing_rank (holder s') < svc_closing_rank (holder s)" if act: "cact dbg LockAgent s s'"
  proof -
    have "holder s' \<noteq> holder s"
      using act P lock by (auto elim!: holder_stepE simp: inv_lock_def)
    then show ?thesis
      using svc_closing_keeps [OF svc_fair.act_step [OF act] _ lock] parked_step [OF svc_fair.act_step [OF act], of i b] P
      by (auto simp del: waits.simps woken.simps)
  qed
  show "\<exists>s'. cact dbg LockAgent s s'" if "monitor s = None"
    using svc_closing_moves [OF live _ that] P by blast
next
  fix n assume "clive (\<sigma> n)"
  then show "\<exists>m\<ge>n. monitor (\<sigma> m) = None" by (rule monitor_freed [OF strongly_fair [OF fair]])
qed (use parked closing in blast)

section \<open>A parked waiter is woken\<close>

lemma ended_execution:
  assumes "svc_fair_execution dbg \<sigma>" and "clive (\<sigma> n)" and "is_terminated_state (svc (\<sigma> n))" and "n \<le> m"
  shows "is_terminated_state (svc (\<sigma> m))"
  using assms(4)
proof (induction m rule: dec_induct)
  case (step m)
  then show ?case
    using fair_executionD(1) [OF assms(1), of m] svc_fair.ok_execution [OF assms(1,2) step(1)] ended_step
    by metis
qed (rule assms(3))

lemma pending_wakes:
  assumes fair: "svc_strongly_fair dbg \<sigma>" and live: "clive (\<sigma> n)"
    and ended: "is_terminated_state (svc (\<sigma> n))" and parked: "threads (\<sigma> n) i = Some (waits b)"
    and pending: "has_thread before_check (\<sigma> n) \<or> (if b then pend_not (\<sigma> n) else pend_mon (\<sigma> n))"
  shows "\<exists>m\<ge>n. threads (\<sigma> m) i = Some (woken b)"
proof -
  consider j pc where "threads (\<sigma> n) j = Some pc" "willc b pc"
    | k t f w where "tasks (\<sigma> n) k = Some t" "fin_at w t f" "will b f"
    using pending unfolding pend_not_def pend_mon_def has_fin_def has_thread_def fin_at_def will_def willc_def
    by (cases b; simp; metis (full_types))
  then show ?thesis
  proof cases
    case 1
    with svc_closer_wakes [OF fair live, of i b] ended parked show ?thesis unfolding closing_on_def by blast
  next
    case 2
    from finisher_wakes [OF strongly_fair [OF fair] live parked 2] show ?thesis .
  qed
qed

lemma svc_parked_woken:
  assumes fair: "svc_strongly_fair dbg \<sigma>" and live: "clive (\<sigma> n)"
    and ended: "is_terminated_state (svc (\<sigma> n))" and parked: "threads (\<sigma> n) i = Some (waits b)"
  shows "\<exists>m\<ge>n. threads (\<sigma> m) i = Some (woken b)"
proof -
  have "wait_ok (\<sigma> n) (waits b)" using cinvD(8) [OF cliveD(1) [OF live]] parked by (simp add: inv_wait_def)
  with ended have "closing_holder (holder (\<sigma> n)) \<or> has_thread before_check (\<sigma> n) \<or>
      (if b then pend_not (\<sigma> n) else pend_mon (\<sigma> n))"
    by (cases b) (auto simp: pend_check_def)
  moreover have ?thesis if "closing_holder (holder (\<sigma> n))"
  proof -
    from svc_closing_hands_over [OF fair live parked that] obtain m where m: "n \<le> m"
      "threads (\<sigma> m) i = Some (woken b) \<or> threads (\<sigma> m) i = Some (waits b) \<and> has_thread before_check (\<sigma> m)"
      by blast
    note weak = strongly_fair [OF fair]
    from pending_wakes [OF fair svc_fair.ok_execution [OF weak live m(1)] ended_execution [OF weak live ended m(1)]]
      m order_trans show ?thesis by metis
  qed
  ultimately show ?thesis using pending_wakes [OF fair live ended parked] by blast
qed

section \<open>A waiter that is not parked\<close>

fun svc_settled :: "bool \<Rightarrow> thread_pc \<Rightarrow> bool" where
  "svc_settled b WaitLock = (\<not> b)"
| "svc_settled b WaitEval = (\<not> b)"
| "svc_settled b (WaitEmpty l) = (\<not> b \<and> l \<noteq> Running)"
| "svc_settled b (AwaitEnable n) = b"
| "svc_settled b (AwaitLoad n) = b"
| "svc_settled b (AwaitEmpty n l) = (b \<and> l \<noteq> Running)"
| "svc_settled b (AwaitParked n) = (b \<and> n)"
| "svc_settled b pc = False"

fun returned :: "bool \<Rightarrow> thread_pc" where
  "returned b = (if b then AwaitReturned else WaitReturned)"

fun wait_rank :: "thread_pc \<Rightarrow> nat" where
  "wait_rank WaitLock = 2"
| "wait_rank WaitEval = 1"
| "wait_rank (AwaitParked n) = 3"
| "wait_rank (AwaitEnable n) = 2"
| "wait_rank (AwaitLoad n) = 1"
| "wait_rank pc = 0"

lemma svc_settled_wake [simp]:
  "svc_settled b pc \<Longrightarrow> wake_monitor pc = pc" "svc_settled b pc \<Longrightarrow> wake_producer pc = pc"
  "svc_settled b pc \<Longrightarrow> svc_settled b (wake_notified pc)" "svc_settled b pc \<Longrightarrow> wait_rank (wake_notified pc) = wait_rank pc"
  by (cases pc; simp)+

lemma settled_unmoved [simp]:
  "\<not> svc_settled b (CancelMark k)" "\<not> svc_settled b (CancelRemove k)" "\<not> svc_settled b (CancelCas k)"
  by simp_all

definition settles :: "bool \<Rightarrow> thread_pc \<Rightarrow> thread_pc option \<Rightarrow> bool" where
  "settles b pc p \<longleftrightarrow> p = Some (returned b) \<or> (\<exists>pc'. p = Some pc' \<and> svc_settled b pc' \<and>
     (pc' = pc \<or> pc' = wake_notified pc \<and> wait_rank pc' = wait_rank pc \<or> wait_rank pc' < wait_rank pc))"

lemma svc_settled_keeps:
  assumes "cstep dbg s s'" and "is_terminated_state (svc s)" and "threads s i = Some pc" and "svc_settled b pc"
  shows "settles b pc (threads s' i)"
  using assms(1)
proof (cases rule: cstep.cases)
  case by_task
  then show ?thesis using assms(3,4) by (elim task_stepE fin_step.cases) (auto simp: settles_def)
next
  case by_holder
  then show ?thesis using assms(3,4) by (elim holder_stepE) (auto simp: settles_def)
next
  case by_canceller
  then show ?thesis using assms(3,4) by (elim canceller_stepE) (auto simp: settles_def)
next
  case by_closer
  then show ?thesis using assms(3,4) by (elim closer_stepE) (auto simp: settles_def)
next
  case by_waiter
  then show ?thesis using assms(2-4)
    by (elim waiter_stepE)
      (auto simp: settles_def is_terminated_state_def is_not_running_def terminated_view_def)
next
  case by_reclaim
  then show ?thesis using assms(3,4) by (elim reclaim_stepE) (auto simp: settles_def)
qed

lemma settled_enabled:
  assumes ended: "is_terminated_state (svc s)" and pc: "threads s i = Some pc" "svc_settled b pc"
    and free: "monitor s = None"
  shows "\<exists>s'. cact dbg (SvcThread i) s s'"
proof -
  have move: "\<exists>s'. cact dbg (SvcThread i) s s'"
    if "waiter_step s s'" "threads s' i \<noteq> Some pc" "threads s' i \<noteq> Some (wake_notified pc)" for s'
    using that pc by (auto simp: cmoves_def)
  show ?thesis
  proof (cases pc)
    case WaitLock
    show ?thesis by (rule move [OF wait_enter [OF pc(1) [unfolded WaitLock] free]]) (simp_all add: WaitLock)
  next
    case WaitEval
    show ?thesis by (rule move [OF wait_lifecycle [OF pc(1) [unfolded WaitEval]]]) (simp_all add: WaitEval)
  next
    case (WaitEmpty l)
    have "l \<noteq> Running \<and> is_empty (task_counts (svc s))"
      using ended pc(2) WaitEmpty by (simp add: is_terminated_state_def)
    from wait_ready [OF pc(1) [unfolded WaitEmpty] this] show ?thesis
      by (rule move) (simp_all add: WaitEmpty)
  next
    case (AwaitEnable n)
    show ?thesis by (rule move [OF await_enable [OF pc(1) [unfolded AwaitEnable]]]) (simp_all add: AwaitEnable)
  next
    case (AwaitLoad n)
    show ?thesis by (rule move [OF await_load [OF pc(1) [unfolded AwaitLoad]]]) (simp_all add: AwaitLoad)
  next
    case (AwaitEmpty n l)
    have "terminated_view l (svc s) = Terminated"
      using ended pc(2) AwaitEmpty by (simp add: is_terminated_state_def terminated_view_def)
    from await_ready [OF pc(1) [unfolded AwaitEmpty] free this] show ?thesis
      by (rule move) (simp_all add: AwaitEmpty)
  next
    case (AwaitParked n)
    then have "threads s i = Some (AwaitParked True)" using pc by simp
    from await_wake [OF this] show ?thesis by (rule move) (simp_all add: AwaitParked)
  qed (use pc(2) in simp_all)
qed

lemma svc_settled_returns:
  assumes fair: "svc_strongly_fair dbg \<sigma>" and live: "clive (\<sigma> n)"
    and ended: "is_terminated_state (svc (\<sigma> n))" and pc: "threads (\<sigma> n) i = Some pc" "svc_settled b pc"
  shows "\<exists>m\<ge>n. threads (\<sigma> m) i = Some (returned b)"
proof (rule svc_fair.leads_to_strongly [OF fair live, where h = "\<lambda>s. SvcThread i"
    and P = "\<lambda>s. is_terminated_state (svc s) \<and> (\<exists>pc. threads s i = Some pc \<and> svc_settled b pc)"
    and R = "\<lambda>s. monitor s = None" and rank = "\<lambda>s. wait_rank (the (threads s i))"])
  fix s s'
  assume live: "clive s" and P: "is_terminated_state (svc s) \<and> (\<exists>pc. threads s i = Some pc \<and> svc_settled b pc)"
  then obtain pc where pc: "threads s i = Some pc" "svc_settled b pc" and ended: "is_terminated_state (svc s)" by blast
  show "threads s' i = Some (returned b) \<or>
      (is_terminated_state (svc s') \<and> (\<exists>pc. threads s' i = Some pc \<and> svc_settled b pc)) \<and>
      (wait_rank (the (threads s' i)) < wait_rank (the (threads s i)) \<or>
       wait_rank (the (threads s' i)) = wait_rank (the (threads s i)) \<and> SvcThread i = SvcThread i)"
    if step: "cstep dbg s s'"
    using svc_settled_keeps [OF step ended pc] ended_step [OF step live ended] pc by (auto simp: settles_def)
  show "threads s' i = Some (returned b) \<or> wait_rank (the (threads s' i)) < wait_rank (the (threads s i))"
    if act: "cact dbg (SvcThread i) s s'"
    using svc_settled_keeps [OF svc_fair.act_step [OF act] ended pc] act pc by (auto simp: settles_def cmoves_def)
  show "\<exists>s'. cact dbg (SvcThread i) s s'" if "monitor s = None"
    by (rule settled_enabled [OF ended pc that])
next
  fix n assume "clive (\<sigma> n)"
  then show "\<exists>m\<ge>n. monitor (\<sigma> m) = None" by (rule monitor_freed [OF strongly_fair [OF fair]])
qed (use ended pc in blast)

text \<open>A waiter that read the lifecycle before the close parks, woken or not.\<close>

fun stale :: "bool \<Rightarrow> thread_pc \<Rightarrow> bool" where
  "stale b (WaitEmpty l) = (\<not> b \<and> l = Running)"
| "stale b (AwaitEmpty n l) = (b \<and> l = Running)"
| "stale b pc = False"

definition parks :: "bool \<Rightarrow> nat \<Rightarrow> csys \<Rightarrow> bool" where
  "parks b i s \<longleftrightarrow> threads s i \<in> {Some (waits b), Some (woken b)}"

lemma stale_wake [simp]:
  "stale b pc \<Longrightarrow> wake_monitor pc = pc" "stale b pc \<Longrightarrow> wake_producer pc = pc"
  "stale b pc \<Longrightarrow> stale b (wake_notified pc)"
  by (cases pc; simp)+

lemma stale_keeps:
  assumes "cstep dbg s s'" and "threads s i = Some pc" and "stale b pc"
  shows "parks b i s' \<or> threads s' i \<in> {Some pc, Some (wake_notified pc)}"
  using assms(1)
proof (cases rule: cstep.cases)
  case by_task
  then show ?thesis using assms(2,3) by (elim task_stepE fin_step.cases) auto
next
  case by_holder
  then show ?thesis using assms(2,3) by (elim holder_stepE) auto
next
  case by_canceller
  then show ?thesis using assms(2,3) by (elim canceller_stepE) auto
next
  case by_closer
  then show ?thesis using assms(2,3) by (elim closer_stepE) auto
next
  case by_waiter
  then show ?thesis using assms(2,3)
    by (elim waiter_stepE) (auto simp: parks_def terminated_view_def)
next
  case by_reclaim
  then show ?thesis using assms(2,3) by (elim reclaim_stepE) auto
qed

lemma stale_enabled:
  assumes pc: "threads s i = Some pc" "stale b pc" and free: "monitor s = None"
  shows "\<exists>s'. cact dbg (SvcThread i) s s'"
proof (cases pc)
  case (WaitEmpty l)
  with pc(2) have "\<not> (l \<noteq> Running \<and> is_empty (task_counts (svc s)))" by simp
  from wait_park [OF pc(1) [unfolded WaitEmpty] this] WaitEmpty pc show ?thesis
    by (auto simp: cmoves_def intro!: exI)
next
  case (AwaitEmpty n l)
  with pc(2) have "terminated_view l (svc s) \<noteq> Terminated" by (simp add: terminated_view_def)
  from await_park [OF pc(1) [unfolded AwaitEmpty] free this] AwaitEmpty pc show ?thesis
    by (auto simp: cmoves_def intro!: exI)
qed (use pc(2) in simp_all)

lemma stale_parks:
  assumes fair: "svc_strongly_fair dbg \<sigma>" and live: "clive (\<sigma> n)"
    and pc: "threads (\<sigma> n) i = Some pc" "stale b pc"
  shows "\<exists>m\<ge>n. parks b i (\<sigma> m)"
proof (rule svc_fair.leads_to_strongly [OF fair live, where h = "\<lambda>s. SvcThread i"
    and P = "\<lambda>s. \<exists>pc. threads s i = Some pc \<and> stale b pc" and R = "\<lambda>s. monitor s = None"
    and rank = "\<lambda>s. 0 :: nat"])
  fix s s' :: csys
  assume "\<exists>pc. threads s i = Some pc \<and> stale b pc"
  then obtain pc where pc: "threads s i = Some pc" "stale b pc" by blast
  show "parks b i s' \<or> (\<exists>pc. threads s' i = Some pc \<and> stale b pc) \<and>
      ((0 :: nat) < 0 \<or> (0 :: nat) = 0 \<and> SvcThread i = SvcThread i)" if step: "cstep dbg s s'"
    using stale_keeps [OF step pc] pc by auto
  show "parks b i s' \<or> (0 :: nat) < 0" if act: "cact dbg (SvcThread i) s s'"
    using stale_keeps [OF svc_fair.act_step [OF act] pc] act pc by (auto simp: cmoves_def)
  show "\<exists>s'. cact dbg (SvcThread i) s s'" if "monitor s = None"
    by (rule stale_enabled [OF pc that])
next
  fix n assume "clive (\<sigma> n)"
  then show "\<exists>m\<ge>n. monitor (\<sigma> m) = None" by (rule monitor_freed [OF strongly_fair [OF fair]])
qed (use pc in blast)

section \<open>The property\<close>

text \<open>A thread inside \<^verbatim>\<open>wait_termination\<close> (\<open>False\<close>) or \<^verbatim>\<open>await_termination\<close> (\<open>True\<close>).\<close>

fun inside_wait :: "bool \<Rightarrow> thread_pc \<Rightarrow> bool" where
  "inside_wait b WaitLock = (\<not> b)"
| "inside_wait b WaitEval = (\<not> b)"
| "inside_wait b (WaitEmpty l) = (\<not> b)"
| "inside_wait b WaitParked = (\<not> b)"
| "inside_wait b (AwaitEnable n) = b"
| "inside_wait b (AwaitLoad n) = b"
| "inside_wait b (AwaitEmpty n l) = b"
| "inside_wait b (AwaitParked n) = b"
| "inside_wait b pc = False"

lemma inside_wait_cases:
  assumes "inside_wait b pc"
  obtains "svc_settled b pc" | "pc = waits b" | "stale b pc"
  using assms by (cases pc) auto

lemma svc_parked_returns:
  assumes fair: "svc_strongly_fair dbg \<sigma>" and live: "clive (\<sigma> n)"
    and ended: "is_terminated_state (svc (\<sigma> n))" and parked: "parks b i (\<sigma> n)"
  shows "\<exists>m\<ge>n. threads (\<sigma> m) i = Some (returned b)"
proof -
  note weak = strongly_fair [OF fair]
  obtain m where m: "n \<le> m" "threads (\<sigma> m) i = Some (woken b)"
    using svc_parked_woken [OF fair live ended] parked unfolding parks_def by blast
  have "svc_settled b (woken b)" by simp
  from svc_settled_returns [OF fair svc_fair.ok_execution [OF weak live m(1)]
      ended_execution [OF weak live ended m(1)] m(2) this] m(1) order_trans show ?thesis by fastforce
qed

text \<open>An execution for the witness: a woken waiter takes its three steps through the monitor.\<close>

fun demo_wait :: "nat \<Rightarrow> thread_pc" where
  "demo_wait n = (if n = 0 then WaitLock else if n = 1 then WaitEval
     else if n = 2 then WaitEmpty ShuttingDown else WaitReturned)"

definition demo_run :: "csys \<Rightarrow> nat \<Rightarrow> csys" where
  "demo_run s n = put_thread 0 (demo_wait n) (s\<lparr>monitor := if n = 1 \<or> n = 2 then Some 0 else None\<rparr>)"

lemma busy_task:
  assumes "task_step dbg s s'"
  shows "\<exists>k t. tasks s k = Some t \<and> (owner t \<noteq> Finishing FinDone \<or> winner t \<noteq> None)"
  using assms
proof (cases rule: task_step.cases)
  case (owner_finish k t f f' s1)
  then have "f \<noteq> FinDone" by auto
  with owner_finish show ?thesis by force
qed force+

lemma demo_run_fair:
  assumes "holder s = Unlocked"
    and "\<forall>t\<in>ran (tasks s). owner t = Finishing FinDone \<and> winner t = None"
    and "threads s = [0 \<mapsto> WaitLock, 1 \<mapsto> Closed None, 2 \<mapsto> AwaitReturned]" and "monitor s = None"
    and "load (lifecycle_byte (svc s)) = ShuttingDown" and "is_empty (task_counts (svc s))"
  shows "svc_strongly_fair dbg (demo_run s)"
proof -
  have step: "demo_run s (Suc n) = demo_run s n \<or> cstep dbg (demo_run s n) (demo_run s (Suc n))" for n
  proof -
    have "demo_run s (Suc n) = demo_run s n \<or> waiter_step (demo_run s n) (demo_run s (Suc n))"
      using wait_enter [of "demo_run s n" 0] wait_lifecycle [of "demo_run s n" 0]
        wait_ready [of "demo_run s n" 0 ShuttingDown] assms(4-6)
      by (auto simp: demo_run_def split: if_splits)
    then show ?thesis using by_waiter by blast
  qed
  have fin: "owner t = Finishing FinDone" "winner t = None" if "tasks s k = Some t" for k t
    using assms(2) that by (auto simp: ran_def)
  have ended: "\<not> task_step dbg (demo_run s (n + 3)) s'" for n s'
    using busy_task [of dbg "demo_run s (n + 3)" s'] fin by (fastforce simp: demo_run_def)
  have quiet: "\<not> cact dbg a (demo_run s (n + 3)) s'" for a n s'
  proof (cases a)
    case (OwnerAgent k)
    with ended show ?thesis by simp
  next
    case (WinnerAgent k)
    with ended show ?thesis by simp
  next
    case LockAgent
    then show ?thesis using assms(1) by (simp add: demo_run_def)
  next
    case (SvcThread i)
    then show ?thesis using assms(3)
      by (auto simp: demo_run_def cmoves_def elim!: closer_stepE waiter_stepE canceller_stepE split: if_splits)
  qed
  show ?thesis unfolding strongly_fair_execution_def
  proof (intro conjI allI impI step)
    fix a n assume "\<forall>m\<ge>n. \<exists>l\<ge>m. \<exists>s'. cact dbg a (demo_run s l) s'"
    then obtain l s' where "n + 3 \<le> l" "cact dbg a (demo_run s l) s'" by (meson le_add1)
    with quiet [of a "l - 3" s'] show "\<exists>m\<ge>n. cact dbg a (demo_run s m) (demo_run s (Suc m))" by simp
  qed
qed

lemmas v1 =
  by_T [OF run_terminated owner_finish [where k = 16, OF _ _ fin_capacity [where terminated = True]],
    simplified run_simps, simplified, OF refl, simplified]
lemmas v2 =
  by_T [OF v1 owner_finish [where k = 16, OF _ _ fin_monitor], simplified run_simps, simplified, OF refl, simplified]
lemmas v3 =
  by_T [OF v2 owner_finish [where k = 16, OF _ _ fin_notify], simplified run_simps, simplified, OF refl, simplified]
lemmas v4 =
  by_W [OF v3 await_wake [where i = 2], simplified run_simps, simplified, simplified]
lemmas v5 =
  by_W [OF v4 await_enable [where i = 2 and n = False], simplified run_simps, simplified, simplified]
lemmas v6 =
  by_W [OF v5 await_load [where i = 2 and n = False], simplified run_simps, simplified, simplified]
lemmas run_woken =
  by_W [OF v6 await_ready [where i = 2 and n = False and l = ShuttingDown], simplified run_simps, simplified, simplified]

text \<open>
  C3: Whoever waits for a terminated service returns. In every strongly fair execution of
  the blocking service, a thread that is inside \<^verbatim>\<open>wait_termination\<close> or \<^verbatim>\<open>await_termination\<close>
  when the service has terminated, at whatever point of it, parked or not, has returned at
  some later point.
\<close>
theorem termination_wait_returns:
  assumes "creach dbg capacity (\<sigma> 0)" and "strongly_fair_execution (cstep dbg) (cact dbg) \<sigma>"
    and "state_lifecycle (svc (\<sigma> n)) = Terminated"
    and "threads (\<sigma> n) i = Some pc" and "inside_wait b pc"
  shows "\<exists>m\<ge>n. threads (\<sigma> m) i = Some (if b then AwaitReturned else WaitReturned)"
proof -
  note weak = strongly_fair [OF assms(2)]
  have live: "clive (\<sigma> n)"
    by (rule svc_fair.ok_execution [OF weak creach_clive [OF assms(1)]]) simp
  have ended: "is_terminated_state (svc (\<sigma> n))" using assms(3) cliveD(3) [OF live]
    by (auto simp: state_lifecycle_Terminated_iff lifecycle_ok_def load_def)
  note returns = svc_parked_returns [OF assms(2) live ended]
  have "\<exists>m\<ge>n. threads (\<sigma> m) i = Some (returned b)" using assms(5)
  proof (cases rule: inside_wait_cases)
    case 1
    from svc_settled_returns [OF assms(2) live ended assms(4) this] show ?thesis .
  next
    case 2
    with assms(4) returns show ?thesis by (simp add: parks_def)
  next
    case 3
    from stale_parks [OF assms(2) live assms(4) this] obtain m where m: "n \<le> m" "parks b i (\<sigma> m)" by blast
    from svc_parked_returns [OF assms(2) svc_fair.ok_execution [OF weak live m(1)]
        ended_execution [OF weak live ended m(1)] m(2)] m(1) order_trans show ?thesis by fastforce
  qed
  then show ?thesis by simp
qed

theorem termination_wait_returns_witness:
  "\<exists>(\<sigma> :: nat \<Rightarrow> csys) m. creach True 1 (\<sigma> 0) \<and> state_lifecycle (svc (\<sigma> 0)) = Terminated \<and>
     threads (\<sigma> 0) 0 = Some WaitLock \<and> threads (\<sigma> m) 0 = Some WaitReturned"
proof -
  obtain s where s: "creach True 1 s" "holder s = Unlocked"
    "\<forall>t\<in>ran (tasks s). owner t = Finishing FinDone \<and> winner t = None"
    "threads s = [0 \<mapsto> WaitLock, 1 \<mapsto> Closed None, 2 \<mapsto> AwaitReturned]" "monitor s = None"
    "load (lifecycle_byte (svc s)) = ShuttingDown" "is_empty (task_counts (svc s))"
    by (rule that [OF run_woken]) (simp_all add: load_def fun_eq_iff is_empty_def)
  have s0: "demo_run s 0 = s" using s(4,5) by (simp add: demo_run_def fun_upd_idem)
  have r: "creach True 1 (demo_run s 0)" using s(1) s0 by simp
  have l: "state_lifecycle (svc (demo_run s 0)) = Terminated"
    using s(6,7) s0 by (simp add: state_lifecycle_Terminated_iff is_terminated_state_def is_not_running_def)
  have w: "threads (demo_run s 0) 0 = Some WaitLock" using s(4) s0 by simp
  have i: "inside_wait False WaitLock" by simp
  obtain m where m: "threads (demo_run s m) 0 = Some WaitReturned"
    using termination_wait_returns [OF r demo_run_fair [OF s(2-7)] l w i] by auto
  show ?thesis
    by (rule exI [of _ "demo_run s"], rule exI [of _ m], intro conjI r l w m)
qed

end
