(* ===== verification/Blocking_Service_Props.thy ===== *)
theory Blocking_Service_Props
  imports Blocking_Service
begin

text \<open>
  What the calls of the blocking service do, call by call: the well-formedness invariant of
  the service and its preservation, and the lemmas on admission, registration, the worker
  and the abort loop that the properties of the service rest on.
\<close>

section \<open>The invariant of the service\<close>

text \<open>
  Besides the accounting, every tracked abort handle belongs to a task whose registration is
  open and whose tracker has not finished, is stored under that task's key, and carries a
  hook on that same task.
\<close>

fun hook_target :: "'r cancel_hook \<Rightarrow> usize" where
  "hook_target (FinishQueuedOnce k) = k"
| "hook_target (CancelSlotIfQueued slot k) = k"

definition handle_ok :: "('r, 'x) service \<Rightarrow> usize \<Rightarrow> ('r, 'r cancel_hook) TrackedAbortHandle \<Rightarrow> bool" where
  "handle_ok w k a \<longleftrightarrow> tracked_marker a = k \<and> hook_target (cancel a) = k \<and>
     registrations w k = Some \<lparr>finished = False\<rparr> \<and>
     (\<exists>t. trackers w k = Some t \<and> task_state t \<noteq> TASK_STATE_FINISHED)"

definition service_inv :: "('r, 'x) service \<Rightarrow> bool" where
  "service_inv w \<longleftrightarrow> accounted w \<and> (\<forall>k a. abort_handles (state w) k = Some a \<longrightarrow> handle_ok w k a)"

lemma service_invD: "service_inv w \<Longrightarrow> accounted w" "service_inv w \<Longrightarrow> trackers_ok w"
  "service_inv w \<Longrightarrow> abort_handles (state w) k = Some a \<Longrightarrow> handle_ok w k a"
  by (simp_all add: service_inv_def accounted_def)

lemma accounted_frame:
  assumes "accounted w" and "trackers w' = trackers w" and "dom (registrations w') = dom (registrations w)"
    and "task_counts (state w') = task_counts (state w)"
    and "task_capacity (state w') = task_capacity (state w)"
  shows "accounted w'"
  using assms by (simp add: accounted_def trackers_ok_def phase_count_def)

text \<open>Changes that touch neither tasks nor handles keep the invariant.\<close>

lemma service_inv_frame:
  assumes "service_inv w" and "trackers w' = trackers w" and "registrations w' = registrations w"
    and "task_counts (state w') = task_counts (state w)"
    and "task_capacity (state w') = task_capacity (state w)"
    and "abort_handles (state w') = abort_handles (state w)"
  shows "service_inv w'"
  using assms accounted_frame [of w w']
  by (auto simp: service_inv_def handle_ok_def)

lemma service_inv_new: "service_inv (with_task_capacity capacity x)"
  by (simp add: service_inv_def accounted_def trackers_ok_def with_task_capacity_def
      state_with_task_capacity_def phase_count_def)

section \<open>Admission\<close>

lemma unfinished_accounted:
  assumes "accounted w"
  shows "unat (unfinished (task_counts (state w)))
    = phase_count TASK_STATE_QUEUED w + phase_count TASK_STATE_RUNNING w"
  using assms by (auto simp: accounted_def intro: unfinished_counts_are)

lemma prepare_Shutdown:
  assumes "\<not> submission_lock (state w)" and "is_not_running (state w)"
  shows "prepare_blocking_submission dbg addr w = Some (Inl Shutdown, w)"
  using assms by (simp add: prepare_blocking_submission_def lock_submission_def unlock_submission_def)

lemma prepare_Saturated:
  assumes "\<not> submission_lock (state w)" and "\<not> is_not_running (state w)"
    and "task_capacity (state w) \<le> unfinished (task_counts (state w))"
  shows "prepare_blocking_submission dbg addr w = Some (Inl Saturated, w)"
  using assms by (simp add: prepare_blocking_submission_def lock_submission_def unlock_submission_def
      try_accept_task_def)

lemma phase_count_new:
  assumes "finite (dom (trackers w))" and "trackers w addr = None"
    and "trackers w' = (trackers w)(addr \<mapsto> tracker_new addr)"
  shows "phase_count TASK_STATE_QUEUED w' = phase_count TASK_STATE_QUEUED w + 1"
    "phase_count TASK_STATE_RUNNING w' = phase_count TASK_STATE_RUNNING w"
  using assms by (simp_all add: phase_count_def msum_upd_new in_phase_def tracker_new_def)

lemma prepare_accepts:
  assumes inv: "service_inv w" and unlocked: "\<not> submission_lock (state w)"
    and open_: "\<not> is_not_running (state w)" and fresh: "registrations w addr = None"
    and room: "phase_count TASK_STATE_QUEUED w + phase_count TASK_STATE_RUNNING w
      < unat (task_capacity (state w))"
  obtains w' where "prepare_blocking_submission dbg addr w = Some (Inr addr, w')"
    "service_inv w'" "submission_lock (state w')"
    "registrations w' = (registrations w)(addr \<mapsto> registration_new)"
    "trackers w' = (trackers w)(addr \<mapsto> tracker_new addr)"
    "abort_handles (state w') = abort_handles (state w)"
    "lifecycle_byte (state w') = lifecycle_byte (state w)"
    "task_capacity (state w') = task_capacity (state w)" "outside w' = outside w"
proof -
  let ?q = "phase_count TASK_STATE_QUEUED w" and ?r = "phase_count TASK_STATE_RUNNING w"
  note acc = service_invD(1) [OF inv]
  from acc have c: "counts_are ?q ?r (task_counts (state w))" and ok: "trackers_ok w"
    by (simp_all add: accounted_def)
  have lt: "?q + ?r < 2 ^ 64 - 1"
    using room unat_usize_less [of "task_capacity (state w)"] by linarith
  obtain c' where c': "accept_task dbg (task_counts (state w)) = Some c'" "counts_are (?q + 1) ?r c'"
    using accept_task_counts [OF c lt] .
  have guard: "\<not> task_capacity (state w) \<le> unfinished (task_counts (state w))"
    using room unfinished_accounted [OF acc] by (simp add: word_le_nat_alt)
  let ?w = "w\<lparr>state := (state w)\<lparr>submission_lock := True, task_counts := c'\<rparr>,
    registrations := (registrations w)(addr \<mapsto> registration_new),
    trackers := (trackers w)(addr \<mapsto> tracker_new addr)\<rparr>"
  have none: "trackers w addr = None" using ok fresh by (auto simp: trackers_ok_def)
  have "trackers_ok ?w" using ok by (auto simp: trackers_ok_def tracker_new_def)
  moreover note phase_count_new [OF trackers_ok_finite [OF ok] none, of ?w]
  ultimately have "accounted ?w" using c' room by (simp add: accounted_def)
  then have "service_inv ?w"
    using inv fresh by (auto simp: service_inv_def handle_ok_def)
  then show ?thesis
    using unlocked open_ guard c'(1)
    by (intro that [of ?w]) (simp_all add: prepare_blocking_submission_def lock_submission_def
        try_accept_task_def guard_new_def Let_def is_not_running_def)
qed

section \<open>Registration and delivery\<close>

lemma register_abort_handle_inv:
  assumes inv: "service_inv w" and reg: "registrations w mk = Some registration_new"
    and t: "trackers w mk = Some t" "task_state t \<noteq> TASK_STATE_FINISHED"
    and free: "abort_handles (state w) mk = None" and hook: "hook_target hook = mk"
  obtains w' where "register_abort_handle dbg fin mk h hook w = Some w'" "service_inv w'"
    "trackers w' = trackers w" "registrations w' = registrations w" "outside w' = outside w"
    "lifecycle_byte (state w') = lifecycle_byte (state w)"
    "task_capacity (state w') = task_capacity (state w)"
    "task_counts (state w') = task_counts (state w)"
    "submission_lock (state w') = submission_lock (state w)"
    "\<And>k. k \<noteq> mk \<Longrightarrow> abort_handles (state w') k = abort_handles (state w) k"
    "abort_handles (state w') mk = (if fin h (outside w) then None
       else Some \<lparr>tracked_marker = mk, handle = h, cancel = hook\<rparr>)"
proof (cases "fin h (outside w)")
  case True
  then show ?thesis using inv reg free
    by (intro that [of w]) (simp_all add: register_abort_handle_def registration_new_def is_finished_def)
next
  case False
  let ?w = "w\<lparr>state := (state w)\<lparr>abort_handles := (abort_handles (state w))
    (mk \<mapsto> \<lparr>tracked_marker = mk, handle = h, cancel = hook\<rparr>)\<rparr>\<rparr>"
  have "accounted ?w" by (rule accounted_frame [OF service_invD(1) [OF inv]]) simp_all
  then have "service_inv ?w"
    using inv reg t hook by (auto simp: service_inv_def handle_ok_def registration_new_def)
  with False reg free show ?thesis
    by (intro that [of ?w]) (simp_all add: register_abort_handle_def registration_new_def
        is_finished_def key_def Let_def)
qed

lemma guard_drop_inv:
  assumes inv: "service_inv w" and t: "trackers w k = Some t"
  obtains w' where "guard_drop dbg k w = Some w'" "service_inv w'"
    "trackers w' = (trackers w)(k \<mapsto> t\<lparr>task_state := TASK_STATE_FINISHED\<rparr>)"
    "registrations w' = (registrations w)(k \<mapsto> \<lparr>finished = True\<rparr>)"
    "abort_handles (state w') = (abort_handles (state w))(k := None)"
    "lifecycle_byte (state w') = lifecycle_byte (state w)"
    "task_capacity (state w') = task_capacity (state w)"
    "submission_lock (state w') = submission_lock (state w)" "outside w' = outside w"
proof -
  from guard_drop_spec [OF service_invD(1) [OF inv] t, of dbg] obtain w' where w':
    "guard_drop dbg k w = Some w'" "accounted w'"
    "trackers w' = (trackers w)(k \<mapsto> t\<lparr>task_state := TASK_STATE_FINISHED\<rparr>)"
    "registrations w' = (registrations w)(k \<mapsto> \<lparr>finished = True\<rparr>)"
    "abort_handles (state w') = (abort_handles (state w))(k := None)"
    "lifecycle_byte (state w') = lifecycle_byte (state w)"
    "task_capacity (state w') = task_capacity (state w)"
    "submission_lock (state w') = submission_lock (state w)" "outside w' = outside w" .
  have "service_inv w'"
    using inv w'(2-5) by (auto simp: service_inv_def handle_ok_def)
  from that [OF w'(1) this w'(3-)] show ?thesis .
qed

text \<open>
  What every accepted submission has in common, whatever became of its payload (\<open>submitted\<close>
  below says which): the other tasks as they were, the submission lock free, and the new task
  either queued or finished and no longer tracked.
\<close>

definition accepted_outcome :: "usize \<Rightarrow> ('r, 'x) service \<Rightarrow> ('r, 'x) service \<Rightarrow> bool" where
  "accepted_outcome addr w w' \<longleftrightarrow> service_inv w' \<and> \<not> submission_lock (state w') \<and>
     lifecycle_byte (state w') = lifecycle_byte (state w) \<and>
     task_capacity (state w') = task_capacity (state w) \<and>
     (\<forall>k. k \<noteq> addr \<longrightarrow> trackers w' k = trackers w k \<and> registrations w' k = registrations w k \<and>
        abort_handles (state w') k = abort_handles (state w) k) \<and>
     (trackers w' addr = Some (tracker_new addr) \<or>
      trackers w' addr = Some ((tracker_new addr)\<lparr>task_state := TASK_STATE_FINISHED\<rparr>) \<and>
      abort_handles (state w') addr = None)"

lemma tracker_new_queued [simp]: "task_state (tracker_new k) = TASK_STATE_QUEUED"
  by (simp add: tracker_new_def)

text \<open>A freshly prepared submission: the lock is held, the task is queued and untracked.\<close>

definition prepared_from :: "usize \<Rightarrow> ('r, 'x) service \<Rightarrow> ('r, 'x) service \<Rightarrow> bool" where
  "prepared_from addr w v \<longleftrightarrow> service_inv v \<and>
     registrations v = (registrations w)(addr \<mapsto> registration_new) \<and>
     trackers v = (trackers w)(addr \<mapsto> tracker_new addr) \<and>
     abort_handles (state v) = abort_handles (state w) \<and> abort_handles (state w) addr = None \<and>
     lifecycle_byte (state v) = lifecycle_byte (state w) \<and>
     task_capacity (state v) = task_capacity (state w)"

lemma prepared_from_outside: "prepared_from addr w v \<Longrightarrow> prepared_from addr w (v\<lparr>outside := x\<rparr>)"
  by (auto simp: prepared_from_def intro: service_inv_frame [of v])

lemma prepared_from_on_outside:
  "prepared_from addr w v \<Longrightarrow> on_outside f v = (a, v') \<Longrightarrow> prepared_from addr w v'"
  by (auto simp: on_outside_def split_beta intro: prepared_from_outside)

lemma fresh_untracked:
  assumes "service_inv w" and "registrations w addr = None"
  shows "abort_handles (state w) addr = None"
  using service_invD(3) [OF assms(1)] assms(2)
  by (cases "abort_handles (state w) addr") (auto simp: handle_ok_def)

text \<open>
  The spawn registers the abort handle unless it is already finished, and gives the lock
  back; the task stays queued.
\<close>

definition spawned_from :: "usize \<Rightarrow> ('r, 'x) service \<Rightarrow> ('r, 'x) service \<Rightarrow> bool" where
  "spawned_from addr v v1 \<longleftrightarrow> service_inv v1 \<and> \<not> submission_lock (state v1) \<and>
     trackers v1 = trackers v \<and> registrations v1 = registrations v \<and>
     lifecycle_byte (state v1) = lifecycle_byte (state v) \<and>
     task_capacity (state v1) = task_capacity (state v) \<and>
     task_counts (state v1) = task_counts (state v) \<and>
     (\<forall>k. k \<noteq> addr \<longrightarrow> abort_handles (state v1) k = abort_handles (state v) k)"

lemma spawn_registers:
  assumes prep: "prepared_from addr w v" and hook: "hook_target hook = addr"
    and a: "oneshot_channel tk (outside v) = ((sender, receiver), x)" and b: "spawn_blocking tk receiver x = (join, y)"
  obtains v1 where
    "spawn_accepted_blocking_task dbg tk addr hook v = Some ((abort_handle_of tk join, sender), v1)"
    "spawned_from addr v v1" "outside v1 = y"
    "abort_handles (state v1) addr = (if abort_is_finished tk (abort_handle_of tk join) y then None
       else Some \<lparr>tracked_marker = addr, handle = abort_handle_of tk join, cancel = hook\<rparr>)"
proof -
  let ?b = "v\<lparr>outside := y\<rparr>" and ?ah = "abort_handle_of tk join"
  have "prepared_from addr w ?b" using prep by (rule prepared_from_outside)
  then have inv: "service_inv ?b" and reg: "registrations ?b addr = Some registration_new"
    and t: "trackers ?b addr = Some (tracker_new addr)" and free: "abort_handles (state ?b) addr = None"
    by (simp_all add: prepared_from_def)
  obtain c where c: "register_abort_handle dbg (abort_is_finished tk) addr ?ah hook ?b = Some c"
    "service_inv c" "trackers c = trackers ?b" "registrations c = registrations ?b" "outside c = outside ?b"
    "lifecycle_byte (state c) = lifecycle_byte (state ?b)"
    "task_capacity (state c) = task_capacity (state ?b)"
    "task_counts (state c) = task_counts (state ?b)"
    "\<And>k. k \<noteq> addr \<Longrightarrow> abort_handles (state c) k = abort_handles (state ?b) k"
    "abort_handles (state c) addr = (if abort_is_finished tk ?ah (outside ?b) then None
       else Some \<lparr>tracked_marker = addr, handle = ?ah, cancel = hook\<rparr>)"
    by (rule register_abort_handle_inv [OF inv reg t _ free hook, of dbg "abort_is_finished tk" ?ah]) auto
  let ?v1 = "map_state unlock_submission c"
  have v1: "service_inv ?v1"
    by (rule service_inv_frame [OF c(2)]) (simp_all add: map_state_def unlock_submission_def)
  have spawn: "spawn_accepted_blocking_task dbg tk addr hook v = Some ((?ah, sender), ?v1)"
    using a b c(1) by (simp add: spawn_accepted_blocking_task_def on_outside_def Let_def)
  show ?thesis
    by (rule that [OF spawn]) (use v1 c in \<open>auto simp: spawned_from_def map_state_def unlock_submission_def\<close>)
qed

lemma spawn_prepared:
  assumes prep: "prepared_from addr w v" and hook: "hook_target hook = addr"
  obtains ah sender v1 where
    "spawn_accepted_blocking_task dbg tk addr hook v = Some ((ah, sender), v1)" "spawned_from addr v v1"
proof -
  obtain sender receiver x join y where "oneshot_channel tk (outside v) = ((sender, receiver), x)"
    "spawn_blocking tk receiver x = (join, y)" by (metis prod.exhaust)
  from spawn_registers [OF assms this, of dbg] that show ?thesis by metis
qed

text \<open>
  What an accepted submission of \<open>task\<close> does, from the outside state \<open>x\<close> on: a channel, a
  spawned closure, the registration of its abort handle with \<open>hook\<close> (unless it is finished
  already), and the delivery of the payload under the guard. A payload the channel took leaves
  the task queued; one it refused is dropped, the task finished and not tracked. The other
  tasks are as they were.
\<close>

definition submitted ::
  "('r, 't, 'x) tokio_ops \<Rightarrow> usize \<Rightarrow> 'r cancel_hook \<Rightarrow> ('t, 'r) task_closure \<Rightarrow> 'x
   \<Rightarrow> ('r, 'x) service \<Rightarrow> ('r, 'x) service \<Rightarrow> bool" where
  "submitted tk addr hook task x w w' \<longleftrightarrow>
     service_inv w' \<and> \<not> submission_lock (state w') \<and>
     lifecycle_byte (state w') = lifecycle_byte (state w) \<and>
     task_capacity (state w') = task_capacity (state w) \<and>
     (\<forall>k. k \<noteq> addr \<longrightarrow> trackers w' k = trackers w k \<and> registrations w' k = registrations w k \<and>
        abort_handles (state w') k = abort_handles (state w) k) \<and>
     (let ((sender, receiver), x) = oneshot_channel tk x;
          (join, x) = spawn_blocking tk receiver x;
          h = abort_handle_of tk join;
          tracked = (if abort_is_finished tk h x then None
            else Some \<lparr>tracked_marker = addr, handle = h, cancel = hook\<rparr>);
          (sent, x) = oneshot_send tk sender (task, addr) x
      in if sent
         then trackers w' addr = Some \<lparr>marker = addr, task_state = TASK_STATE_QUEUED\<rparr> \<and>
           registrations w' addr = Some \<lparr>finished = False\<rparr> \<and>
           abort_handles (state w') addr = tracked \<and> outside w' = x
         else trackers w' addr = Some \<lparr>marker = addr, task_state = TASK_STATE_FINISHED\<rparr> \<and>
           registrations w' addr = Some \<lparr>finished = True\<rparr> \<and>
           abort_handles (state w') addr = None \<and> outside w' = closure_drop tk task x)"

lemma submitted_accepted: "submitted tk addr hook task x w w' \<Longrightarrow> accepted_outcome addr w w'"
  by (auto simp: submitted_def accepted_outcome_def tracker_new_def Let_def split_beta split: if_splits)

lemma deliver_submitted:
  assumes prep: "prepared_from addr w v" and hook: "hook_target hook = addr"
    and a: "oneshot_channel tk (outside v) = ((sender, receiver), x)" and b: "spawn_blocking tk receiver x = (join, y)"
  shows "\<exists>v1 v2. spawn_accepted_blocking_task dbg tk addr hook v = Some ((abort_handle_of tk join, sender), v1) \<and>
    deliver_payload dbg tk sender task addr v1 = Some v2 \<and> submitted tk addr hook task (outside v) w v2"
proof -
  let ?ah = "abort_handle_of tk join"
  let ?tracked = "if abort_is_finished tk ?ah y then None
    else Some \<lparr>tracked_marker = addr, handle = ?ah, cancel = hook\<rparr>"
  obtain v1 where spawn: "spawn_accepted_blocking_task dbg tk addr hook v = Some ((?ah, sender), v1)"
    "spawned_from addr v v1" "outside v1 = y" "abort_handles (state v1) addr = ?tracked"
    by (rule spawn_registers [OF assms])
  then have v1: "service_inv v1" and t1: "trackers v1 addr = Some (tracker_new addr)"
    using prep by (simp_all add: spawned_from_def prepared_from_def)
  obtain sent z where sent: "oneshot_send tk sender (task, addr) y = (sent, z)" by force
  then have d: "on_outside (oneshot_send tk sender (task, addr)) v1 = (sent, v1\<lparr>outside := z\<rparr>)"
    using spawn(3) by (simp add: on_outside_def)
  have frame: "service_inv (v1\<lparr>outside := q\<rparr>)" for q
    by (rule service_inv_frame [OF v1]) simp_all
  note defs = submitted_def spawned_from_def prepared_from_def tracker_new_def registration_new_def Let_def
  show ?thesis
  proof (cases sent)
    case True
    have "submitted tk addr hook task (outside v) w (v1\<lparr>outside := z\<rparr>)"
      using frame [of z] spawn(2,4) prep a b sent True by (simp add: defs)
    with spawn(1) d True show ?thesis by (auto simp: deliver_payload_def)
  next
    case False
    let ?e = "v1\<lparr>outside := closure_drop tk task z\<rparr>"
    have "service_inv ?e" and "trackers ?e addr = Some (tracker_new addr)"
      using frame t1 by simp_all
    from guard_drop_inv [OF this, of dbg] obtain v2 where v2:
      "guard_drop dbg addr ?e = Some v2" "service_inv v2"
      "trackers v2 = (trackers ?e)(addr \<mapsto> (tracker_new addr)\<lparr>task_state := TASK_STATE_FINISHED\<rparr>)"
      "registrations v2 = (registrations ?e)(addr \<mapsto> \<lparr>finished = True\<rparr>)"
      "abort_handles (state v2) = (abort_handles (state ?e))(addr := None)"
      "lifecycle_byte (state v2) = lifecycle_byte (state ?e)"
      "task_capacity (state v2) = task_capacity (state ?e)"
      "submission_lock (state v2) = submission_lock (state ?e)" "outside v2 = outside ?e" .
    have "submitted tk addr hook task (outside v) w v2"
      using v2 spawn(2) prep a b sent False by (simp add: defs)
    with spawn(1) d False v2(1) show ?thesis by (auto simp: deliver_payload_def)
  qed
qed

lemma prepared:
  assumes "service_inv w" and "\<not> submission_lock (state w)"
    and "\<not> is_not_running (state w)" and "registrations w addr = None"
    and "phase_count TASK_STATE_QUEUED w + phase_count TASK_STATE_RUNNING w
      < unat (task_capacity (state w))"
  obtains v where "prepare_blocking_submission dbg addr w = Some (Inr addr, v)"
    "prepared_from addr w v"
proof -
  from prepare_accepts [OF assms, of dbg] obtain v where
    "prepare_blocking_submission dbg addr w = Some (Inr addr, v)" "service_inv v"
    "registrations v = (registrations w)(addr \<mapsto> registration_new)"
    "trackers v = (trackers w)(addr \<mapsto> tracker_new addr)"
    "abort_handles (state v) = abort_handles (state w)"
    "lifecycle_byte (state v) = lifecycle_byte (state w)"
    "task_capacity (state v) = task_capacity (state w)" .
  moreover from this fresh_untracked [OF assms(1,4)] have "prepared_from addr w v"
    by (simp add: prepared_from_def)
  ultimately show ?thesis by (intro that)
qed

section \<open>The abort loop\<close>

text \<open>
  \<open>cancelled_in ks w w'\<close>: going from \<open>w\<close> to \<open>w'\<close>, some queued tasks among \<open>ks\<close>
  were finished and no other tracker moved.
\<close>

definition cancelled_in :: "usize set \<Rightarrow> ('h, 'c, 'x) world \<Rightarrow> ('h, 'c, 'x) world \<Rightarrow> bool" where
  "cancelled_in ks w w' \<longleftrightarrow> dom (trackers w') = dom (trackers w) \<and>
     (\<forall>k t. trackers w k = Some t \<longrightarrow> trackers w' k = Some t \<or>
        (k \<in> ks \<and> task_state t = TASK_STATE_QUEUED \<and>
         trackers w' k = Some (t\<lparr>task_state := TASK_STATE_FINISHED\<rparr>)))"

lemma cancelled_in_refl [simp]: "cancelled_in ks w w"
  by (simp add: cancelled_in_def)

lemma cancelled_in_mono: "cancelled_in ks w w' \<Longrightarrow> ks \<subseteq> ls \<Longrightarrow> cancelled_in ls w w'"
  by (simp add: cancelled_in_def) blast

lemma cancelled_in_trans:
  assumes "cancelled_in ks u v" and "cancelled_in ks v w"
  shows "cancelled_in ks u w"
  unfolding cancelled_in_def
proof (intro conjI allI impI)
  show "dom (trackers w) = dom (trackers u)" using assms by (simp add: cancelled_in_def)
  fix k t assume t: "trackers u k = Some t"
  with assms(1) consider "trackers v k = Some t"
    | "k \<in> ks" "task_state t = TASK_STATE_QUEUED"
      "trackers v k = Some (t\<lparr>task_state := TASK_STATE_FINISHED\<rparr>)"
    unfolding cancelled_in_def by blast
  then show "trackers w k = Some t \<or> (k \<in> ks \<and> task_state t = TASK_STATE_QUEUED \<and>
      trackers w k = Some (t\<lparr>task_state := TASK_STATE_FINISHED\<rparr>))"
  proof cases
    case 1
    then show ?thesis using assms(2) unfolding cancelled_in_def by blast
  next
    case 2
    then have "trackers w k = trackers v k"
      using assms(2) unfolding cancelled_in_def by fastforce
    with 2 show ?thesis by simp
  qed
qed

lemma cancelled_in_outside [simp]:
  "cancelled_in ks (w\<lparr>outside := x\<rparr>) w' = cancelled_in ks w w'"
  "cancelled_in ks w (w'\<lparr>outside := x\<rparr>) = cancelled_in ks w w'"
  by (simp_all add: cancelled_in_def)

lemma accounted_outside [simp]: "accounted (w\<lparr>outside := x\<rparr>) = accounted w"
  by (simp add: accounted_def trackers_ok_def phase_count_def)

lemma phase_count_eq:
  assumes "accounted w" and "trackers w k = Some t"
    and "trackers w' = (trackers w)(k \<mapsto> t\<lparr>task_state := v\<rparr>)"
  shows "phase_count st w' + of_bool (task_state t = st) = phase_count st w + of_bool (v = st)"
proof -
  have "finite (dom (trackers w))" using assms(1) by (simp add: accounted_def trackers_ok_def)
  from msum_upd [OF this assms(2), of "in_phase st" "t\<lparr>task_state := v\<rparr>"] assms(3)
  show ?thesis by (simp add: phase_count_def in_phase_def)
qed

lemma call_hook_spec:
  fixes w :: "('r, 'x) service"
  assumes acc: "accounted w" and dom: "hook_target hook \<in> dom (trackers w)"
  obtains won w' where "call_hook dbg tk hook w = Some (won, w')" "accounted w'"
    "same_core (state w) (state w')" "registrations w' = registrations w"
    "cancelled_in {hook_target hook} w w'"
    "phase_count TASK_STATE_QUEUED w' + of_bool won = phase_count TASK_STATE_QUEUED w"
    "phase_count TASK_STATE_RUNNING w' = phase_count TASK_STATE_RUNNING w"
proof -
  let ?k = "hook_target hook"
  from dom obtain t where t: "trackers w ?k = Some t" by blast
  from tracker_finish_queued_spec [OF acc t, of dbg] obtain v where v:
    "tracker_finish_queued dbg ?k w = Some (task_state t = TASK_STATE_QUEUED, v)"
    "accounted v" "only_accounting w v"
    "trackers v = (trackers w)(?k \<mapsto> t\<lparr>task_state :=
       if task_state t = TASK_STATE_QUEUED then TASK_STATE_FINISHED else task_state t\<rparr>)" .
  have canc: "cancelled_in {?k} w v"
    using t v(4) by (auto simp: cancelled_in_def)
  have counts: "phase_count TASK_STATE_QUEUED v + of_bool (task_state t = TASK_STATE_QUEUED)
      = phase_count TASK_STATE_QUEUED w"
    "phase_count TASK_STATE_RUNNING v = phase_count TASK_STATE_RUNNING w"
    using phase_count_eq [OF acc t v(4), of TASK_STATE_QUEUED]
      phase_count_eq [OF acc t v(4), of TASK_STATE_RUNNING]
    by (auto split: if_splits)
  have "\<exists>x. call_hook dbg tk hook w = Some (task_state t = TASK_STATE_QUEUED, v\<lparr>outside := x\<rparr>)"
  proof (cases hook)
    case (FinishQueuedOnce k)
    then have "call_hook dbg tk hook w = Some (task_state t = TASK_STATE_QUEUED, v\<lparr>outside := outside v\<rparr>)"
      using v(1) by (simp add: call_hook_def finish_queued_once_callback_def)
    then show ?thesis by blast
  next
    case (CancelSlotIfQueued slot k)
    then have fin: "finish_queued_once_callback dbg k w = Some (task_state t = TASK_STATE_QUEUED, v)"
      using v(1) by (simp add: finish_queued_once_callback_def)
    show ?thesis
    proof (cases "task_state t = TASK_STATE_QUEUED")
      case True
      with CancelSlotIfQueued fin show ?thesis
        by (auto simp: call_hook_def cancel_unstarted_won on_outside_def split_beta)
    next
      case False
      with CancelSlotIfQueued fin
      have "call_hook dbg tk hook w = Some (False, v)"
        by (simp add: call_hook_def cancel_unstarted_lost)
      with False show ?thesis by (intro exI [of _ "outside v"]) simp
    qed
  qed
  then obtain x where "call_hook dbg tk hook w = Some (task_state t = TASK_STATE_QUEUED, v\<lparr>outside := x\<rparr>)" ..
  from that [OF this] show ?thesis
    using v canc counts by (simp add: only_accounting_def)
qed

text \<open>
  The loop never panics, counts exactly the tasks it moved out of the queue, and touches no
  other task.
\<close>

lemma abort_loop_spec:
  fixes w :: "('r, 'x) service"
  assumes "accounted w" and "\<forall>(k, a) \<in> set hs. hook_target (cancel a) \<in> dom (trackers w)"
    and "unat n + phase_count TASK_STATE_QUEUED w < 2 ^ 64"
  shows "\<exists>n' w'. abort_loop dbg fin ab (call_hook dbg tk) hs n w = Some (n', w') \<and> accounted w' \<and>
    unat n' + phase_count TASK_STATE_QUEUED w' = unat n + phase_count TASK_STATE_QUEUED w \<and>
    phase_count TASK_STATE_RUNNING w' = phase_count TASK_STATE_RUNNING w \<and>
    same_core (state w) (state w') \<and> registrations w' = registrations w \<and>
    cancelled_in ((\<lambda>(k, a). hook_target (cancel a)) ` set hs) w w'"
  using assms
proof (induction hs arbitrary: n w)
  case Nil
  then show ?case by simp
next
  case (Cons e hs)
  obtain k a where e: "e = (k, a)" by force
  let ?ts = "\<lambda>hs. (\<lambda>(k, a). hook_target (cancel a)) ` set hs"
  show ?case
  proof (cases "fin (handle a) (outside w)")
    case True
    from Cons.IH [OF Cons.prems(1) _ Cons.prems(3)] Cons.prems(2) obtain n' w' where
      "abort_loop dbg fin ab (call_hook dbg tk) hs n w = Some (n', w')" "accounted w'"
      "unat n' + phase_count TASK_STATE_QUEUED w' = unat n + phase_count TASK_STATE_QUEUED w"
      "phase_count TASK_STATE_RUNNING w' = phase_count TASK_STATE_RUNNING w"
      "same_core (state w) (state w')" "registrations w' = registrations w"
      "cancelled_in (?ts hs) w w'" by auto
    with True e show ?thesis by (auto intro: cancelled_in_mono)
  next
    case False
    let ?u = "w\<lparr>outside := ab (handle a) (outside w)\<rparr>"
    have "accounted ?u" and "hook_target (cancel a) \<in> dom (trackers ?u)"
      using Cons.prems(1,2) e by auto
    from call_hook_spec [OF this, of dbg tk] obtain won v where v:
      "call_hook dbg tk (cancel a) ?u = Some (won, v)" "accounted v"
      "same_core (state ?u) (state v)" "registrations v = registrations ?u"
      "cancelled_in {hook_target (cancel a)} ?u v"
      "phase_count TASK_STATE_QUEUED v + of_bool won = phase_count TASK_STATE_QUEUED ?u"
      "phase_count TASK_STATE_RUNNING v = phase_count TASK_STATE_RUNNING ?u" .
    let ?m = "if won then n + 1 else n"
    have m: "unat ?m + phase_count TASK_STATE_QUEUED v = unat n + phase_count TASK_STATE_QUEUED w"
      and add: "(if won then add_assign dbg n 1 else Some n) = Some ?m"
      using v(6) Cons.prems(3) by (auto simp: unat_usize_add add_assign_fits)
    have d: "dom (trackers v) = dom (trackers w)" using v(5) by (simp add: cancelled_in_def)
    from Cons.IH [OF v(2), of ?m] m d Cons.prems(2,3) obtain n' w' where w':
      "abort_loop dbg fin ab (call_hook dbg tk) hs ?m v = Some (n', w')" "accounted w'"
      "unat n' + phase_count TASK_STATE_QUEUED w' = unat ?m + phase_count TASK_STATE_QUEUED v"
      "phase_count TASK_STATE_RUNNING w' = phase_count TASK_STATE_RUNNING v"
      "same_core (state v) (state w')" "registrations w' = registrations v"
      "cancelled_in (?ts hs) v w'" by auto
    have "abort_loop dbg fin ab (call_hook dbg tk) (e # hs) n w = Some (n', w')"
      using False e v(1) add w'(1) by (simp add: Let_def)
    moreover have "cancelled_in (?ts (e # hs)) w w'"
      using v(5) w'(7) e
      by (intro cancelled_in_trans [of _ w v w'])
        (auto elim!: cancelled_in_mono)
    moreover have "same_core (state w) (state w')"
      using v(3) w'(5) by (auto intro: same_core_trans)
    ultimately show ?thesis using w' m v by simp
  qed
qed

text \<open>
  When no handle reports its Tokio task as finished, no task the loop visits stays queued.
\<close>

lemma cancelled_in_not_requeued:
  assumes "cancelled_in ks w w'" and "trackers w k = Some t" and "trackers w' k = Some t'"
    and "task_state t \<noteq> TASK_STATE_QUEUED"
  shows "task_state t' \<noteq> TASK_STATE_QUEUED"
  using assms unfolding cancelled_in_def by fastforce

lemma call_hook_dequeues:
  assumes "accounted w" and "trackers w (hook_target hook) = Some t"
    and "call_hook dbg tk hook w = Some (won, w')" and "trackers w' (hook_target hook) = Some t'"
  shows "task_state t' \<noteq> TASK_STATE_QUEUED"
proof -
  let ?k = "hook_target hook"
  from tracker_finish_queued_spec [OF assms(1,2), of dbg] obtain v where v:
    "tracker_finish_queued dbg ?k w = Some (task_state t = TASK_STATE_QUEUED, v)"
    "trackers v = (trackers w)(?k \<mapsto> t\<lparr>task_state :=
       if task_state t = TASK_STATE_QUEUED then TASK_STATE_FINISHED else task_state t\<rparr>)" .
  have "trackers w' = trackers v"
    using assms(3) v(1)
    by (cases hook) (auto simp: call_hook_def finish_queued_once_callback_def
        cancel_unstarted_task_slot_if_queued_def on_outside_def split_beta split: if_splits)
  with v(2) assms(4) show ?thesis by (auto split: if_splits)
qed

lemma abort_loop_dequeues:
  fixes w :: "('r, 'x) service"
  assumes "accounted w" and "\<forall>(k, a) \<in> set hs. hook_target (cancel a) \<in> dom (trackers w)"
    and "unat n + phase_count TASK_STATE_QUEUED w < 2 ^ 64" and "\<forall>h x. \<not> fin h x"
    and "abort_loop dbg fin ab (call_hook dbg tk) hs n w = Some (n', w')"
    and "(k, a) \<in> set hs" and "trackers w' (hook_target (cancel a)) = Some t'"
  shows "task_state t' \<noteq> TASK_STATE_QUEUED"
  using assms
proof (induction hs arbitrary: n w)
  case Nil
  then show ?case by simp
next
  case (Cons e hs)
  obtain j b where e: "e = (j, b)" by force
  let ?u = "w\<lparr>outside := ab (handle b) (outside w)\<rparr>"
  have acc: "accounted ?u" and "hook_target (cancel b) \<in> dom (trackers ?u)"
    using Cons.prems(1,2) e by auto
  from call_hook_spec [OF this, of dbg tk] obtain won v where v:
    "call_hook dbg tk (cancel b) ?u = Some (won, v)" "accounted v"
    "same_core (state ?u) (state v)" "registrations v = registrations ?u"
    "cancelled_in {hook_target (cancel b)} ?u v"
    "phase_count TASK_STATE_QUEUED v + of_bool won = phase_count TASK_STATE_QUEUED ?u"
    "phase_count TASK_STATE_RUNNING v = phase_count TASK_STATE_RUNNING ?u" .
  let ?m = "if won then n + 1 else n"
  have m: "unat ?m + phase_count TASK_STATE_QUEUED v = unat n + phase_count TASK_STATE_QUEUED w"
    and add: "(if won then add_assign dbg n 1 else Some n) = Some ?m"
    using v(6) Cons.prems(3) by (auto simp: unat_usize_add add_assign_fits)
  have d: "dom (trackers v) = dom (trackers w)" using v(5) by (simp add: cancelled_in_def)
  have targets: "\<forall>(k, a) \<in> set hs. hook_target (cancel a) \<in> dom (trackers v)"
    using Cons.prems(2) d by auto
  have room: "unat ?m + phase_count TASK_STATE_QUEUED v < 2 ^ 64" using m Cons.prems(3) by simp
  have loop: "abort_loop dbg fin ab (call_hook dbg tk) hs ?m v = Some (n', w')"
  proof -
    from Cons.prems(4) have "\<not> fin (handle b) (outside w)" by blast
    with Cons.prems(5) e v(1) add show ?thesis by (simp add: Let_def)
  qed
  show ?case
  proof (cases "(k, a) \<in> set hs")
    case True
    from Cons.IH [OF v(2) targets room Cons.prems(4) loop True Cons.prems(7)] show ?thesis .
  next
    case False
    with Cons.prems(6) e have kb: "(k, a) = (j, b)" by simp
    from v(5) Cons.prems(2) e obtain t u where
      t: "trackers ?u (hook_target (cancel b)) = Some t" and
      u: "trackers v (hook_target (cancel b)) = Some u"
      using d by fastforce
    have "task_state u \<noteq> TASK_STATE_QUEUED"
      by (rule call_hook_dequeues [OF acc t v(1) u])
    moreover have "cancelled_in ((\<lambda>(k, a). hook_target (cancel a)) ` set hs) v w'"
      using abort_loop_spec [OF v(2) targets room, of dbg fin ab tk] loop by auto
    ultimately show ?thesis
      using cancelled_in_not_requeued u Cons.prems(7) kb by blast
  qed
qed

end
