(* ===== verification/Blocking_Calls.thy ===== *)
theory Blocking_Calls
  imports Blocking_Service_Props
begin

text \<open>
  The properties of the blocking service's calls, each taken as a whole: what a submission,
  a worker, a shutdown and a stop do on every branch, and the invariant over any sequence of
  calls. A witness runs the call on a small concrete service.
\<close>

section \<open>Sequences of calls\<close>

text \<open>
  One call on the service: a submission (with the address the allocator picks for its
  marker), a worker that received a task and its guard, the drop of a guard whose task Tokio
  discarded, a user's cancellation of the queued accounting, shutdown, stop.
\<close>

datatype ('t, 'r) service_call =
    CallSubmit usize 't
  | CallSubmitCallable usize 't
  | CallSubmitTracked usize 't
  | CallWorker "('t, 'r) task_closure" usize
  | CallDropGuard usize
  | CallCancelQueued usize
  | CallShutdown
  | CallStop

fun exec_call ::
  "bool \<Rightarrow> ('r, 't, 'x) tokio_ops
   \<Rightarrow> ((usize \<rightharpoonup> ('r, 'r cancel_hook) TrackedAbortHandle)
        \<Rightarrow> (usize \<times> ('r, 'r cancel_hook) TrackedAbortHandle) list)
   \<Rightarrow> ('t, 'r) service_call \<Rightarrow> ('r, 'x) service \<Rightarrow> ('r, 'x) service option" where
  "exec_call dbg tk iter (CallSubmit addr task) w = map_option snd (try_submit dbg tk addr task w)"
| "exec_call dbg tk iter (CallSubmitCallable addr task) w =
     map_option snd (try_submit_callable dbg tk addr task w)"
| "exec_call dbg tk iter (CallSubmitTracked addr task) w =
     map_option snd (try_submit_tracked_callable dbg tk addr task w)"
| "exec_call dbg tk iter (CallWorker task k) w = run_received dbg tk task k w"
| "exec_call dbg tk iter (CallDropGuard k) w = guard_drop dbg k w"
| "exec_call dbg tk iter (CallCancelQueued k) w = cancel_queued_callback dbg k w"
| "exec_call dbg tk iter CallShutdown w = shutdown w"
| "exec_call dbg tk iter CallStop w = map_option snd (stop dbg tk iter w)"

text \<open>A call is possible when its marker address is unused, or the guard it names exists.\<close>

fun call_possible :: "('t, 'r) service_call \<Rightarrow> ('r, 'x) service \<Rightarrow> bool" where
  "call_possible (CallSubmit addr task) w \<longleftrightarrow> registrations w addr = None"
| "call_possible (CallSubmitCallable addr task) w \<longleftrightarrow> registrations w addr = None"
| "call_possible (CallSubmitTracked addr task) w \<longleftrightarrow> registrations w addr = None"
| "call_possible (CallWorker task k) w \<longleftrightarrow> k \<in> dom (trackers w)"
| "call_possible (CallDropGuard k) w \<longleftrightarrow> k \<in> dom (trackers w)"
| "call_possible (CallCancelQueued k) w \<longleftrightarrow> k \<in> dom (trackers w)"
| "call_possible CallShutdown w \<longleftrightarrow> True"
| "call_possible CallStop w \<longleftrightarrow> True"

inductive calls_reach ::
  "bool \<Rightarrow> ('r, 't, 'x) tokio_ops
   \<Rightarrow> ((usize \<rightharpoonup> ('r, 'r cancel_hook) TrackedAbortHandle)
        \<Rightarrow> (usize \<times> ('r, 'r cancel_hook) TrackedAbortHandle) list)
   \<Rightarrow> usize \<Rightarrow> ('r, 'x) service \<Rightarrow> bool"
  for dbg tk iter capacity where
  calls_new: "calls_reach dbg tk iter capacity (with_task_capacity capacity x)"
| calls_step: "calls_reach dbg tk iter capacity w \<Longrightarrow> call_possible c w \<Longrightarrow>
    exec_call dbg tk iter c w = Some w' \<Longrightarrow> calls_reach dbg tk iter capacity w'"

text \<open>What is documented of a hash map's iterator: every entry, once.\<close>

definition iterates :: "((usize \<rightharpoonup> 'a) \<Rightarrow> (usize \<times> 'a) list) \<Rightarrow> bool" where
  "iterates iter \<longleftrightarrow> (\<forall>m. finite (dom m) \<longrightarrow> distinct (map fst (iter m)) \<and> map_of (iter m) = m)"

definition sorted_iter :: "(usize \<rightharpoonup> 'a) \<Rightarrow> (usize \<times> 'a) list" where
  "sorted_iter m = map (\<lambda>k. (k, the (m k))) (sorted_list_of_set (dom m))"

lemma iterates_sorted_iter: "iterates sorted_iter"
  unfolding iterates_def
proof (intro allI impI conjI)
  fix m :: "usize \<rightharpoonup> 'a"
  assume fin: "finite (dom m)"
  then show "distinct (map fst (sorted_iter m))"
    by (simp add: sorted_iter_def comp_def)
  have "map_of (sorted_iter m) k = m k" for k
  proof (cases "k \<in> dom m")
    case True
    with fin show ?thesis by (auto simp: sorted_iter_def map_of_map_keys)
  next
    case False
    with fin have "map_of (sorted_iter m) k = None"
      by (auto simp: sorted_iter_def map_of_eq_None_iff)
    with False show ?thesis by (simp add: domIff)
  qed
  then show "map_of (sorted_iter m) = m" by blast
qed

section \<open>Lemmas on whole calls\<close>

text \<open>The admission decision as the documentation states it: shutdown first, then capacity.\<close>

definition admission_error :: "('r, 'x) service \<Rightarrow> SubmissionError option" where
  "admission_error w =
     (if is_not_running (state w) then Some Shutdown
      else if unat (task_capacity (state w))
        \<le> phase_count TASK_STATE_QUEUED w + phase_count TASK_STATE_RUNNING w then Some Saturated
      else None)"

definition ready :: "('r, 'x) service \<Rightarrow> bool" where
  "ready w \<longleftrightarrow> service_inv w \<and> \<not> submission_lock (state w)"

lemma ready_inv: "ready w \<Longrightarrow> service_inv w" "ready w \<Longrightarrow> \<not> submission_lock (state w)"
  by (simp_all add: ready_def)

lemma ready_new: "ready (with_task_capacity capacity x)"
  by (simp add: ready_def service_inv_new)
    (simp add: with_task_capacity_def state_with_task_capacity_def)

lemma prepare_rejects:
  assumes "ready w" and "admission_error w = Some e"
  shows "prepare_blocking_submission dbg addr w = Some (Inl e, w)"
proof -
  note acc = service_invD(1) [OF ready_inv(1) [OF assms(1)]]
  show ?thesis
  proof (cases "is_not_running (state w)")
    case True
    with assms show ?thesis by (simp add: admission_error_def prepare_Shutdown ready_def)
  next
    case False
    with assms unfinished_accounted [OF acc] show ?thesis
      by (auto simp: admission_error_def word_le_nat_alt ready_def
          intro!: prepare_Saturated split: if_splits)
  qed
qed

lemma prepare_admits:
  assumes "ready w" and "admission_error w = None" and "registrations w addr = None"
  obtains v where "prepare_blocking_submission dbg addr w = Some (Inr addr, v)"
    "prepared_from addr w v"
  using assms prepared [of w addr dbg]
  by (auto simp: admission_error_def ready_def not_le split: if_splits)

lemma accepted_ready: "accepted_outcome addr w w' \<Longrightarrow> ready w'"
  by (simp add: accepted_outcome_def ready_def)

lemma try_submit_rejects:
  assumes "ready w" and "admission_error w = Some e"
  shows "try_submit dbg tk addr task w = Some (Inl (rejected_new e task), w)"
    "try_submit_callable dbg tk addr task w = Some (Inl (rejected_new e task), w)"
    "try_submit_tracked_callable dbg tk addr task w = Some (Inl (rejected_new e task), w)"
  by (simp_all add: try_submit_def try_submit_callable_def try_submit_tracked_callable_def
      prepare_rejects [OF assms])

lemma prepare_outside: "prepare_blocking_submission dbg addr w = Some (r, v) \<Longrightarrow> outside v = outside w"
  by (auto simp: prepare_blocking_submission_def guard_new_def Let_def split: bind_splits if_splits)

lemma try_submit_submitted:
  assumes "ready w" and "admission_error w = None" and "registrations w addr = None"
  shows "\<exists>w'. try_submit dbg tk addr task w = Some (Inr (), w') \<and>
    submitted tk addr (FinishQueuedOnce addr) (RunRunnable task) (outside w) w w'"
proof -
  obtain v where v: "prepare_blocking_submission dbg addr w = Some (Inr addr, v)"
    "prepared_from addr w v" using prepare_admits [OF assms] .
  obtain sender receiver x join y where c: "oneshot_channel tk (outside v) = ((sender, receiver), x)"
    "spawn_blocking tk receiver x = (join, y)" by (metis prod.exhaust)
  from deliver_submitted [OF v(2) _ c, of "FinishQueuedOnce addr" dbg "RunRunnable task"]
  show ?thesis using v(1) prepare_outside [OF v(1)] by (auto simp: try_submit_def)
qed

lemma try_submit_callable_submitted:
  assumes "ready w" and "admission_error w = None" and "registrations w addr = None"
    and ends: "endpoint_parts tk (outside w) = ((h, completion), x)"
    and slot: "slot_cell_new tk completion (slot_accept tk completion x) = (cell, y)"
  shows "\<exists>w'. try_submit_callable dbg tk addr task w = Some (Inr h, w') \<and>
    submitted tk addr (CancelSlotIfQueued cell addr) (RunCallable task cell) y w w'"
proof -
  obtain v where v: "prepare_blocking_submission dbg addr w = Some (Inr addr, v)"
    "prepared_from addr w v" using prepare_admits [OF assms(1-3)] .
  let ?v = "v\<lparr>outside := y\<rparr>"
  have pv: "prepared_from addr w ?v" using v(2) by (rule prepared_from_outside)
  obtain sender receiver x' join y' where c: "oneshot_channel tk (outside ?v) = ((sender, receiver), x')"
    "spawn_blocking tk receiver x' = (join, y')" by (metis prod.exhaust)
  from deliver_submitted [OF pv _ c, of "CancelSlotIfQueued cell addr" dbg "RunCallable task cell"]
  show ?thesis using v(1) prepare_outside [OF v(1)] ends slot
    by (auto simp: try_submit_callable_def on_outside_def share_task_slot_def Let_def)
qed

lemma try_submit_tracked_submitted:
  assumes "ready w" and "admission_error w = None" and "registrations w addr = None"
    and ends: "endpoint_tracked_parts tk (outside w) = ((h, completion), x)"
    and slot: "slot_cell_new tk completion (slot_accept tk completion x) = (cell, y)"
    and chan: "oneshot_channel tk y = ((sender, receiver), y')" and spawn: "spawn_blocking tk receiver y' = (join, y'')"
  shows "\<exists>w'. try_submit_tracked_callable dbg tk addr task w =
      Some (Inr \<lparr>tracked_task = h, blocking_abort_handle = abort_handle_of tk join, cancel_queued_task = addr\<rparr>, w') \<and>
    submitted tk addr (CancelSlotIfQueued cell addr) (RunCallable task cell) y w w'"
proof -
  obtain v where v: "prepare_blocking_submission dbg addr w = Some (Inr addr, v)"
    "prepared_from addr w v" using prepare_admits [OF assms(1-3)] .
  let ?v = "v\<lparr>outside := y\<rparr>"
  have pv: "prepared_from addr w ?v" using v(2) by (rule prepared_from_outside)
  have "oneshot_channel tk (outside ?v) = ((sender, receiver), y')" using chan by simp
  from deliver_submitted [OF pv _ this spawn, of "CancelSlotIfQueued cell addr" dbg "RunCallable task cell"]
  show ?thesis using v(1) prepare_outside [OF v(1)] ends slot
    by (auto simp: try_submit_tracked_callable_def on_outside_def share_task_slot_def Let_def)
qed

lemma try_submit_accepts:
  assumes "ready w" and "admission_error w = None" and "registrations w addr = None"
  obtains w' where "try_submit dbg tk addr task w = Some (Inr (), w')"
    "accepted_outcome addr w w'"
proof -
  obtain w' where w': "try_submit dbg tk addr task w = Some (Inr (), w')"
    "submitted tk addr (FinishQueuedOnce addr) (RunRunnable task) (outside w) w w'"
    using try_submit_submitted [OF assms, of dbg tk task] by (elim exE conjE) (rule that)
  show ?thesis by (rule that [OF w'(1) submitted_accepted [OF w'(2)]])
qed

lemma try_submit_callable_accepts:
  assumes "ready w" and "admission_error w = None" and "registrations w addr = None"
  obtains h w' where "try_submit_callable dbg tk addr task w = Some (Inr h, w')"
    "accepted_outcome addr w w'"
proof -
  obtain h completion x where ends: "endpoint_parts tk (outside w) = ((h, completion), x)" by (metis prod.exhaust)
  obtain cell y where slot: "slot_cell_new tk completion (slot_accept tk completion x) = (cell, y)" by force
  obtain w' where w': "try_submit_callable dbg tk addr task w = Some (Inr h, w')"
    "submitted tk addr (CancelSlotIfQueued cell addr) (RunCallable task cell) y w w'"
    using try_submit_callable_submitted [OF assms ends slot] by blast
  show ?thesis by (rule that [OF w'(1) submitted_accepted [OF w'(2)]])
qed

lemma try_submit_tracked_accepts:
  assumes "ready w" and "admission_error w = None" and "registrations w addr = None"
  obtains h w' where "try_submit_tracked_callable dbg tk addr task w = Some (Inr h, w')"
    "accepted_outcome addr w w'" "cancel_queued_task h = addr"
proof -
  obtain h completion x where ends: "endpoint_tracked_parts tk (outside w) = ((h, completion), x)"
    by (metis prod.exhaust)
  obtain cell y where slot: "slot_cell_new tk completion (slot_accept tk completion x) = (cell, y)" by force
  obtain sender receiver y' where chan: "oneshot_channel tk y = ((sender, receiver), y')" by (metis prod.exhaust)
  obtain join y'' where spawn: "spawn_blocking tk receiver y' = (join, y'')" by force
  obtain w' where w': "try_submit_tracked_callable dbg tk addr task w =
      Some (Inr \<lparr>tracked_task = h, blocking_abort_handle = abort_handle_of tk join, cancel_queued_task = addr\<rparr>, w')"
    "submitted tk addr (CancelSlotIfQueued cell addr) (RunCallable task cell) y w w'"
    using try_submit_tracked_submitted [OF assms ends slot chan spawn, of dbg task] by blast
  show ?thesis by (rule that [OF w'(1) submitted_accepted [OF w'(2)]]) simp
qed

lemma cancel_queued_ready:
  assumes "ready w" and "trackers w k = Some t"
  obtains w' where
    "tracker_cancel_queued dbg k w = Some (task_state t = TASK_STATE_QUEUED, w')" "ready w'"
    "trackers w' = (trackers w)(k \<mapsto> t\<lparr>task_state :=
       if task_state t = TASK_STATE_QUEUED then TASK_STATE_FINISHED else task_state t\<rparr>)"
    "abort_handles (state w') = (abort_handles (state w))(k := None)"
    "lifecycle_byte (state w') = lifecycle_byte (state w)"
    "task_capacity (state w') = task_capacity (state w)" "outside w' = outside w"
proof -
  note inv = ready_inv(1) [OF assms(1)]
  from tracker_cancel_queued_spec [OF service_invD(1) [OF inv] assms(2), of dbg] obtain w' where w':
    "tracker_cancel_queued dbg k w = Some (task_state t = TASK_STATE_QUEUED, w')" "accounted w'"
    "trackers w' = (trackers w)(k \<mapsto> t\<lparr>task_state :=
       if task_state t = TASK_STATE_QUEUED then TASK_STATE_FINISHED else task_state t\<rparr>)"
    "registrations w' = (registrations w)(k \<mapsto> \<lparr>finished = True\<rparr>)"
    "abort_handles (state w') = (abort_handles (state w))(k := None)"
    "lifecycle_byte (state w') = lifecycle_byte (state w)"
    "task_capacity (state w') = task_capacity (state w)"
    "submission_lock (state w') = submission_lock (state w)" "outside w' = outside w" .
  have "service_inv w'"
    using inv w'(2-5) by (auto simp: service_inv_def handle_ok_def)
  then have "ready w'" using assms(1) w'(8) by (simp add: ready_def)
  from that [OF w'(1) this w'(3,5,6,7,9)] show ?thesis .
qed

lemma mark_started_ready:
  assumes ready: "ready w" and t: "trackers w k = Some t"
  obtains v where "guard_mark_started dbg k w = Some (task_state t \<noteq> TASK_STATE_FINISHED, v)" "ready v"
    "trackers v = (trackers w)(k \<mapsto> t\<lparr>task_state :=
       if task_state t = TASK_STATE_QUEUED then TASK_STATE_RUNNING else task_state t\<rparr>)"
    "only_accounting w v"
proof -
  note inv = ready_inv(1) [OF ready]
  from tracker_mark_started_spec [OF service_invD(1) [OF inv] t, of dbg] obtain v where v:
    "tracker_mark_started dbg k w = Some (task_state t \<noteq> TASK_STATE_FINISHED, v)"
    "accounted v" "only_accounting w v"
    "trackers v = (trackers w)(k \<mapsto> t\<lparr>task_state :=
       if task_state t = TASK_STATE_QUEUED then TASK_STATE_RUNNING else task_state t\<rparr>)" .
  have "handle_ok v j a" if "abort_handles (state v) j = Some a" for j a
  proof -
    from that v(3) service_invD(3) [OF inv] have "handle_ok w j a"
      by (simp add: only_accounting_def same_core_def)
    with v(3,4) t show ?thesis by (auto simp: handle_ok_def only_accounting_def)
  qed
  with v(2,3) ready have "ready v"
    by (auto simp: ready_def service_inv_def only_accounting_def same_core_def)
  with v show ?thesis
    by (intro that [of v]) (simp_all add: guard_mark_started_def)
qed

lemma run_received_spec:
  assumes ready: "ready w" and t: "trackers w k = Some t"
  obtains w' where "run_received dbg tk task k w = Some w'" "ready w'"
    "trackers w' = (trackers w)(k \<mapsto> t\<lparr>task_state := TASK_STATE_FINISHED\<rparr>)"
    "abort_handles (state w') = (abort_handles (state w))(k := None)"
    "lifecycle_byte (state w') = lifecycle_byte (state w)"
    "task_capacity (state w') = task_capacity (state w)"
    "outside w' = (if task_state t = TASK_STATE_FINISHED then closure_drop tk task (outside w)
       else run_closure tk task (outside w))"
proof -
  from mark_started_ready [OF ready t, of dbg] obtain v where v:
    "guard_mark_started dbg k w = Some (task_state t \<noteq> TASK_STATE_FINISHED, v)" "ready v"
    "trackers v = (trackers w)(k \<mapsto> t\<lparr>task_state :=
       if task_state t = TASK_STATE_QUEUED then TASK_STATE_RUNNING else task_state t\<rparr>)"
    "only_accounting w v" .
  note invv = ready_inv(1) [OF v(2)]
  let ?v = "if task_state t \<noteq> TASK_STATE_FINISHED
    then v\<lparr>outside := run_closure tk task (outside v)\<rparr> else v"
  let ?t = "t\<lparr>task_state := if task_state t = TASK_STATE_QUEUED then TASK_STATE_RUNNING else task_state t\<rparr>"
  have "service_inv (v\<lparr>outside := x\<rparr>)" for x
    by (rule service_inv_frame [OF invv]) simp_all
  with invv have i: "service_inv ?v" by simp
  have k: "trackers ?v k = Some ?t" using v(3) by simp
  from guard_drop_inv [OF i k, of dbg] obtain u where u: "guard_drop dbg k ?v = Some u"
    "service_inv u" "trackers u = (trackers ?v)(k \<mapsto> ?t\<lparr>task_state := TASK_STATE_FINISHED\<rparr>)"
    "registrations u = (registrations ?v)(k \<mapsto> \<lparr>finished = True\<rparr>)"
    "abort_handles (state u) = (abort_handles (state ?v))(k := None)"
    "lifecycle_byte (state u) = lifecycle_byte (state ?v)"
    "task_capacity (state u) = task_capacity (state ?v)"
    "submission_lock (state u) = submission_lock (state ?v)" "outside u = outside ?v" .
  let ?u = "if task_state t \<noteq> TASK_STATE_FINISHED then u
    else u\<lparr>outside := closure_drop tk task (outside u)\<rparr>"
  have "service_inv (u\<lparr>outside := x\<rparr>)" for x
    by (rule service_inv_frame [OF u(2)]) simp_all
  with u(2) have "service_inv ?u" by simp
  then have "ready ?u"
    using ready u(8) v(4) by (auto simp: ready_def only_accounting_def same_core_def)
  moreover have "run_received dbg tk task k w = Some ?u"
    using v(1) u(1) by (auto simp: run_received_def)
  ultimately show ?thesis
    using that [of ?u] u v(3,4) by (auto simp: only_accounting_def same_core_def)
qed

lemma shutdown_spec:
  assumes "ready w"
  obtains w' where "shutdown w = Some w'" "ready w'"
    "load (lifecycle_byte (state w')) =
       (if load (lifecycle_byte (state w)) = Running then ShuttingDown else load (lifecycle_byte (state w)))"
    "trackers w' = trackers w" "registrations w' = registrations w" "outside w' = outside w"
    "abort_handles (state w') = abort_handles (state w)"
    "task_counts (state w') = task_counts (state w)"
    "task_capacity (state w') = task_capacity (state w)"
    "capacity_tx (state w') = wrapping_add (capacity_tx (state w)) 1"
    "terminated_notify (state w') = terminated_notify (state w)
       + of_bool (is_empty (task_counts (state w)))"
proof -
  let ?s = "notify_if_terminated (notify_capacity_changed
    (unlock_submission (state_shutdown ((state w)\<lparr>submission_lock := True\<rparr>))))"
  have "shutdown w = Some (w\<lparr>state := ?s\<rparr>)"
    using assms by (simp add: shutdown_def lock_submission_def ready_def Let_def)
  moreover have f: "task_counts ?s = task_counts (state w)"
    "task_capacity ?s = task_capacity (state w)" "abort_handles ?s = abort_handles (state w)"
    "\<not> submission_lock ?s" "capacity_tx ?s = wrapping_add (capacity_tx (state w)) 1"
    "lifecycle_byte ?s = shutdown_bits (lifecycle_byte (state w))"
    by (simp_all add: notify_if_terminated_def notify_termination_waiters_def notify_all_def notify_waiters_def Let_def
        notify_capacity_changed_def unlock_submission_def state_shutdown_def)
  moreover have "terminated_notify ?s = terminated_notify (state w)
      + of_bool (is_empty (task_counts (state w)))"
    by (auto simp: notify_if_terminated_def notify_termination_waiters_def notify_all_def notify_waiters_def Let_def is_not_running_def
        notify_capacity_changed_def unlock_submission_def state_shutdown_def
        simp del: load_Running_iff)
  moreover have "ready (w\<lparr>state := ?s\<rparr>)"
    using assms f by (auto simp: ready_def intro!: service_inv_frame [of w])
  ultimately show ?thesis
    by (intro that [of "w\<lparr>state := ?s\<rparr>"]) (simp_all add: load_shutdown_bits del: load_Running_iff)
qed

lemma stop_unfold:
  fixes w :: "('r, 'x) service"
  assumes "ready w"
  defines "v \<equiv> w\<lparr>state := (state w)\<lparr>lifecycle_byte := as_u8 Stopping, abort_handles := Map.empty\<rparr>\<rparr>"
  shows "stop dbg tk iter w = do {
    (n, u) \<leftarrow> abort_loop dbg (abort_is_finished tk) (abort_request tk) (call_hook dbg tk)
      (iter (abort_handles (state w))) 0 v;
    Some (\<lparr>report_queued = queued (task_counts (state w)), report_running = running (task_counts (state w)),
      report_cancelled = n\<rparr>, map_state notify_if_terminated (map_state notify_capacity_changed u))
  }"
proof -
  have lock: "lock_submission (state w) = Some ((state w)\<lparr>submission_lock := True\<rparr>)"
    using assms(1) by (simp add: ready_def lock_submission_def)
  have v: "v = w\<lparr>state := (unlock_submission (state_stop ((state w)\<lparr>submission_lock := True\<rparr>)))
      \<lparr>abort_handles := Map.empty\<rparr>\<rparr>"
    using assms(1) by (simp add: v_def ready_def unlock_submission_def state_stop_def stop_bits_def)
  show ?thesis
    by (simp add: stop_def lock abort_tracked_tasks_def task_count_snapshot_def Let_def v
        unlock_submission_def state_stop_def)
qed

lemma stop_spec:
  fixes w :: "('r, 'x) service"
  assumes ready: "ready w" and iter: "iterates iter"
  obtains rep w' where "stop dbg tk iter w = Some (rep, w')" "ready w'"
    "unat (report_queued rep) = phase_count TASK_STATE_QUEUED w"
    "unat (report_running rep) = phase_count TASK_STATE_RUNNING w"
    "unat (report_cancelled rep) + phase_count TASK_STATE_QUEUED w' = phase_count TASK_STATE_QUEUED w"
    "phase_count TASK_STATE_RUNNING w' = phase_count TASK_STATE_RUNNING w"
    "load (lifecycle_byte (state w')) = Stopping" "abort_handles (state w') = Map.empty"
    "task_capacity (state w') = task_capacity (state w)" "registrations w' = registrations w"
    "cancelled_in (dom (abort_handles (state w))) w w'"
    "(\<forall>h x. \<not> abort_is_finished tk h x) \<Longrightarrow>
      (\<And>k t. abort_handles (state w) k \<noteq> None \<Longrightarrow> trackers w' k = Some t \<Longrightarrow>
         task_state t \<noteq> TASK_STATE_QUEUED)"
proof -
  note inv = ready_inv(1) [OF ready]
  let ?hs = "iter (abort_handles (state w))"
  let ?v = "w\<lparr>state := (state w)\<lparr>lifecycle_byte := as_u8 Stopping, abort_handles := Map.empty\<rparr>\<rparr>"
  let ?loop = "\<lambda>w. abort_loop dbg (abort_is_finished tk) (abort_request tk) (call_hook dbg tk) ?hs 0 w"
  have sub: "dom (abort_handles (state w)) \<subseteq> dom (trackers w)"
    using service_invD(3) [OF inv] by (fastforce simp: handle_ok_def)
  have "finite (dom (trackers w))"
    using service_invD(2) [OF inv] by (rule trackers_ok_finite)
  with sub iter have hs: "map_of ?hs = abort_handles (state w)" "distinct (map fst ?hs)"
    using finite_subset unfolding iterates_def by blast+
  have mem: "abort_handles (state w) k = Some a \<longleftrightarrow> (k, a) \<in> set ?hs" for k a
    using hs by (metis map_of_eq_Some_iff)
  have tgt: "(k, a) \<in> set ?hs \<Longrightarrow> hook_target (cancel a) = k" for k a
    using service_invD(3) [OF inv] mem by (auto simp: handle_ok_def)
  have acc: "accounted ?v" by (rule accounted_frame [OF service_invD(1) [OF inv]]) simp_all
  have dom: "\<forall>(k, a) \<in> set ?hs. hook_target (cancel a) \<in> dom (trackers ?v)"
    using tgt mem sub by fastforce
  have counts: "counts_are (phase_count TASK_STATE_QUEUED w) (phase_count TASK_STATE_RUNNING w)
      (task_counts (state w))"
    using service_invD(1) [OF inv] by (simp add: accounted_def)
  then have room: "unat (0 :: usize) + phase_count TASK_STATE_QUEUED ?v < 2 ^ 64"
    by (simp add: counts_are_def)
  from abort_loop_spec [OF acc dom room, of dbg "abort_is_finished tk" "abort_request tk" tk]
  obtain n u where u: "?loop ?v = Some (n, u)" "accounted u"
    "unat n + phase_count TASK_STATE_QUEUED u = phase_count TASK_STATE_QUEUED w"
    "phase_count TASK_STATE_RUNNING u = phase_count TASK_STATE_RUNNING w"
    "same_core (state ?v) (state u)" "registrations u = registrations w"
    "cancelled_in ((\<lambda>(k, a). hook_target (cancel a)) ` set ?hs) ?v u" by auto
  let ?w = "map_state notify_if_terminated (map_state notify_capacity_changed u)"
  have core: "same_core (state ?v) (state ?w)"
    using u(5) by (simp add: map_state_def) (meson same_core_trans same_core_updates)
  have tr: "trackers ?w = trackers u" "registrations ?w = registrations u"
    "task_counts (state ?w) = task_counts (state u)"
    by (simp_all add: map_state_def)
  have pc: "phase_count st ?w = phase_count st u" for st by (simp add: phase_count_def tr)
  have "accounted ?w"
    using core same_coreD(2) [OF u(5)] same_coreD(2) [OF core]
    by (intro accounted_frame [OF u(2)]) (simp_all add: tr)
  with core ready have "ready ?w"
    by (simp add: ready_def service_inv_def same_core_def)
  moreover have "(\<lambda>(k, a). hook_target (cancel a)) ` set ?hs \<subseteq> dom (abort_handles (state w))"
    using tgt mem by fastforce
  then have "cancelled_in (dom (abort_handles (state w))) ?v u"
    by (rule cancelled_in_mono [OF u(7)])
  then have "cancelled_in (dom (abort_handles (state w))) w ?w"
    by (simp add: cancelled_in_def tr)
  moreover have "task_state t \<noteq> TASK_STATE_QUEUED"
    if nofin: "\<forall>h x. \<not> abort_is_finished tk h x" and "abort_handles (state w) k \<noteq> None"
      and t: "trackers ?w k = Some t" for k t
  proof -
    from that(2) obtain a where a: "(k, a) \<in> set ?hs" using mem by blast
    with t tr(1) tgt [OF a] have "trackers u (hook_target (cancel a)) = Some t" by simp
    from abort_loop_dequeues [OF acc dom room nofin u(1) a this] show ?thesis .
  qed
  moreover have "load (lifecycle_byte (state ?w)) = Stopping"
    using core by (simp add: same_core_def load_def del: as_u8.simps)
  moreover have "stop dbg tk iter w = Some (\<lparr>report_queued = queued (task_counts (state w)),
      report_running = running (task_counts (state w)), report_cancelled = n\<rparr>, ?w)"
    using u(1) by (simp add: stop_unfold [OF ready])
  ultimately show ?thesis
    using counts core u(3,4,6) pc tr
    by (intro that [of "\<lparr>report_queued = queued (task_counts (state w)),
      report_running = running (task_counts (state w)), report_cancelled = n\<rparr>" ?w])
      (simp_all add: counts_are_def same_core_def)
qed

lemma accepted_keeps_capacity:
  "accepted_outcome addr w w' \<Longrightarrow> task_capacity (state w') = task_capacity (state w)"
  by (simp add: accepted_outcome_def)

text \<open>No call panics or waits for itself, and each leaves the service ready for the next.\<close>

lemma exec_submit_ready:
  assumes "ready w" and "registrations w addr = None"
  shows "\<exists>w'. exec_call dbg tk iter (CallSubmit addr task) w = Some w' \<and> ready w' \<and>
      task_capacity (state w') = task_capacity (state w)"
    and "\<exists>w'. exec_call dbg tk iter (CallSubmitCallable addr task) w = Some w' \<and> ready w' \<and>
      task_capacity (state w') = task_capacity (state w)"
    and "\<exists>w'. exec_call dbg tk iter (CallSubmitTracked addr task) w = Some w' \<and> ready w' \<and>
      task_capacity (state w') = task_capacity (state w)"
proof -
  note kept = accepted_ready accepted_keeps_capacity
  show "\<exists>w'. exec_call dbg tk iter (CallSubmit addr task) w = Some w' \<and> ready w' \<and>
      task_capacity (state w') = task_capacity (state w)"
  proof (cases "admission_error w")
    case None
    from try_submit_accepts [OF assms(1) None assms(2), of dbg tk task] show ?thesis
      by (metis exec_call.simps(1) kept option.simps(9) snd_conv)
  qed (use assms(1) in \<open>simp add: try_submit_rejects\<close>)
  show "\<exists>w'. exec_call dbg tk iter (CallSubmitCallable addr task) w = Some w' \<and> ready w' \<and>
      task_capacity (state w') = task_capacity (state w)"
  proof (cases "admission_error w")
    case None
    from try_submit_callable_accepts [OF assms(1) None assms(2), of dbg tk task] show ?thesis
      by (metis exec_call.simps(2) kept option.simps(9) snd_conv)
  qed (use assms(1) in \<open>simp add: try_submit_rejects\<close>)
  show "\<exists>w'. exec_call dbg tk iter (CallSubmitTracked addr task) w = Some w' \<and> ready w' \<and>
      task_capacity (state w') = task_capacity (state w)"
  proof (cases "admission_error w")
    case None
    from try_submit_tracked_accepts [OF assms(1) None assms(2), of dbg tk task] show ?thesis
      by (metis exec_call.simps(3) kept option.simps(9) snd_conv)
  qed (use assms(1) in \<open>simp add: try_submit_rejects\<close>)
qed

lemma exec_call_ready:
  assumes ready: "ready w" and poss: "call_possible c w" and iter: "iterates iter"
  shows "\<exists>w'. exec_call dbg tk iter c w = Some w' \<and> ready w' \<and>
    task_capacity (state w') = task_capacity (state w)"
proof (cases c)
  case (CallWorker task k)
  then obtain t where t: "trackers w k = Some t" using poss by auto
  from run_received_spec [OF ready t, of dbg tk task] show ?thesis
    using CallWorker by (metis exec_call.simps(4))
next
  case (CallDropGuard k)
  then obtain t where t: "trackers w k = Some t" using poss by auto
  from guard_drop_inv [OF ready_inv(1) [OF ready] t, of dbg] ready show ?thesis
    using CallDropGuard by (metis exec_call.simps(5) ready_def)
next
  case (CallCancelQueued k)
  then obtain t where t: "trackers w k = Some t" using poss by auto
  from cancel_queued_ready [OF ready t, of dbg] show ?thesis
    using CallCancelQueued
    by (metis (no_types, lifting) cancel_queued_callback_def exec_call.simps(6) option.simps(9) snd_conv)
next
  case CallShutdown
  from shutdown_spec [OF ready] show ?thesis
    using CallShutdown by (metis exec_call.simps(7))
next
  case CallStop
  from stop_spec [OF ready iter, of dbg tk] show ?thesis
    using CallStop by (metis (no_types, lifting) exec_call.simps(8) option.simps(9) snd_conv)
qed (use poss exec_submit_ready [OF ready] in \<open>simp_all add: call_possible.simps del: exec_call.simps\<close>)

lemma calls_reach_ready:
  assumes "calls_reach dbg tk iter capacity w" and "iterates iter"
  shows "ready w \<and> task_capacity (state w) = capacity"
  using assms(1)
proof (induction rule: calls_reach.induct)
  case (calls_new x)
  have "task_capacity (state (with_task_capacity capacity x)) = capacity"
    by (simp add: with_task_capacity_def state_with_task_capacity_def)
  then show ?case by (simp add: ready_new)
next
  case (calls_step w c w')
  with exec_call_ready [OF _ calls_step.hyps(2) assms(2), of dbg tk] show ?case by auto
qed

lemma ready_counts:
  assumes "ready w"
  shows "unat (queued (task_counts (state w))) = phase_count TASK_STATE_QUEUED w"
    "unat (running (task_counts (state w))) = phase_count TASK_STATE_RUNNING w"
    "phase_count TASK_STATE_QUEUED w + phase_count TASK_STATE_RUNNING w
      \<le> unat (task_capacity (state w))"
  using service_invD(1) [OF ready_inv(1) [OF assms]] by (simp_all add: accounted_def counts_are_def)

lemma ready_handle:
  assumes "ready w" and "abort_handles (state w) k = Some a"
  shows "handle_ok w k a"
  using service_invD(3) [OF ready_inv(1) [OF assms(1)] assms(2)] .

text \<open>A task that has come and finished leaves the counters as they were before it.\<close>

lemma finished_task_uncounted:
  assumes "ready w" and "registrations w addr = None" and "ready u"
    and "trackers u = (trackers w)(addr \<mapsto> t)" and "task_state t = TASK_STATE_FINISHED"
  shows "task_counts (state u) = task_counts (state w)"
proof -
  note ok = service_invD(2) [OF ready_inv(1) [OF assms(1)]]
  have none: "trackers w addr = None"
    using ok assms(2) by (metis domIff trackers_ok_def)
  have "phase_count st u = phase_count st w" if "st \<noteq> TASK_STATE_FINISHED" for st
    using that assms(4,5) none trackers_ok_finite [OF ok]
    by (simp add: phase_count_def msum_upd_new in_phase_def)
  then show ?thesis
    using ready_counts(1,2) [OF assms(1)] ready_counts(1,2) [OF assms(3)]
    by (intro TokioExecutorTaskCounts.equality word_unat_eq_iff [THEN iffD2]) simp_all
qed

section \<open>A concrete environment for the witnesses\<close>

text \<open>
  An environment in which every reference is a number, no task has finished, every payload
  is delivered, and the outside state is a log: 100 plus the task for a run, 200 for a
  dropped closure, 300 plus the handle for an abort request, 400 plus the cell for a
  cancelled slot.
\<close>

definition demo_ops :: "(nat, nat, nat list) tokio_ops" where
  "demo_ops = \<lparr>oneshot_channel = (\<lambda>x. ((1, 2), x)), spawn_blocking = (\<lambda>r x. (3, x)),
     abort_handle_of = (\<lambda>r. r), oneshot_send = (\<lambda>s p x. (True, x)),
     blocking_recv = (\<lambda>r x. (None, x)), abort_is_finished = (\<lambda>h x. False),
     abort_request = (\<lambda>h x. (300 + h) # x), endpoint_parts = (\<lambda>x. ((4, 5), x)),
     endpoint_tracked_parts = (\<lambda>x. ((4, 5), x)), slot_accept = (\<lambda>s x. x),
     slot_cell_new = (\<lambda>s x. (6, x)), slot_cell_take = (\<lambda>c x. (Some 5, x)),
     slot_cell_cancel_unstarted = (\<lambda>c x. (True, (400 + c) # x)),
     runner_call = (\<lambda>t x. (100 + t) # x), runner_run = (\<lambda>t s x. (100 + t) # x),
     closure_drop = (\<lambda>p x. 200 # x), task_drop = (\<lambda>t x. (500 + t) # x)\<rparr>"

definition demo_new :: "(nat, nat list) service" where
  "demo_new = with_task_capacity 2 []"

text \<open>One callable queued (task 42, marker at address 16), and the service after a shutdown.\<close>

definition demo_queued :: "(nat, nat list) service" where
  "demo_queued = the (exec_call True demo_ops sorted_iter (CallSubmitCallable 16 42) demo_new)"

definition demo_closed :: "(nat, nat list) service" where
  "demo_closed = the (shutdown demo_new)"

lemma demo_new_ready: "ready demo_new"
  by (simp add: demo_new_def ready_new)

lemma demo_new_outside: "outside demo_new = []"
  by (simp add: demo_new_def with_task_capacity_def)

lemma demo_new_admits: "admission_error demo_new = None" "registrations demo_new addr = None"
  by (simp_all add: demo_new_def admission_error_def with_task_capacity_def
      state_with_task_capacity_def is_not_running_def phase_count_def)

lemma demo_queued_eq:
  "exec_call True demo_ops sorted_iter (CallSubmitCallable 16 42) demo_new = Some demo_queued"
  "demo_queued = \<lparr>state = \<lparr>lifecycle_byte = 0, task_counts = \<lparr>queued = 1, running = 0\<rparr>,
      monitor_notified = 0, task_capacity = 2, submission_lock = False,
      abort_handles = [16 \<mapsto> \<lparr>tracked_marker = 16, handle = 3, cancel = CancelSlotIfQueued 6 16\<rparr>],
      terminated_notify = 0, capacity_tx = 0\<rparr>,
    registrations = [16 \<mapsto> \<lparr>finished = False\<rparr>],
    trackers = [16 \<mapsto> \<lparr>marker = 16, task_state = 0\<rparr>], outside = []\<rparr>"
proof -
  have "exec_call True demo_ops sorted_iter (CallSubmitCallable 16 42) demo_new =
    Some \<lparr>state = \<lparr>lifecycle_byte = 0, task_counts = \<lparr>queued = 1, running = 0\<rparr>,
      monitor_notified = 0, task_capacity = 2, submission_lock = False,
      abort_handles = [16 \<mapsto> \<lparr>tracked_marker = 16, handle = 3, cancel = CancelSlotIfQueued 6 16\<rparr>],
      terminated_notify = 0, capacity_tx = 0\<rparr>,
    registrations = [16 \<mapsto> \<lparr>finished = False\<rparr>],
    trackers = [16 \<mapsto> \<lparr>marker = 16, task_state = 0\<rparr>], outside = []\<rparr>"
    by (simp add: demo_new_def with_task_capacity_def state_with_task_capacity_def
        try_submit_callable_def prepare_blocking_submission_def lock_submission_def
        is_not_running_def try_accept_task_def unfinished_def counts_default_def saturating_add_def
        accept_task_def add_assign_def guard_new_def registration_new_def tracker_new_def
        TASK_STATE_QUEUED_def on_outside_def demo_ops_def share_task_slot_def
        spawn_accepted_blocking_task_def register_abort_handle_def is_finished_def key_def
        map_state_def unlock_submission_def deliver_payload_def)
  then show "exec_call True demo_ops sorted_iter (CallSubmitCallable 16 42) demo_new = Some demo_queued"
    "demo_queued = \<lparr>state = \<lparr>lifecycle_byte = 0, task_counts = \<lparr>queued = 1, running = 0\<rparr>,
      monitor_notified = 0, task_capacity = 2, submission_lock = False,
      abort_handles = [16 \<mapsto> \<lparr>tracked_marker = 16, handle = 3, cancel = CancelSlotIfQueued 6 16\<rparr>],
      terminated_notify = 0, capacity_tx = 0\<rparr>,
    registrations = [16 \<mapsto> \<lparr>finished = False\<rparr>],
    trackers = [16 \<mapsto> \<lparr>marker = 16, task_state = 0\<rparr>], outside = []\<rparr>"
    by (simp_all add: demo_queued_def del: exec_call.simps)
qed

lemma demo_queued_reach: "calls_reach True demo_ops sorted_iter 2 demo_queued"
proof (rule calls_reach.calls_step [OF _ _ demo_queued_eq(1)])
  show "calls_reach True demo_ops sorted_iter 2 demo_new"
    unfolding demo_new_def by (rule calls_reach.calls_new)
  show "call_possible (CallSubmitCallable 16 42) demo_new"
    by (simp add: demo_new_admits)
qed

lemma demo_queued_ready: "ready demo_queued"
  using calls_reach_ready [OF demo_queued_reach iterates_sorted_iter] by simp

lemma demo_queued_tracker: "trackers demo_queued 16 = Some \<lparr>marker = 16, task_state = TASK_STATE_QUEUED\<rparr>"
  by (simp add: demo_queued_eq(2) TASK_STATE_QUEUED_def)

lemma demo_closed_facts: "ready demo_closed" "admission_error demo_closed = Some Shutdown"
proof -
  obtain w where w: "shutdown demo_new = Some w" "ready w"
    "load (lifecycle_byte (state w)) =
       (if load (lifecycle_byte (state demo_new)) = Running then ShuttingDown
        else load (lifecycle_byte (state demo_new)))"
    by (rule shutdown_spec [OF demo_new_ready])
  then have "demo_closed = w" by (simp add: demo_closed_def)
  with w show "ready demo_closed" and "admission_error demo_closed = Some Shutdown"
    by (auto simp: admission_error_def is_not_running_def simp del: load_Running_iff)
qed

section \<open>Properties\<close>

text \<open>
  C22: Rejection. When the service is ready, a submission that admission refuses (shutdown
  first, saturation second) returns the task it was given with the reason, through each of
  the three retaining methods, with the service and everything outside it exactly as before,
  so the task has neither run nor been dropped. The three consuming methods return the reason
  and drop the task they consumed, which is all that changes.
\<close>
theorem rejection_returns_task_unrun:
  assumes "ready w" and "admission_error w = Some e"
  shows "try_submit dbg tk addr task w = Some (Inl (rejected_new e task), w) \<and>
    try_submit_callable dbg tk addr task w = Some (Inl (rejected_new e task), w) \<and>
    try_submit_tracked_callable dbg tk addr task w = Some (Inl (rejected_new e task), w) \<and>
    submit dbg tk addr task w = Some (Inl e, w\<lparr>outside := task_drop tk task (outside w)\<rparr>) \<and>
    submit_callable dbg tk addr task w = Some (Inl e, w\<lparr>outside := task_drop tk task (outside w)\<rparr>) \<and>
    submit_tracked_callable dbg tk addr task w = Some (Inl e, w\<lparr>outside := task_drop tk task (outside w)\<rparr>) \<and>
    into_parts (rejected_new e task) = (e, task)"
  by (simp add: submit_def submit_callable_def submit_tracked_callable_def drop_rejected_def
      try_submit_rejects [OF assms])

theorem rejection_returns_task_unrun_witness:
  "try_submit_callable True demo_ops 16 42 demo_closed =
     Some (Inl (rejected_new Shutdown 42), demo_closed)"
  using rejection_returns_task_unrun [OF demo_closed_facts, of True demo_ops 16 42] by simp

text \<open>
  C23: Admission. A ready service that is open and below its capacity accepts a task through
  each of the three retaining methods, and \<open>submitted\<close> says what has happened then: the
  spawned closure's abort handle is registered with the cancellation hook of this task unless
  it is already finished; a payload the channel took leaves the task queued, one it refused is
  dropped unrun and the task accounted as finished and no longer tracked; every other task,
  registration and abort handle is unchanged. The handle returned is the endpoint of the task,
  with the abort handle of its closure where it is tracked.
\<close>
theorem admissible_task_is_accepted:
  assumes "ready w" and "admission_error w = None" and "registrations w addr = None"
  shows "(\<exists>w'. try_submit dbg tk addr task w = Some (Inr (), w') \<and>
       submitted tk addr (FinishQueuedOnce addr) (RunRunnable task) (outside w) w w') \<and>
    (let ((h, completion), x) = endpoint_parts tk (outside w);
         (cell, x) = slot_cell_new tk completion (slot_accept tk completion x)
     in \<exists>w'. try_submit_callable dbg tk addr task w = Some (Inr h, w') \<and>
       submitted tk addr (CancelSlotIfQueued cell addr) (RunCallable task cell) x w w') \<and>
    (let ((h, completion), x) = endpoint_tracked_parts tk (outside w);
         (cell, x) = slot_cell_new tk completion (slot_accept tk completion x);
         ((_, receiver), y) = oneshot_channel tk x;
         join = fst (spawn_blocking tk receiver y)
     in \<exists>w'. try_submit_tracked_callable dbg tk addr task w =
         Some (Inr \<lparr>tracked_task = h, blocking_abort_handle = abort_handle_of tk join, cancel_queued_task = addr\<rparr>, w') \<and>
       submitted tk addr (CancelSlotIfQueued cell addr) (RunCallable task cell) x w w')"
proof (intro conjI)
  show "\<exists>w'. try_submit dbg tk addr task w = Some (Inr (), w') \<and>
      submitted tk addr (FinishQueuedOnce addr) (RunRunnable task) (outside w) w w'"
    by (rule try_submit_submitted [OF assms])
qed (auto simp: Let_def split: prod.splits
    intro!: try_submit_callable_submitted [OF assms] try_submit_tracked_submitted [OF assms, OF _ _ _ surjective_pairing])

theorem admissible_task_is_accepted_witness:
  "\<exists>w'. try_submit True demo_ops 16 42 demo_new = Some (Inr (), w') \<and>
     submitted demo_ops 16 (FinishQueuedOnce 16) (RunRunnable 42) [] demo_new w'"
  using admissible_task_is_accepted [OF demo_new_ready demo_new_admits, of True demo_ops 16 42] demo_new_outside by simp

lemma calls_never_panic:
  assumes "calls_reach dbg tk iter capacity w" and "iterates iter" and "call_possible c w"
  shows "\<exists>w'. exec_call dbg tk iter c w = Some w'"
  using exec_call_ready [OF _ assms(3,2)] calls_reach_ready [OF assms(1,2)] by blast

text \<open>
  C24: Invariant and totality of the calls. After any sequence of calls on a new service
  (submissions of every kind, workers, dropped guards, cancellations, shutdowns, stops, in any
  order), the queued and running counters are exactly the numbers of tasks whose tracker is
  queued and running, their sum is at most the capacity, the submission lock is free, and
  every tracked abort handle belongs to an open registration of an unfinished task under its
  own key. Every further possible call returns: no debug assertion fails, no counter
  overflows, and the submission lock is never taken twice, in a debug build and in a release
  build alike.
\<close>
theorem calls_keep_accounting:
  assumes "calls_reach dbg tk iter capacity w" and "iterates iter"
  shows "unat (queued (task_counts (state w))) = phase_count TASK_STATE_QUEUED w \<and>
    unat (running (task_counts (state w))) = phase_count TASK_STATE_RUNNING w \<and>
    phase_count TASK_STATE_QUEUED w + phase_count TASK_STATE_RUNNING w \<le> unat capacity \<and>
    \<not> submission_lock (state w) \<and>
    (\<forall>k a. abort_handles (state w) k = Some a \<longrightarrow> handle_ok w k a) \<and>
    (call_possible c w \<longrightarrow> (\<exists>w'. exec_call dbg tk iter c w = Some w'))"
  using calls_reach_ready [OF assms] ready_counts [of w] ready_handle [of w] calls_never_panic [OF assms]
  by (auto simp: ready_inv)

theorem calls_keep_accounting_witness:
  "phase_count TASK_STATE_QUEUED demo_queued = 1 \<and>
   phase_count TASK_STATE_QUEUED demo_queued + phase_count TASK_STATE_RUNNING demo_queued \<le> 2 \<and>
   (\<exists>w'. exec_call True demo_ops sorted_iter CallStop demo_queued = Some w')"
  using calls_keep_accounting [OF demo_queued_reach iterates_sorted_iter, of CallStop]
  by (simp add: demo_queued_eq(2) del: exec_call.simps)



text \<open>
  C26: A worker runs a task exactly when it has not been cancelled. On a received task and
  its guard, the user's closure runs if the tracker has not finished, and is dropped without
  running otherwise; in both cases the task ends finished, its abort handle is gone and the
  service is ready.
\<close>
theorem worker_runs_iff_not_cancelled:
  assumes "ready w" and "trackers w k = Some t"
  shows "\<exists>w'. run_received dbg tk task k w = Some w' \<and> ready w' \<and>
    outside w' = (if task_state t = TASK_STATE_FINISHED then closure_drop tk task (outside w)
      else run_closure tk task (outside w)) \<and>
    trackers w' k = Some (t\<lparr>task_state := TASK_STATE_FINISHED\<rparr>) \<and>
    abort_handles (state w') = (abort_handles (state w))(k := None)"
  by (rule run_received_spec [OF assms, of dbg tk task]) simp

theorem worker_runs_iff_not_cancelled_witness:
  "\<exists>w'. run_received True demo_ops (RunCallable 42 6) 16 demo_queued = Some w' \<and> outside w' = [142]"
proof -
  have "run_closure demo_ops (RunCallable 42 6) [] = [142]"
    by (simp add: run_closure_def take_task_slot_def demo_ops_def)
  then show ?thesis
    using worker_runs_iff_not_cancelled [OF demo_queued_ready demo_queued_tracker,
      of True demo_ops "RunCallable 42 6"]
    by (auto simp: demo_queued_eq(2))
qed

text \<open>
  A cancelled task is never counted twice. When cancelling the queued accounting of a
  task succeeds, the task is finished and untracked at once, and a later stop reports at
  most the other queued tasks as cancelled: one less than were queued before.
\<close>
lemma cancel_then_stop_counts_once:
  assumes "ready w" and "iterates iter" and "trackers w k = Some t"
    and "task_state t = TASK_STATE_QUEUED"
    and "cancel_queued_callback dbg k w = Some v" and "stop dbg tk iter v = Some (rep, u)"
  shows "trackers u k = Some (t\<lparr>task_state := TASK_STATE_FINISHED\<rparr>) \<and>
    abort_handles (state v) k = None \<and>
    unat (report_cancelled rep) < phase_count TASK_STATE_QUEUED w \<and>
    phase_count TASK_STATE_QUEUED v + 1 = phase_count TASK_STATE_QUEUED w"
proof -
  obtain v' where v': "tracker_cancel_queued dbg k w = Some (True, v')" "ready v'"
    "trackers v' = (trackers w)(k \<mapsto> t\<lparr>task_state := TASK_STATE_FINISHED\<rparr>)"
    "abort_handles (state v') = (abort_handles (state w))(k := None)"
    using cancel_queued_ready [OF assms(1,3), of dbg] assms(4) by auto
  with assms(5) have [simp]: "v' = v" by (simp add: cancel_queued_callback_def)
  obtain rep' u' where "stop dbg tk iter v = Some (rep', u')"
    "unat (report_cancelled rep') + phase_count TASK_STATE_QUEUED u' = phase_count TASK_STATE_QUEUED v"
    "cancelled_in (dom (abort_handles (state v))) v u'"
    by (rule stop_spec [OF v'(2) [simplified] assms(2), of dbg tk])
  with assms(6) have u: "unat (report_cancelled rep) + phase_count TASK_STATE_QUEUED u
      = phase_count TASK_STATE_QUEUED v" "cancelled_in (dom (abort_handles (state v))) v u"
    by simp_all
  have "phase_count TASK_STATE_QUEUED v + 1 = phase_count TASK_STATE_QUEUED w"
    using phase_count_eq [OF service_invD(1) [OF ready_inv(1) [OF assms(1)]] assms(3), of v
        TASK_STATE_FINISHED TASK_STATE_QUEUED] v'(3) assms(4) by simp
  moreover have "trackers v k = Some (t\<lparr>task_state := TASK_STATE_FINISHED\<rparr>)" using v'(3) by simp
  then have "trackers u k = Some (t\<lparr>task_state := TASK_STATE_FINISHED\<rparr>)"
    using u(2) unfolding cancelled_in_def by fastforce
  ultimately show ?thesis using u(1) v'(4) by simp
qed

text \<open>
  C27: Submit and run is a round trip. An accepted task that a worker then receives leaves
  the counters, the tracked abort handles and the lifecycle as they were before the
  submission: the capacity it held is returned.
\<close>
theorem submit_then_run_restores_capacity:
  assumes "ready w" and "admission_error w = None" and "registrations w addr = None"
    and "try_submit dbg tk addr task w = Some (Inr (), v)"
    and "run_received dbg tk (RunRunnable task) addr v = Some u"
  shows "task_counts (state u) = task_counts (state w) \<and>
    abort_handles (state u) = abort_handles (state w) \<and>
    lifecycle_byte (state u) = lifecycle_byte (state w) \<and> ready u"
proof -
  obtain v' where "try_submit dbg tk addr task w = Some (Inr (), v')" "accepted_outcome addr w v'"
    using try_submit_accepts [OF assms(1-3)] .
  with assms(4) have out: "accepted_outcome addr w v" by simp
  then obtain t where t: "trackers v addr = Some t" unfolding accepted_outcome_def by blast
  obtain u' where "run_received dbg tk (RunRunnable task) addr v = Some u'" "ready u'"
    "trackers u' = (trackers v)(addr \<mapsto> t\<lparr>task_state := TASK_STATE_FINISHED\<rparr>)"
    "abort_handles (state u') = (abort_handles (state v))(addr := None)"
    "lifecycle_byte (state u') = lifecycle_byte (state v)"
    by (rule run_received_spec [OF accepted_ready [OF out] t, of dbg tk "RunRunnable task"])
  with assms(5) have u: "ready u"
    "trackers u = (trackers v)(addr \<mapsto> t\<lparr>task_state := TASK_STATE_FINISHED\<rparr>)"
    "abort_handles (state u) = (abort_handles (state v))(addr := None)"
    "lifecycle_byte (state u) = lifecycle_byte (state v)" by simp_all
  have "trackers u = (trackers w)(addr \<mapsto> t\<lparr>task_state := TASK_STATE_FINISHED\<rparr>)"
    using out u(2) by (auto simp: accepted_outcome_def fun_eq_iff)
  then have "task_counts (state u) = task_counts (state w)"
    by (rule finished_task_uncounted [OF assms(1,3) u(1)]) simp
  moreover have "abort_handles (state u) = abort_handles (state w)"
    using out u(3) fresh_untracked [OF ready_inv(1) [OF assms(1)] assms(3)]
    by (auto simp: accepted_outcome_def fun_eq_iff)
  ultimately show ?thesis using out u by (simp add: accepted_outcome_def)
qed

theorem submit_then_run_restores_capacity_witness:
  "\<exists>v u. try_submit True demo_ops 16 42 demo_new = Some (Inr (), v) \<and>
     run_received True demo_ops (RunRunnable 42) 16 v = Some u \<and>
     task_counts (state u) = task_counts (state demo_new)"
proof -
  obtain v where v: "try_submit True demo_ops 16 42 demo_new = Some (Inr (), v)"
    "accepted_outcome 16 demo_new v"
    by (rule try_submit_accepts [OF demo_new_ready demo_new_admits])
  then obtain t where t: "trackers v 16 = Some t" unfolding accepted_outcome_def by blast
  obtain u where u: "run_received True demo_ops (RunRunnable 42) 16 v = Some u"
    by (rule run_received_spec [OF accepted_ready [OF v(2)] t, of True demo_ops "RunRunnable 42"])
  from submit_then_run_restores_capacity [OF demo_new_ready demo_new_admits v(1) u] v(1) u
  show ?thesis by blast
qed

text \<open>
  C30: Shutdown. Closing a ready service moves a running lifecycle to shutting down and
  never takes back a stop; it leaves every task alone, publishes one capacity change, and
  wakes the termination waiters exactly when no task is left.
\<close>
theorem shutdown_closes_and_notifies:
  assumes "ready w"
  shows "\<exists>w'. shutdown w = Some w' \<and> ready w' \<and> is_not_running (state w') \<and>
    load (lifecycle_byte (state w)) \<le> load (lifecycle_byte (state w')) \<and>
    trackers w' = trackers w \<and> abort_handles (state w') = abort_handles (state w) \<and>
    task_counts (state w') = task_counts (state w) \<and> outside w' = outside w \<and>
    capacity_tx (state w') = capacity_tx (state w) + 1 \<and>
    terminated_notify (state w') = terminated_notify (state w) + of_bool (is_empty (task_counts (state w))) \<and>
    (service_lifecycle w' = Terminated \<longleftrightarrow>
       is_empty (task_counts (state w)) \<or> load (lifecycle_byte (state w)) = Terminated)"
proof -
  obtain w' where "shutdown w = Some w'" "ready w'"
    "load (lifecycle_byte (state w')) =
       (if load (lifecycle_byte (state w)) = Running then ShuttingDown else load (lifecycle_byte (state w)))"
    "trackers w' = trackers w" "registrations w' = registrations w" "outside w' = outside w"
    "abort_handles (state w') = abort_handles (state w)"
    "task_counts (state w') = task_counts (state w)"
    "task_capacity (state w') = task_capacity (state w)"
    "capacity_tx (state w') = wrapping_add (capacity_tx (state w)) 1"
    "terminated_notify (state w') = terminated_notify (state w)
       + of_bool (is_empty (task_counts (state w)))"
    by (rule shutdown_spec [OF assms])
  then show ?thesis
    by (auto simp: is_not_running_def service_lifecycle_def state_lifecycle_Terminated_iff
        is_terminated_state_def wrapping_add_def simp del: load_Running_iff)
qed

theorem shutdown_closes_and_notifies_witness:
  "\<exists>w'. shutdown demo_queued = Some w' \<and> is_not_running (state w')"
  using shutdown_closes_and_notifies [OF demo_queued_ready] by blast

end
