(* ===== verification/Blocking_Call_Runs.thy ===== *)
theory Blocking_Call_Runs
  imports Interleaving_Claims Blocking_Calls
begin

text \<open>
  The two models of the blocking service agree: every call of \<open>Blocking_Service\<close>, run without
  interference, is a run of the threads of \<open>Blocking_Interleaving\<close>. What the interleaved model
  leaves out (the Tokio handles, the boxed hooks and the world outside) is erased, and a world
  matches a system in which nobody is inside a call.
\<close>

section \<open>Matching states\<close>

definition erase :: "('h, 'c) TokioExecutorServiceState \<Rightarrow> svc" where
  "erase s = \<lparr>lifecycle_byte = lifecycle_byte s, task_counts = task_counts s,
     monitor_notified = monitor_notified s, task_capacity = task_capacity s,
     submission_lock = submission_lock s,
     abort_handles = (\<lambda>k. map_option (\<lambda>a. \<lparr>tracked_marker = tracked_marker a, handle = (), cancel = ()\<rparr>)
       (abort_handles s k)),
     terminated_notify = terminated_notify s, capacity_tx = capacity_tx s\<rparr>"

abbreviation cat :: "svc \<Rightarrow> (usize \<rightharpoonup> ctask) \<Rightarrow> holder_pc \<Rightarrow> (nat \<rightharpoonup> thread_pc) \<Rightarrow> csys" where
  "cat v T h M \<equiv> \<lparr>svc = v, tasks = T, holder = h, threads = M, monitor = None\<rparr>"

text \<open>
  Between calls a task is queued with its payload delivered, or accounted: cancelled with the
  payload still in the channel, or with its guard gone, which leaves nothing tracked.
\<close>

definition task_between_calls :: "bool \<Rightarrow> ctask \<Rightarrow> bool" where
  "task_between_calls tracked t \<longleftrightarrow> winner t \<in> {None, Some FinDone} \<and>
     (if task_state (tracker t) = TASK_STATE_QUEUED then owner t = Delivered \<and> winner t = None
      else task_state (tracker t) = TASK_STATE_FINISHED \<and>
        (owner t = Delivered \<or> owner t = Finishing FinDone \<and> is_finished (registration t) \<and> \<not> tracked))"

definition tasks_match ::
  "(usize \<rightharpoonup> TokioTaskRegistration) \<Rightarrow> (usize \<rightharpoonup> TokioServiceTaskTracker) \<Rightarrow> usize set
   \<Rightarrow> (usize \<rightharpoonup> ctask) \<Rightarrow> bool" where
  "tasks_match regs trks H T \<longleftrightarrow> (\<forall>k. regs k = map_option registration (T k)) \<and>
     (\<forall>k. trks k = map_option tracker (T k)) \<and>
     (\<forall>k t. T k = Some t \<longrightarrow> task_between_calls (k \<in> H) t)"

definition matches :: "('r, 'x) service \<Rightarrow> csys \<Rightarrow> bool" where
  "matches w s \<longleftrightarrow> (\<exists>T. s = cat (erase (state w)) T Unlocked Map.empty \<and>
     tasks_match (registrations w) (trackers w) (dom (abort_handles (state w))) T)"

lemma erase_sel [simp]:
  "lifecycle_byte (erase s) = lifecycle_byte s" "task_counts (erase s) = task_counts s"
  "monitor_notified (erase s) = monitor_notified s" "task_capacity (erase s) = task_capacity s"
  "submission_lock (erase s) = submission_lock s" "terminated_notify (erase s) = terminated_notify s"
  "capacity_tx (erase s) = capacity_tx s"
  "abort_handles (erase s) k =
     map_option (\<lambda>a. \<lparr>tracked_marker = tracked_marker a, handle = (), cancel = ()\<rparr>) (abort_handles s k)"
  by (simp_all add: erase_def)

lemma erase_update [simp]:
  "erase (s\<lparr>lifecycle_byte := b\<rparr>) = (erase s)\<lparr>lifecycle_byte := b\<rparr>"
  "erase (s\<lparr>task_counts := c\<rparr>) = (erase s)\<lparr>task_counts := c\<rparr>"
  "erase (s\<lparr>submission_lock := l\<rparr>) = (erase s)\<lparr>submission_lock := l\<rparr>"
  "erase (s\<lparr>monitor_notified := n\<rparr>) = (erase s)\<lparr>monitor_notified := n\<rparr>"
  "erase (s\<lparr>terminated_notify := n\<rparr>) = (erase s)\<lparr>terminated_notify := n\<rparr>"
  "erase (s\<lparr>capacity_tx := m\<rparr>) = (erase s)\<lparr>capacity_tx := m\<rparr>"
  "erase (s\<lparr>abort_handles := Map.empty\<rparr>) = (erase s)\<lparr>abort_handles := Map.empty\<rparr>"
  "erase (s\<lparr>abort_handles := (abort_handles s)(k := None)\<rparr>) =
     (erase s)\<lparr>abort_handles := (abort_handles (erase s))(k := None)\<rparr>"
  "erase (s\<lparr>abort_handles := (abort_handles s)(k \<mapsto> a)\<rparr>) =
     (erase s)\<lparr>abort_handles := (abort_handles (erase s))
       (k \<mapsto> \<lparr>tracked_marker = tracked_marker a, handle = (), cancel = ()\<rparr>)\<rparr>"
  by (simp_all add: erase_def fun_eq_iff)

lemma erase_operations [simp]:
  "erase (unlock_submission s) = unlock_submission (erase s)"
  "erase (notify_capacity_changed s) = notify_capacity_changed (erase s)"
  "erase (notify_all s) = notify_all (erase s)" "erase (notify_waiters s) = notify_waiters (erase s)"
  "erase (notify_termination_waiters s) = notify_termination_waiters (erase s)"
  "erase (notify_if_terminated s) = notify_if_terminated (erase s)"
  "erase (state_shutdown s) = state_shutdown (erase s)" "erase (state_stop s) = state_stop (erase s)"
  "is_not_running (erase s) = is_not_running s"
  by (simp_all add: unlock_submission_def notify_capacity_changed_def notify_all_def notify_waiters_def
      notify_termination_waiters_def notify_if_terminated_def state_shutdown_def state_stop_def
      is_not_running_def Let_def)

lemma erase_sections [simp]:
  "finish_task_section dbg b (erase s) = map_option (map_prod id erase) (finish_task_section dbg b s)"
  "try_accept_task dbg (erase s) = map_option (map_prod id erase) (try_accept_task dbg s)"
  "mark_task_started dbg (erase s) = map_option erase (mark_task_started dbg s)"
  by (simp_all add: finish_task_section_def try_accept_task_def mark_task_started_def is_not_running_def
      split: bind_splits)

lemma then_cstep: "cstep dbg s u \<Longrightarrow> (cstep dbg)\<^sup>*\<^sup>* u s' \<Longrightarrow> (cstep dbg)\<^sup>*\<^sup>* s s'"
  by (rule converse_rtranclp_into_rtranclp)

lemmas last_cstep = r_into_rtranclp [of "cstep dbg" for dbg]

text \<open>Nobody among \<open>M\<close> waits for a notification.\<close>

definition no_waiters :: "(nat \<rightharpoonup> thread_pc) \<Rightarrow> bool" where
  "no_waiters M \<longleftrightarrow> (\<forall>i. map_option wake_producer (M i) = M i \<and> map_option wake_monitor (M i) = M i \<and>
     map_option wake_notified (M i) = M i)"

lemma no_waiters_empty [simp]: "no_waiters Map.empty"
  by (simp add: no_waiters_def)

lemma no_waiters_one [simp]:
  "wake_producer pc = pc \<Longrightarrow> wake_monitor pc = pc \<Longrightarrow> wake_notified pc = pc \<Longrightarrow> no_waiters [0 \<mapsto> pc]"
  by (simp add: no_waiters_def)

lemma signals_without_waiters:
  assumes "no_waiters M"
  shows "signal_capacity (cat v T h M) = cat (notify_capacity_changed v) T h M"
    "signal_monitor (cat v T h M) = cat (notify_all v) T h M"
    "signal_notify (cat v T h M) = cat (notify_waiters v) T h M"
  using assms by (simp_all add: no_waiters_def signal_capacity_def signal_monitor_def signal_notify_def wake_all_def)

section \<open>Finishing a task\<close>

text \<open>The task of a finisher: its winner (\<open>w\<close>) or its owner is at \<open>f\<close>.\<close>

definition with_fin :: "bool \<Rightarrow> ctask \<Rightarrow> fin_pc \<Rightarrow> ctask" where
  "with_fin w t f = (if w then t\<lparr>winner := Some f\<rparr> else t\<lparr>owner := Finishing f\<rparr>)"

lemma with_fin_step:
  assumes "fin_step dbg f (cat v (T(k \<mapsto> with_fin w t f)) h M) f' (cat v' (T(k \<mapsto> with_fin w t f)) h M)"
  shows "cstep dbg (cat v (T(k \<mapsto> with_fin w t f)) h M) (cat v' (T(k \<mapsto> with_fin w t f')) h M)"
  using assms
    by_task [OF owner_finish [of "cat v (T(k \<mapsto> with_fin w t f)) h M" k "with_fin w t f" f]]
    by_task [OF winner_finish [of "cat v (T(k \<mapsto> with_fin w t f)) h M" k "with_fin w t f" f]]
  by (cases w) (fastforce simp: with_fin_def)+

lemma svc_finish_runs:
  assumes fin: "finish_task dbg b s = Some s'" and M: "no_waiters M"
  shows "(cstep dbg)\<^sup>*\<^sup>* (cat (erase s) (T(k \<mapsto> with_fin w t (FinCount b))) h M)
    (cat (erase s') (T(k \<mapsto> with_fin w t FinDone)) h M)"
proof -
  let ?s = "\<lambda>v f. cat v (T(k \<mapsto> with_fin w t f)) h M"
  obtain tm u where u: "finish_task_section dbg b s = Some (tm, u)"
    and s': "s' = (if tm then notify_termination_waiters (notify_capacity_changed u) else notify_capacity_changed u)"
    using fin by (auto simp: finish_task_def Let_def split: bind_splits)
  note sig = signals_without_waiters [OF M]
  let ?c = "notify_capacity_changed (erase u)"
  have s1: "cstep dbg (?s (erase s) (FinCount b)) (?s (erase u) (FinCapacity tm))"
    using fin_count [of "?s (erase s) (FinCount b)" dbg b tm "erase u"] u by (intro with_fin_step) simp
  have s2: "cstep dbg (?s (erase u) (FinCapacity tm)) (?s ?c (if tm then FinMonitor else FinDone))"
    using fin_capacity [of dbg tm "?s (erase u) (FinCapacity tm)"] by (intro with_fin_step) (simp add: sig)
  show ?thesis
  proof (cases tm)
    case True
    have s3: "cstep dbg (?s ?c FinMonitor) (?s (notify_all ?c) FinNotify)"
      using fin_monitor [of dbg "?s ?c FinMonitor"] by (intro with_fin_step) (simp add: sig)
    have s4: "cstep dbg (?s (notify_all ?c) FinNotify) (?s (notify_waiters (notify_all ?c)) FinDone)"
      using fin_notify [of dbg "?s (notify_all ?c) FinNotify"] by (intro with_fin_step) (simp add: sig)
    from then_cstep [OF s1 then_cstep [OF s2 [unfolded if_P [OF True]] then_cstep [OF s3 last_cstep [OF s4]]]] True
    show ?thesis by (simp add: s' notify_termination_waiters_def)
  next
    case False
    from then_cstep [OF s1 last_cstep [OF s2]] False show ?thesis by (simp add: s')
  qed
qed

section \<open>The drop of a guard\<close>

lemma tasks_matchD:
  assumes "tasks_match regs trks H T" and "T k = Some t"
  shows "regs k = Some (registration t)" "trks k = Some (tracker t)" "task_between_calls (k \<in> H) t"
  using assms by (simp_all add: tasks_match_def)

lemma tasks_match_put:
  assumes "tasks_match regs trks H T" and "task_between_calls (k \<in> H') t" and "H' - {k} \<subseteq> H - {k}"
  shows "tasks_match (regs(k \<mapsto> registration t)) (trks(k \<mapsto> tracker t)) H' (T(k \<mapsto> t))"
proof -
  have mono: "task_between_calls b u \<Longrightarrow> (b' \<longrightarrow> b) \<Longrightarrow> task_between_calls b' u" for b b' u
    by (auto simp: task_between_calls_def split: if_splits)
  have "task_between_calls (j \<in> H') u" if "(T(k \<mapsto> t)) j = Some u" for j u
    using that assms(2,3) tasks_matchD(3) [OF assms(1), of j u] by (cases "j = k") (auto elim!: mono)
  moreover have "regs j = map_option registration (T j)" "trks j = map_option tracker (T j)" for j
    using assms(1) by (simp_all add: tasks_match_def)
  ultimately show ?thesis by (simp add: tasks_match_def)
qed

text \<open>What \<^verbatim>\<open>remove_abort_handle\<close> leaves.\<close>

definition untracked :: "usize \<Rightarrow> ('h, 'c, 'x) world \<Rightarrow> ('h, 'c, 'x) world" where
  "untracked k w = w\<lparr>registrations := (registrations w)(k \<mapsto> \<lparr>finished = True\<rparr>),
     state := (state w)\<lparr>abort_handles := (abort_handles (state w))(k := None)\<rparr>\<rparr>"

lemma remove_untracks: "registrations w k = Some r \<Longrightarrow> remove_abort_handle k w = Some (untracked k w)"
  by (simp add: remove_abort_handle_def untracked_def key_def finish_def Let_def)

definition dropped :: "ctask \<Rightarrow> ctask" where
  "dropped t = t\<lparr>registration := \<lparr>finished = True\<rparr>,
     tracker := (tracker t)\<lparr>task_state := TASK_STATE_FINISHED\<rparr>, owner := Finishing FinDone\<rparr>"

lemma svc_drop_runs:
  assumes call: "guard_drop dbg k w = Some w'" and t: "owner t = DropMark" "marker (tracker t) = k"
    and reg: "registrations w k = Some r" and trk: "trackers w k = Some (tracker t)"
    and st: "task_state (tracker t) \<in> {TASK_STATE_QUEUED, TASK_STATE_RUNNING, TASK_STATE_FINISHED}"
  shows "(cstep dbg)\<^sup>*\<^sup>* (cat (erase (state w)) (T(k \<mapsto> t)) Unlocked Map.empty)
      (cat (erase (state w')) (T(k \<mapsto> dropped t)) Unlocked Map.empty)"
    "registrations w' = (registrations w)(k \<mapsto> \<lparr>finished = True\<rparr>)"
    "trackers w' = (trackers w)(k \<mapsto> (tracker t)\<lparr>task_state := TASK_STATE_FINISHED\<rparr>)"
    "abort_handles (state w') = (abort_handles (state w))(k := None)"
proof -
  let ?u = "untracked k w" and ?v = "erase (state w)"
  let ?r = "?v\<lparr>abort_handles := (abort_handles ?v)(k := None)\<rparr>"
  let ?t = "t\<lparr>registration := \<lparr>finished = True\<rparr>\<rparr>"
  let ?f = "?t\<lparr>tracker := (tracker t)\<lparr>task_state := TASK_STATE_FINISHED\<rparr>\<rparr>"
  have u: "erase (state ?u) = ?r" by (simp add: untracked_def)
  have fin: "tracker_finish dbg k ?u = Some w'"
    using call trk t(2) remove_untracks [OF reg] by (simp add: guard_drop_def)
  have trku: "trackers ?u k = Some (tracker t)" using trk by (simp add: untracked_def)
  have s1: "cstep dbg (cat ?v (T(k \<mapsto> t)) Unlocked Map.empty)
      (cat ?v (T(k \<mapsto> ?t\<lparr>owner := DropRemove\<rparr>)) Unlocked Map.empty)"
    using by_task [OF drop_mark [of "cat ?v (T(k \<mapsto> t)) Unlocked Map.empty" k t]] t(1) by (simp add: finish_def)
  have s2: "cstep dbg (cat ?v (T(k \<mapsto> ?t\<lparr>owner := DropRemove\<rparr>)) Unlocked Map.empty)
      (cat ?r (T(k \<mapsto> ?t\<lparr>owner := DropSwap\<rparr>)) Unlocked Map.empty)"
    using by_task [OF drop_remove [of "cat ?v (T(k \<mapsto> ?t\<lparr>owner := DropRemove\<rparr>)) Unlocked Map.empty" k
          "?t\<lparr>owner := DropRemove\<rparr>"]] by (simp add: key_def)
  have s3: "cstep dbg (cat ?r (T(k \<mapsto> ?t\<lparr>owner := DropSwap\<rparr>)) Unlocked Map.empty)
      (cat ?r (T(k \<mapsto> ?f\<lparr>owner := Finishing (finish_from (task_state (tracker t)))\<rparr>)) Unlocked Map.empty)"
    using by_task [OF drop_swap [of "cat ?r (T(k \<mapsto> ?t\<lparr>owner := DropSwap\<rparr>)) Unlocked Map.empty" k
          "?t\<lparr>owner := DropSwap\<rparr>"]] by simp
  have s4: "(cstep dbg)\<^sup>*\<^sup>* (cat ?r (T(k \<mapsto> ?f\<lparr>owner := Finishing (finish_from (task_state (tracker t)))\<rparr>)) Unlocked Map.empty)
      (cat (erase (state w')) (T(k \<mapsto> dropped t)) Unlocked Map.empty) \<and>
    registrations w' = registrations ?u \<and> abort_handles (state w') = abort_handles (state ?u) \<and>
    trackers w' = (trackers ?u)(k \<mapsto> (tracker t)\<lparr>task_state := TASK_STATE_FINISHED\<rparr>)"
  proof (cases "task_state (tracker t) = TASK_STATE_FINISHED")
    case True
    with fin trku show ?thesis
      by (auto simp: tracker_finish_def swap_def Let_def finish_from_def dropped_def u)
  next
    case False
    let ?b = "task_state (tracker t) = TASK_STATE_RUNNING"
    obtain s where s: "finish_task dbg ?b (state ?u) = Some s"
      "w' = ?u\<lparr>trackers := (trackers ?u)(k \<mapsto> (tracker t)\<lparr>task_state := TASK_STATE_FINISHED\<rparr>), state := s\<rparr>"
      using fin trku False st by (auto simp: tracker_finish_def swap_def Let_def split: bind_splits if_splits)
    have "finish_from (task_state (tracker t)) = FinCount ?b" using False st by (auto simp: finish_from_def)
    moreover have "abort_handles s = abort_handles (state ?u)"
      using s(1) by (auto simp: finish_task_def finish_task_section_def notify_termination_waiters_def Let_def
          split: bind_splits)
    ultimately show ?thesis
      using svc_finish_runs [OF s(1) no_waiters_empty, where w = False and t = ?f and T = T and k = k and h = Unlocked] s(2)
      by (simp add: with_fin_def u dropped_def)
  qed
  show "(cstep dbg)\<^sup>*\<^sup>* (cat ?v (T(k \<mapsto> t)) Unlocked Map.empty)
      (cat (erase (state w')) (T(k \<mapsto> dropped t)) Unlocked Map.empty)"
    by (rule then_cstep [OF s1 then_cstep [OF s2 then_cstep [OF s3 conjunct1 [OF s4]]]])
  show "registrations w' = (registrations w)(k \<mapsto> \<lparr>finished = True\<rparr>)"
    "trackers w' = (trackers w)(k \<mapsto> (tracker t)\<lparr>task_state := TASK_STATE_FINISHED\<rparr>)"
    "abort_handles (state w') = (abort_handles (state w))(k := None)"
    using s4 by (simp_all add: untracked_def)
qed

section \<open>Submission\<close>

text \<open>A call that changes only the world outside.\<close>

definition same_inside :: "('h, 'c, 'x) world \<Rightarrow> ('h, 'c, 'x) world \<Rightarrow> bool" where
  "same_inside w w' \<longleftrightarrow> state w' = state w \<and> registrations w' = registrations w \<and> trackers w' = trackers w"

lemma same_inside_outside [simp]: "same_inside w (w\<lparr>outside := x\<rparr>)" "same_inside w w"
  by (simp_all add: same_inside_def)

lemma same_inside_on_outside: "on_outside f w = (r, w') \<Longrightarrow> same_inside w w'"
  by (auto simp: on_outside_def same_inside_def split: prod.splits)

lemma same_inside_trans: "same_inside w v \<Longrightarrow> same_inside v u \<Longrightarrow> same_inside w u"
  by (simp add: same_inside_def)

lemma matches_inside: "same_inside w w' \<Longrightarrow> matches w s \<Longrightarrow> matches w' s"
  by (simp add: matches_def same_inside_def)

lemma prepare_refuses:
  assumes "prepare_blocking_submission dbg addr w = Some (Inl e, w')"
  shows "w' = w"
proof -
  have "w\<lparr>state := unlock_submission ((state w)\<lparr>submission_lock := True\<rparr>)\<rparr> = w" if "\<not> submission_lock (state w)"
    using that by (cases w; cases "state w") (simp add: unlock_submission_def)
  then show ?thesis using assms
    by (auto simp: prepare_blocking_submission_def try_accept_task_def Let_def
        split: if_splits bind_splits prod.splits)
qed

lemma prepare_admitted:
  assumes "prepare_blocking_submission dbg addr w = Some (Inr mk, a)"
  obtains u where "mk = addr" "\<not> submission_lock (state w)" "\<not> is_not_running (state w)"
    "try_accept_task dbg ((state w)\<lparr>submission_lock := True\<rparr>) = Some (True, u)"
    "a = w\<lparr>state := u, registrations := (registrations w)(addr \<mapsto> registration_new),
       trackers := (trackers w)(addr \<mapsto> tracker_new addr)\<rparr>"
proof -
  have free: "\<not> submission_lock (state w)"
    using assms by (auto simp: prepare_blocking_submission_def split: bind_splits)
  then have lock: "lock_submission (state w) = Some ((state w)\<lparr>submission_lock := True\<rparr>)" by simp
  have run: "\<not> is_not_running (state w)"
    using assms lock by (auto simp: prepare_blocking_submission_def is_not_running_def split: if_splits)
  with assms free lock show ?thesis
    by (auto simp: prepare_blocking_submission_def is_not_running_def guard_new_def Let_def
        split: bind_splits if_splits intro: that)
qed

lemma spawn_accepted:
  assumes "spawn_accepted_blocking_task dbg tk mk hook b = Some (r, c)"
  obtains d h e where "same_inside b d"
    "register_abort_handle dbg (abort_is_finished tk) mk h hook d = Some e"
    "c = map_state unlock_submission e"
proof -
  obtain s1 r1 d1 where d1: "on_outside (oneshot_channel tk) b = ((s1, r1), d1)" by (metis prod.exhaust)
  obtain j d2 where d2: "on_outside (spawn_blocking tk r1) d1 = (j, d2)" by (metis prod.exhaust)
  show ?thesis
    using assms d1 d2 same_inside_trans [OF same_inside_on_outside [OF d1] same_inside_on_outside [OF d2]]
    by (auto simp: spawn_accepted_blocking_task_def Let_def split: bind_splits intro: that)
qed

lemma register_cases:
  assumes "register_abort_handle dbg fin mk h hook d = Some e" and "registrations d mk = Some registration_new"
  shows "registrations e = registrations d" "trackers e = trackers d"
    "state e = state d \<or> debug_assert dbg (abort_handles (state d) (key mk) = None) = Some () \<and>
       state e = (state d)\<lparr>abort_handles := (abort_handles (state d))
       (mk \<mapsto> \<lparr>tracked_marker = mk, handle = h, cancel = hook\<rparr>)\<rparr>"
  using assms by (auto simp: register_abort_handle_def debug_assert_def key_def Let_def split: if_splits bind_splits)

text \<open>The task with its payload still in the submitter's hands.\<close>

definition admitted :: "usize \<Rightarrow> owner_pc \<Rightarrow> ctask" where
  "admitted addr pc = \<lparr>registration = registration_new, tracker = tracker_new addr, owner = pc, winner = None\<rparr>"

lemma admission_runs:
  assumes prep: "prepare_blocking_submission dbg addr w = Some (Inr mk, a)" and inside: "same_inside a b"
    and spawn: "spawn_accepted_blocking_task dbg tk mk hook b = Some (r, c)" and T: "T addr = None"
  shows "(cstep dbg)\<^sup>*\<^sup>* (cat (erase (state w)) T Unlocked Map.empty)
      (cat (erase (state c)) (T(addr \<mapsto> admitted addr Held)) Unlocked Map.empty)"
    "registrations c = (registrations w)(addr \<mapsto> registration_new)"
    "trackers c = (trackers w)(addr \<mapsto> tracker_new addr)"
    "dom (abort_handles (state c)) \<subseteq> insert addr (dom (abort_handles (state w)))" "mk = addr"
proof -
  let ?v = "erase (state w)"
  let ?l = "?v\<lparr>submission_lock := True\<rparr>" and ?t = "admitted addr"
  obtain u where mk: "mk = addr" and free: "\<not> submission_lock (state w)" "\<not> is_not_running (state w)"
    and u: "try_accept_task dbg ((state w)\<lparr>submission_lock := True\<rparr>) = Some (True, u)"
    and a: "a = w\<lparr>state := u, registrations := (registrations w)(addr \<mapsto> registration_new),
       trackers := (trackers w)(addr \<mapsto> tracker_new addr)\<rparr>"
    by (rule prepare_admitted [OF prep])
  have hs: "abort_handles u = abort_handles (state w)"
    using u by (auto simp: try_accept_task_def split: if_splits bind_splits)
  obtain d h e where d: "same_inside b d" "register_abort_handle dbg (abort_is_finished tk) mk h hook d = Some e"
    and c: "c = map_state unlock_submission e" by (rule spawn_accepted [OF spawn])
  have d_eq: "state d = u" "registrations d = (registrations w)(addr \<mapsto> registration_new)"
    "trackers d = (trackers w)(addr \<mapsto> tracker_new addr)"
    using same_inside_trans [OF inside d(1)] by (simp_all add: same_inside_def a)
  note e = register_cases [OF d(2)]
  have e_eq: "registrations e = registrations d" "trackers e = trackers d"
    "state e = u \<or> debug_assert dbg (abort_handles u (key addr) = None) = Some () \<and> state e = u\<lparr>abort_handles := (abort_handles u)
       (addr \<mapsto> \<lparr>tracked_marker = addr, handle = h, cancel = hook\<rparr>)\<rparr>"
    using e d_eq by (simp_all add: mk)
  let ?u = "erase u"
  have s1: "cstep dbg (cat ?v T Unlocked Map.empty) (cat ?l T SubmitCheck Map.empty)"
    using by_holder [OF lock [of "cat ?v T Unlocked Map.empty" ?l SubmitCheck]] free by simp
  have s2: "cstep dbg (cat ?l T SubmitCheck Map.empty) (cat ?l T SubmitReserve Map.empty)"
    using by_holder [OF submit_open [of "cat ?l T SubmitCheck Map.empty"]] free by (simp add: is_not_running_def)
  have acc: "try_accept_task dbg ?l = Some (True, ?u)"
    using arg_cong [OF u, of "map_option (map_prod id erase)"]
    by (simp flip: erase_sections(2) erase_update(3))
  have s3: "cstep dbg (cat ?l T SubmitReserve Map.empty) (cat ?u T SubmitCreate Map.empty)"
    using by_holder [OF submit_accept [of "cat ?l T SubmitReserve Map.empty"]] acc by simp
  have s4: "cstep dbg (cat ?u T SubmitCreate Map.empty)
      (cat ?u (T(addr \<mapsto> ?t Admitted)) (SubmitRegister addr) Map.empty)"
    using by_holder [OF submit_create [of "cat ?u T SubmitCreate Map.empty" addr]] T by (simp add: admitted_def)
  have s5: "cstep dbg (cat ?u (T(addr \<mapsto> ?t Admitted)) (SubmitRegister addr) Map.empty)
      (cat (erase (state e)) (T(addr \<mapsto> ?t Admitted)) (SubmitUnlock addr) Map.empty)"
    using e_eq(3)
      by_holder [OF submit_register_finished [of "cat ?u (T(addr \<mapsto> ?t Admitted)) (SubmitRegister addr) Map.empty" addr], of dbg]
      by_holder [OF submit_register [of "cat ?u (T(addr \<mapsto> ?t Admitted)) (SubmitRegister addr) Map.empty" addr "?t Admitted"], of dbg]
    by (elim disjE) (simp_all add: admitted_def registration_new_def is_finished_def key_def)
  have s6: "cstep dbg (cat (erase (state e)) (T(addr \<mapsto> ?t Admitted)) (SubmitUnlock addr) Map.empty)
      (cat (erase (state c)) (T(addr \<mapsto> ?t Held)) Unlocked Map.empty)"
    using by_holder [OF submit_unlock [of "cat (erase (state e)) (T(addr \<mapsto> ?t Admitted)) (SubmitUnlock addr) Map.empty" addr "?t Admitted"], of dbg]
    by (simp add: c map_state_def admitted_def)
  show "(cstep dbg)\<^sup>*\<^sup>* (cat ?v T Unlocked Map.empty) (cat (erase (state c)) (T(addr \<mapsto> ?t Held)) Unlocked Map.empty)"
    by (rule then_cstep [OF s1 then_cstep [OF s2 then_cstep [OF s3 then_cstep [OF s4 then_cstep [OF s5 last_cstep [OF s6]]]]]])
  show "registrations c = (registrations w)(addr \<mapsto> registration_new)"
    "trackers c = (trackers w)(addr \<mapsto> tracker_new addr)" "mk = addr"
    by (simp_all add: c map_state_def e_eq d_eq mk)
  show "dom (abort_handles (state c)) \<subseteq> insert addr (dom (abort_handles (state w)))"
    using e_eq(3) hs by (auto simp: c map_state_def split: if_splits)
qed

lemma between_dropped [simp]: "winner t \<in> {None, Some FinDone} \<Longrightarrow> task_between_calls False (dropped t)"
  by (auto simp: task_between_calls_def dropped_def is_finished_def)

lemma drop_matches:
  assumes call: "guard_drop dbg k v = Some w'" and match: "tasks_match regs trks H T"
    and v: "registrations v = regs(k \<mapsto> r)" "trackers v = trks(k \<mapsto> tracker t)"
      "dom (abort_handles (state v)) \<subseteq> insert k H"
    and t: "owner t = DropMark" "marker (tracker t) = k" "winner t \<in> {None, Some FinDone}"
      "task_state (tracker t) \<in> {TASK_STATE_QUEUED, TASK_STATE_RUNNING, TASK_STATE_FINISHED}"
  shows "\<exists>s'. (cstep dbg)\<^sup>*\<^sup>* (cat (erase (state v)) (T(k \<mapsto> t)) Unlocked Map.empty) s' \<and> matches w' s'"
proof -
  have known: "registrations v k = Some r" "trackers v k = Some (tracker t)" by (simp_all add: v)
  note runs = svc_drop_runs(1) [where T = T, OF call t(1,2) known t(4)] svc_drop_runs(2-4) [OF call t(1,2) known t(4)]
  have "tasks_match (regs(k \<mapsto> registration (dropped t))) (trks(k \<mapsto> tracker (dropped t)))
      (dom (abort_handles (state w'))) (T(k \<mapsto> dropped t))"
    using t(3) v(3) by (intro tasks_match_put [OF match]) (auto simp: runs(4))
  then have "matches w' (cat (erase (state w')) (T(k \<mapsto> dropped t)) Unlocked Map.empty)"
    by (simp add: matches_def runs(2,3) v dropped_def)
  with runs(1) show ?thesis by blast
qed

lemma submit_runs:
  assumes match: "matches w s" and fresh: "registrations w addr = None"
    and prep: "prepare_blocking_submission dbg addr w = Some (Inr mk, a)" and inside: "same_inside a b"
    and spawn: "spawn_accepted_blocking_task dbg tk mk hook b = Some (r, c)"
    and deliver: "deliver_payload dbg tk sender task mk c = Some w'"
  shows "\<exists>s'. (cstep dbg)\<^sup>*\<^sup>* s s' \<and> matches w' s'"
proof -
  obtain T where s: "s = cat (erase (state w)) T Unlocked Map.empty"
    and T: "tasks_match (registrations w) (trackers w) (dom (abort_handles (state w))) T"
    using match by (auto simp: matches_def)
  have none: "T addr = None" using T fresh by (simp add: tasks_match_def)
  note adm = admission_runs [where T = T and addr = addr, OF prep inside spawn none]
  let ?t = "admitted addr"
  let ?s = "cat (erase (state c)) (T(addr \<mapsto> ?t Held)) Unlocked Map.empty"
  have held: "tasks ?s addr = Some (?t Held)" "owner (?t Held) = Held" by (simp_all add: admitted_def)
  obtain sent d where send: "on_outside (oneshot_send tk sender (task, mk)) c = (sent, d)" by (metis prod.exhaust)
  have d: "state d = state c" "registrations d = registrations c" "trackers d = trackers c"
    using same_inside_on_outside [OF send] by (simp_all add: same_inside_def)
  have "\<exists>s'. (cstep dbg)\<^sup>*\<^sup>* ?s s' \<and> matches w' s'"
  proof (cases sent)
    case True
    then have w': "w' = d" using deliver send by (simp add: deliver_payload_def)
    have "task_between_calls (addr \<in> dom (abort_handles (state c))) (?t Delivered)"
      by (simp add: task_between_calls_def admitted_def tracker_new_def)
    from tasks_match_put [OF T this] adm(4)
    have "matches w' (cat (erase (state c)) (T(addr \<mapsto> ?t Delivered)) Unlocked Map.empty)"
      by (auto simp: matches_def w' d adm(2,3) admitted_def)
    moreover have "cstep dbg ?s (cat (erase (state c)) (T(addr \<mapsto> ?t Delivered)) Unlocked Map.empty)"
      using by_task [OF send_ok [OF held], of dbg] by (simp add: admitted_def)
    ultimately show ?thesis by blast
  next
    case False
    let ?d = "d\<lparr>outside := closure_drop tk task (outside d)\<rparr>"
    have drop: "guard_drop dbg addr ?d = Some w'"
      using False deliver send by (simp add: deliver_payload_def adm(5))
    have first: "cstep dbg ?s (cat (erase (state ?d)) (T(addr \<mapsto> ?t DropMark)) Unlocked Map.empty)"
      using by_task [OF send_refused [OF held], of dbg] by (simp add: admitted_def d)
    have "\<exists>s'. (cstep dbg)\<^sup>*\<^sup>* (cat (erase (state ?d)) (T(addr \<mapsto> ?t DropMark)) Unlocked Map.empty) s' \<and> matches w' s'"
      using adm(4) by (intro drop_matches [OF drop T]) (simp_all add: d adm(2,3) admitted_def tracker_new_def)
    with then_cstep [OF first] show ?thesis by blast
  qed
  then show ?thesis using rtranclp_trans [OF adm(1)] unfolding s by blast
qed

section \<open>The worker and the drop of a guard\<close>

text \<open>A task whose guard is gone: whoever names it again changes nothing.\<close>

lemma gone_drop:
  assumes "guard_drop dbg k w = Some w'" and "registrations w k = Some r" and "is_finished r"
    and "trackers w k = Some t" and "marker t = k" and "task_state t = TASK_STATE_FINISHED"
    and "abort_handles (state w) k = None"
  shows "same_inside w w'"
proof -
  have "r = \<lparr>finished = True\<rparr>" using assms(3) by (cases r) (simp add: is_finished_def)
  then have "untracked k w = w"
    using assms(2,7) by (cases w; cases "state w") (auto simp: untracked_def fun_upd_idem)
  with assms remove_untracks [OF assms(2)] show ?thesis
    by (auto simp: guard_drop_def tracker_finish_def swap_def Let_def same_inside_def fun_upd_idem)
qed

lemma drop_call_runs:
  assumes call: "guard_drop dbg k w = Some w'" and match: "matches w s" and ok: "trackers_ok w"
    and k: "k \<in> dom (trackers w)"
  shows "\<exists>s'. (cstep dbg)\<^sup>*\<^sup>* s s' \<and> matches w' s'"
proof -
  obtain T where s: "s = cat (erase (state w)) T Unlocked Map.empty"
    and T: "tasks_match (registrations w) (trackers w) (dom (abort_handles (state w))) T"
    using match by (auto simp: matches_def)
  obtain t where t: "T k = Some t" using k T by (auto simp: tasks_match_def)
  note td = tasks_matchD [OF T t]
  have m: "marker (tracker t) = k" using trackers_okD(1) [OF ok td(2)] .
  show ?thesis
  proof (cases "owner t = Delivered")
    case True
    have "cstep dbg s (cat (erase (state w)) (T(k \<mapsto> t\<lparr>owner := DropMark\<rparr>)) Unlocked Map.empty)"
      using by_task [OF discard [of s k t]] t True by (simp add: s)
    moreover have "\<exists>s'. (cstep dbg)\<^sup>*\<^sup>* (cat (erase (state w)) (T(k \<mapsto> t\<lparr>owner := DropMark\<rparr>)) Unlocked Map.empty) s'
        \<and> matches w' s'"
      using td m by (intro drop_matches [OF call T, where r = "registration t"])
        (auto simp: task_between_calls_def fun_upd_idem split: if_splits)
    ultimately show ?thesis using then_cstep by blast
  next
    case False
    have "same_inside w w'"
      using td(3) False m by (intro gone_drop [OF call td(1) _ td(2)])
        (auto simp: task_between_calls_def split: if_splits)
    with match show ?thesis using matches_inside by blast
  qed
qed

lemma svc_worker_runs:
  assumes call: "run_received dbg tk task k w = Some w'" and match: "matches w s" and ok: "trackers_ok w"
    and k: "k \<in> dom (trackers w)"
  shows "\<exists>s'. (cstep dbg)\<^sup>*\<^sup>* s s' \<and> matches w' s'"
proof -
  obtain T where s: "s = cat (erase (state w)) T Unlocked Map.empty"
    and T: "tasks_match (registrations w) (trackers w) (dom (abort_handles (state w))) T"
    using match by (auto simp: matches_def)
  obtain t where t: "T k = Some t" using k T by (auto simp: tasks_match_def)
  note td = tasks_matchD [OF T t]
  have m: "marker (tracker t) = k" using trackers_okD(1) [OF ok td(2)] .
  let ?v = "erase (state w)" and ?s = "\<lambda>v t. cat v (T(k \<mapsto> t)) Unlocked Map.empty"
  show ?thesis
  proof (cases "task_state (tracker t) = TASK_STATE_QUEUED")
    case True
    let ?r = "put_state t TASK_STATE_RUNNING"
    have t': "owner t = Delivered" "winner t = None" using td(3) True by (simp_all add: task_between_calls_def)
    obtain v where v: "mark_task_started dbg (state w) = Some v"
      and drop: "guard_drop dbg k (w\<lparr>trackers := (trackers w)(k \<mapsto> (tracker t)\<lparr>task_state := TASK_STATE_RUNNING\<rparr>),
        state := v, outside := run_closure tk task (outside w)\<rparr>) = Some w'"
      using call td(2) True by (auto simp: run_received_def guard_mark_started_def tracker_mark_started_def
          compare_exchange_def Let_def split: bind_splits)
    have s1: "cstep dbg s (?s ?v (t\<lparr>owner := Received\<rparr>))"
      using by_task [OF receive [of s k t]] t t'(1) by (simp add: s)
    have s2: "cstep dbg (?s ?v (t\<lparr>owner := Received\<rparr>)) (?s ?v (?r\<lparr>owner := MarkCount\<rparr>))"
      using by_task [OF start_won [of "?s ?v (t\<lparr>owner := Received\<rparr>)" k "t\<lparr>owner := Received\<rparr>"]] True by simp
    have s3: "cstep dbg (?s ?v (?r\<lparr>owner := MarkCount\<rparr>)) (?s (erase v) (?r\<lparr>owner := RunningTask\<rparr>))"
      using by_task [OF start_count [of "?s ?v (?r\<lparr>owner := MarkCount\<rparr>)" k "?r\<lparr>owner := MarkCount\<rparr>"]] v by simp
    have s4: "cstep dbg (?s (erase v) (?r\<lparr>owner := RunningTask\<rparr>)) (?s (erase v) (?r\<lparr>owner := DropMark\<rparr>))"
      using by_task [OF closure_returns [of "?s (erase v) (?r\<lparr>owner := RunningTask\<rparr>)" k "?r\<lparr>owner := RunningTask\<rparr>"]] by simp
    have hs: "abort_handles v = abort_handles (state w)"
      using v by (auto simp: mark_task_started_def split: bind_splits)
    have "\<exists>s'. (cstep dbg)\<^sup>*\<^sup>* (?s (erase v) (?r\<lparr>owner := DropMark\<rparr>)) s' \<and> matches w' s'"
      using drop_matches [OF drop T, of "registration t" "?r\<lparr>owner := DropMark\<rparr>"] td(1) m t'(2) hs
      by (auto simp: fun_upd_idem)
    with then_cstep [OF s1 then_cstep [OF s2 then_cstep [OF s3 then_cstep [OF s4]]]] show ?thesis by blast
  next
    case False
    then have fin: "task_state (tracker t) = TASK_STATE_FINISHED" using td(3) by (simp add: task_between_calls_def)
    obtain u where u: "guard_drop dbg k w = Some u" "same_inside u w'"
      using call td(2) fin by (auto simp: run_received_def guard_mark_started_def tracker_mark_started_def
          compare_exchange_def split: bind_splits)
    from drop_call_runs [OF u(1) match ok k] matches_inside [OF u(2)] show ?thesis by blast
  qed
qed

section \<open>Cancellation\<close>

text \<open>The tracker's part of a cancellation: the exchange, and the winner's accounting.\<close>

lemma finish_queued_cases:
  assumes "tracker_finish_queued dbg k w = Some (won, w')" and "trackers w k = Some (tracker t)"
  obtains (won) s where "won" "task_state (tracker t) = TASK_STATE_QUEUED"
      "finish_task dbg False (state w) = Some s"
      "w' = w\<lparr>trackers := (trackers w)(k \<mapsto> (tracker t)\<lparr>task_state := TASK_STATE_FINISHED\<rparr>), state := s\<rparr>"
      "abort_handles s = abort_handles (state w)"
  | (lost) "\<not> won" "task_state (tracker t) \<noteq> TASK_STATE_QUEUED" "w' = w"
proof (cases "task_state (tracker t) = TASK_STATE_QUEUED")
  case True
  then obtain s where s: "finish_task dbg False (state w) = Some s" "won"
      "w' = w\<lparr>trackers := (trackers w)(k \<mapsto> (tracker t)\<lparr>task_state := TASK_STATE_FINISHED\<rparr>), state := s\<rparr>"
    using assms by (auto simp: tracker_finish_queued_def compare_exchange_def Let_def split: bind_splits)
  have "abort_handles s = abort_handles (state w)"
    using s(1) by (auto simp: finish_task_def finish_task_section_def notify_termination_waiters_def Let_def
        split: bind_splits)
  with won s True show ?thesis by blast
qed (use assms lost in \<open>auto simp: tracker_finish_queued_def compare_exchange_def\<close>)

lemma queued_between: "task_between_calls b t \<Longrightarrow> task_state (tracker t) = TASK_STATE_QUEUED \<Longrightarrow>
    owner t = Delivered \<and> winner t = None"
  by (simp add: task_between_calls_def)

lemma svc_cancel_runs:
  assumes call: "cancel_queued_callback dbg k w = Some w'" and match: "matches w s" and ok: "trackers_ok w"
    and k: "k \<in> dom (trackers w)"
  shows "\<exists>s'. (cstep dbg)\<^sup>*\<^sup>* s s' \<and> matches w' s'"
proof -
  obtain T where s: "s = cat (erase (state w)) T Unlocked Map.empty"
    and T: "tasks_match (registrations w) (trackers w) (dom (abort_handles (state w))) T"
    using match by (auto simp: matches_def)
  obtain t where t: "T k = Some t" using k T by (auto simp: tasks_match_def)
  note td = tasks_matchD [OF T t]
  have m: "marker (tracker t) = k" using trackers_okD(1) [OF ok td(2)] .
  let ?u = "untracked k w" and ?v = "erase (state w)"
  let ?r = "?v\<lparr>abort_handles := (abort_handles ?v)(k := None)\<rparr>"
  let ?t = "t\<lparr>registration := \<lparr>finished = True\<rparr>\<rparr>"
  let ?s = "\<lambda>v t pc. cat v (T(k \<mapsto> t)) Unlocked [0 \<mapsto> pc]"
  have u: "erase (state ?u) = ?r" "registrations ?u = (registrations w)(k \<mapsto> \<lparr>finished = True\<rparr>)"
    "trackers ?u = trackers w" "abort_handles (state ?u) = (abort_handles (state w))(k := None)"
    by (simp_all add: untracked_def)
  obtain won where fin: "tracker_finish_queued dbg k ?u = Some (won, w')"
    using call td(1,2) m by (auto simp: cancel_queued_callback_def tracker_cancel_queued_def
        remove_untracks [OF td(1)])
  have "T(k \<mapsto> t) = T" using t by (simp add: fun_upd_idem)
  then have s1: "cstep dbg s (?s ?v t (CancelMark k))"
    using by_canceller [OF cancel_start [of s 0 k t]] t by (simp add: s)
  have s2: "cstep dbg (?s ?v t (CancelMark k)) (?s ?v ?t (CancelRemove k))"
    using by_canceller [OF cancel_mark [of "?s ?v t (CancelMark k)" 0 k t]] by (simp add: finish_def)
  have s3: "cstep dbg (?s ?v ?t (CancelRemove k)) (?s ?r ?t (CancelCas k))"
    using by_canceller [OF cancel_remove [of "?s ?v ?t (CancelRemove k)" 0 k]] by (simp add: key_def)
  have out: "(cstep dbg)\<^sup>*\<^sup>* (?s v x (CancelAbort k)) (cat v (T(k \<mapsto> x)) Unlocked Map.empty)" for v x
  proof -
    have a: "cstep dbg (?s v x (CancelAbort k)) (?s v x CancelReturned)"
      using by_canceller [OF cancel_abort [of "?s v x (CancelAbort k)" 0 k]] by simp
    have "cstep dbg (?s v x CancelReturned) (cat v (T(k \<mapsto> x)) Unlocked Map.empty)"
      using by_reclaim [OF thread_exit [of "?s v x CancelReturned" 0], of CancelReturned]
      by (simp add: fun_upd_idem)
    with a show ?thesis by (rule then_cstep [OF _ last_cstep])
  qed
  have trk: "trackers ?u k = Some (tracker t)" using td(2) u(3) by simp
  have "\<exists>x. (cstep dbg)\<^sup>*\<^sup>* (?s ?r ?t (CancelCas k)) (cat (erase (state w')) (T(k \<mapsto> x)) Unlocked Map.empty) \<and>
      matches w' (cat (erase (state w')) (T(k \<mapsto> x)) Unlocked Map.empty)"
    using fin trk
  proof (cases rule: finish_queued_cases)
    case (won v)
    note q = queued_between [OF td(3) won(2)]
    let ?q = "put_state ?t TASK_STATE_FINISHED"
    have s4: "cstep dbg (?s ?r ?t (CancelCas k)) (?s ?r (with_fin True ?q (FinCount False)) (CancelWait k))"
      using by_canceller [OF cancel_won [of "?s ?r ?t (CancelCas k)" 0 k ?t]] won(2) by (simp add: with_fin_def)
    have s5: "(cstep dbg)\<^sup>*\<^sup>* (?s ?r (with_fin True ?q (FinCount False)) (CancelWait k))
        (?s (erase v) (with_fin True ?q FinDone) (CancelWait k))"
      using svc_finish_runs [OF won(3), of "[0 \<mapsto> CancelWait k]" T k True ?q Unlocked] by (simp add: u(1))
    have s6: "cstep dbg (?s (erase v) (with_fin True ?q FinDone) (CancelWait k))
        (?s (erase v) (with_fin True ?q FinDone) (CancelAbort k))"
      using by_canceller [OF cancel_waited [of "?s (erase v) (with_fin True ?q FinDone) (CancelWait k)" 0 k]]
      by (simp add: with_fin_def)
    have runs: "(cstep dbg)\<^sup>*\<^sup>* (?s ?r ?t (CancelCas k))
        (cat (erase v) (T(k \<mapsto> with_fin True ?q FinDone)) Unlocked Map.empty)"
      by (rule then_cstep [OF s4 rtranclp_trans [OF s5 then_cstep [OF s6 out]]])
    have "task_between_calls (k \<in> dom (abort_handles (state w'))) (with_fin True ?q FinDone)"
      using q by (simp add: with_fin_def task_between_calls_def)
    from tasks_match_put [OF T this] runs show ?thesis
      by (intro exI [of _ "with_fin True ?q FinDone"])
        (auto simp: matches_def won(4,5) u with_fin_def)
  next
    case lost
    have s4: "cstep dbg (?s ?r ?t (CancelCas k)) (?s ?r ?t (CancelAbort k))"
      using by_canceller [OF cancel_lost [of "?s ?r ?t (CancelCas k)" 0 k ?t]] lost(2) by simp
    have "task_between_calls (k \<in> dom (abort_handles (state w'))) ?t"
      using td(3) lost(2) by (auto simp: task_between_calls_def lost(3) u is_finished_def)
    from tasks_match_put [OF T this] then_cstep [OF s4 out] show ?thesis
      by (intro exI [of _ ?t]) (auto simp: matches_def lost(3) u fun_upd_idem [of "trackers w"] td(2))
  qed
  then show ?thesis using then_cstep [OF s1 then_cstep [OF s2 then_cstep [OF s3]]] by blast
qed

section \<open>Shutdown and stop\<close>

text \<open>The last steps of both, in a system with no other thread.\<close>

lemma svc_close_runs:
  "(cstep dbg)\<^sup>*\<^sup>* (cat v T Unlocked [0 \<mapsto> CloseCapacity rep])
     (cat (notify_if_terminated (notify_capacity_changed v)) T Unlocked Map.empty)"
proof -
  let ?s = "\<lambda>v pc. cat v T Unlocked [0 \<mapsto> pc]" and ?c = "notify_capacity_changed v"
  have sig: "signal_capacity (?s v (CloseCapacity rep)) = ?s ?c (CloseCapacity rep)"
    "signal_monitor (?s ?c (CloseMonitor rep)) = ?s (notify_all ?c) (CloseMonitor rep)"
    "signal_notify (?s (notify_all ?c) (CloseNotify rep)) = ?s (notify_waiters (notify_all ?c)) (CloseNotify rep)"
    by (simp_all add: signals_without_waiters)
  have s1: "cstep dbg (?s v (CloseCapacity rep)) (?s ?c (CloseCheck rep))"
    using by_closer [OF close_capacity [of "?s v (CloseCapacity rep)" 0 rep], of dbg] by (simp add: sig)
  have s2: "cstep dbg (?s ?c (CloseCheck rep))
      (?s ?c (if is_terminated_state ?c then CloseMonitor rep else Closed rep))"
    using by_closer [OF close_check [of "?s ?c (CloseCheck rep)" 0 rep], of dbg] by simp
  have out: "cstep dbg (?s u (Closed rep)) (cat u T Unlocked Map.empty)" for u
    using by_reclaim [OF thread_exit [of "?s u (Closed rep)" 0], of "Closed rep"] by (simp add: fun_upd_idem)
  have e: "notify_if_terminated ?c = (if is_terminated_state ?c then notify_waiters (notify_all ?c) else ?c)"
    by (simp add: notify_if_terminated_def is_terminated_state_def notify_termination_waiters_def)
  show ?thesis
  proof (cases "is_terminated_state ?c")
    case True
    have s3: "cstep dbg (?s ?c (CloseMonitor rep)) (?s (notify_all ?c) (CloseNotify rep))"
      using by_closer [OF close_monitor [of "?s ?c (CloseMonitor rep)" 0 rep], of dbg] by (simp add: sig)
    have s4: "cstep dbg (?s (notify_all ?c) (CloseNotify rep)) (?s (notify_waiters (notify_all ?c)) (Closed rep))"
      using by_closer [OF close_notify [of "?s (notify_all ?c) (CloseNotify rep)" 0 rep], of dbg] by (simp add: sig)
    from then_cstep [OF s1 then_cstep [OF s2 [unfolded if_P [OF True]] then_cstep [OF s3 then_cstep [OF s4 last_cstep [OF out]]]]]
    show ?thesis unfolding e by (simp add: True)
  next
    case False
    from then_cstep [OF s1 then_cstep [OF s2 [unfolded if_not_P [OF False]] last_cstep [OF out]]]
    show ?thesis unfolding e by (simp add: False)
  qed
qed

lemma lock_store:
  assumes "\<not> submission_lock v"
  shows "unlock_submission (state_shutdown (v\<lparr>submission_lock := True\<rparr>)) = state_shutdown v"
    "unlock_submission (state_stop (v\<lparr>submission_lock := True\<rparr>)) = state_stop v"
  using assms by (cases v; simp add: unlock_submission_def state_shutdown_def state_stop_def)+

lemma svc_shutdown_runs:
  assumes "shutdown w = Some w'" and "matches w s"
  shows "\<exists>s'. (cstep dbg)\<^sup>*\<^sup>* s s' \<and> matches w' s'"
proof -
  obtain T where s: "s = cat (erase (state w)) T Unlocked Map.empty"
    and T: "tasks_match (registrations w) (trackers w) (dom (abort_handles (state w))) T"
    using assms(2) by (auto simp: matches_def)
  have free: "\<not> submission_lock (state w)" using assms(1) by (auto simp: shutdown_def split: bind_splits)
  have w': "w' = w\<lparr>state := notify_if_terminated (notify_capacity_changed (state_shutdown (state w)))\<rparr>"
    using assms(1) lock_store(1) [OF free] by (auto simp: shutdown_def Let_def split: bind_splits)
  let ?v = "erase (state w)"
  let ?l = "?v\<lparr>submission_lock := True\<rparr>"
  have s1: "cstep dbg s (cat ?l T ShutdownStore Map.empty)"
    using by_holder [OF lock [of s ?l ShutdownStore], of dbg] free by (simp add: s)
  have s2: "cstep dbg (cat ?l T ShutdownStore Map.empty) (cat (state_shutdown ?l) T ShutdownUnlock Map.empty)"
    using by_holder [OF shutdown_store [of "cat ?l T ShutdownStore Map.empty"], of dbg] by simp
  have s3: "cstep dbg (cat (state_shutdown ?l) T ShutdownUnlock Map.empty)
      (cat (state_shutdown ?v) T Unlocked [0 \<mapsto> CloseCapacity None])"
    using by_holder [OF shutdown_unlock [of "cat (state_shutdown ?l) T ShutdownUnlock Map.empty" 0], of dbg] free
    by (simp add: lock_store)
  have "(cstep dbg)\<^sup>*\<^sup>* s (cat (erase (state w')) T Unlocked Map.empty)"
    using then_cstep [OF s1 then_cstep [OF s2 then_cstep [OF s3 svc_close_runs]]] by (simp add: w')
  moreover have "abort_handles (state w') = abort_handles (state w)"
    by (simp add: w' notify_if_terminated_def notify_termination_waiters_def Let_def)
  then have "matches w' (cat (erase (state w')) T Unlocked Map.empty)"
    using T by (simp add: matches_def w')
  ultimately show ?thesis by blast
qed

text \<open>Calling a tracked handle's hook is the tracker's exchange for its target.\<close>

lemma call_hook_cases:
  assumes "call_hook dbg tk hook w = Some (won, w')"
  obtains v where "tracker_finish_queued dbg (hook_target hook) w = Some (won, v)" "same_inside v w'"
proof (cases hook)
  case (FinishQueuedOnce k)
  with assms that show ?thesis by (simp add: call_hook_def finish_queued_once_callback_def)
next
  case (CancelSlotIfQueued slot k)
  obtain won' v where v: "tracker_finish_queued dbg k w = Some (won', v)"
    using assms CancelSlotIfQueued by (auto simp: call_hook_def finish_queued_once_callback_def
        cancel_unstarted_task_slot_if_queued_def split: bind_splits)
  obtain c u where u: "on_outside (slot_cell_cancel_unstarted tk slot) v = (c, u)" by (metis prod.exhaust)
  with v assms CancelSlotIfQueued that [of v] same_inside_on_outside [OF u] show ?thesis
    by (auto simp: call_hook_def finish_queued_once_callback_def cancel_unstarted_task_slot_if_queued_def
        split: if_splits)
qed

lemma svc_hook_runs:
  assumes call: "call_hook dbg tk hook w = Some (won, w')" and target: "hook_target hook = k"
    and T: "tasks_match (registrations w) (trackers w) H T" and k: "k \<in> dom T"
    and add: "won \<Longrightarrow> add_assign dbg n 1 = Some m"
  shows "\<exists>T'. (cstep dbg)\<^sup>*\<^sup>* (cat (erase (state w)) T Unlocked [0 \<mapsto> StopHook q r k ks n])
      (cat (erase (state w')) T' Unlocked [0 \<mapsto> StopLoop q r ks (if won then m else n)]) \<and>
    tasks_match (registrations w') (trackers w') H T' \<and> dom T' = dom T \<and>
    abort_handles (state w') = abort_handles (state w)"
proof -
  obtain t where t: "T k = Some t" using k by blast
  note td = tasks_matchD [OF T t]
  have Tk: "T(k \<mapsto> t) = T" using t by (simp add: fun_upd_idem)
  obtain v where v: "tracker_finish_queued dbg k w = Some (won, v)" "same_inside v w'"
    using call_hook_cases [OF call] target by blast
  let ?s = "\<lambda>v t pc. cat v (T(k \<mapsto> t)) Unlocked [0 \<mapsto> pc]" and ?v = "erase (state w)"
  let ?hook = "StopHook q r k ks n" and ?wait = "StopHookWait q r k ks n"
  have w': "state w' = state v" "registrations w' = registrations v" "trackers w' = trackers v"
    using v(2) by (simp_all add: same_inside_def)
  show ?thesis using v(1) td(2)
  proof (cases rule: finish_queued_cases)
    case (won u)
    note q = queued_between [OF td(3) won(2)]
    let ?q = "put_state t TASK_STATE_FINISHED"
    have s1: "cstep dbg (?s ?v t ?hook) (?s ?v (with_fin True ?q (FinCount False)) ?wait)"
      using by_closer [OF stop_hook_won [of "?s ?v t ?hook" 0 q r k ks n t], of _ _ dbg] won(2) by (simp add: with_fin_def)
    have s2: "(cstep dbg)\<^sup>*\<^sup>* (?s ?v (with_fin True ?q (FinCount False)) ?wait)
        (?s (erase u) (with_fin True ?q FinDone) ?wait)"
      using svc_finish_runs [OF won(3), of "[0 \<mapsto> ?wait]" T k True ?q Unlocked] by simp
    have s3: "cstep dbg (?s (erase u) (with_fin True ?q FinDone) ?wait)
        (?s (erase u) (with_fin True ?q FinDone) (StopLoop q r ks m))"
      using by_closer [OF stop_hook_waited [of "?s (erase u) (with_fin True ?q FinDone) ?wait" 0 q r k ks n
            "with_fin True ?q FinDone" dbg m]] add [OF won(1)] by (simp add: with_fin_def)
    have "task_between_calls (k \<in> H) (with_fin True ?q FinDone)"
      using q by (simp add: with_fin_def task_between_calls_def)
    from tasks_match_put [OF T this order_refl]
    have "tasks_match (registrations w') (trackers w') H (T(k \<mapsto> with_fin True ?q FinDone))"
      by (simp add: w' won(4) with_fin_def fun_upd_idem [of "registrations w"] td(1))
    moreover have "(cstep dbg)\<^sup>*\<^sup>* (cat ?v T Unlocked [0 \<mapsto> ?hook])
        (?s (erase (state w')) (with_fin True ?q FinDone) (StopLoop q r ks m))"
      using then_cstep [OF s1 rtranclp_trans [OF s2 last_cstep [OF s3]]] by (simp add: Tk w' won(4))
    ultimately show ?thesis using won(1,4,5) t
      by (intro exI [of _ "T(k \<mapsto> with_fin True ?q FinDone)"]) (auto simp: w')
  next
    case lost
    have "cstep dbg (cat ?v T Unlocked [0 \<mapsto> ?hook]) (cat ?v T Unlocked [0 \<mapsto> StopLoop q r ks n])"
      using by_closer [OF stop_hook_lost [of "cat ?v T Unlocked [0 \<mapsto> ?hook]" 0 q r k ks n t], of _ _ dbg] lost(2) t by simp
    with lost(1,3) T show ?thesis by (intro exI [of _ T]) (auto simp: w')
  qed
qed

lemma svc_loop_runs:
  assumes "abort_loop dbg fin abort (call_hook dbg tk) hs n w = Some (m, w')"
    and "\<forall>(k, a) \<in> set hs. hook_target (cancel a) = k \<and> k \<in> dom T"
    and "tasks_match (registrations w) (trackers w) H T"
  shows "\<exists>T'. (cstep dbg)\<^sup>*\<^sup>* (cat (erase (state w)) T Unlocked [0 \<mapsto> StopLoop q r (map fst hs) n])
      (cat (erase (state w')) T' Unlocked [0 \<mapsto> StopLoop q r [] m]) \<and>
    tasks_match (registrations w') (trackers w') H T' \<and> abort_handles (state w') = abort_handles (state w)"
  using assms
proof (induction hs arbitrary: n w T)
  case (Cons h hs)
  let ?loop = "\<lambda>v T ks n. cat v T Unlocked [0 \<mapsto> StopLoop q r ks n]" and ?ks = "map fst hs" and ?v = "erase (state w)"
  obtain k a where h: "h = (k, a)" by (cases h)
  have k: "hook_target (cancel a) = k" "k \<in> dom T"
    and hs: "\<forall>(k, a) \<in> set hs. hook_target (cancel a) = k \<and> k \<in> dom T"
    using Cons.prems(2) by (auto simp: h)
  show ?case
  proof (cases "fin (handle a) (outside w)")
    case True
    have s1: "cstep dbg (?loop ?v T (k # ?ks) n) (?loop ?v T ?ks n)"
      using by_closer [OF stop_skip [of "?loop ?v T (k # ?ks) n" 0 q r k ?ks n], of dbg] by simp
    have "abort_loop dbg fin abort (call_hook dbg tk) hs n w = Some (m, w')" using Cons.prems(1) True h by simp
    from Cons.IH [OF this hs Cons.prems(3)] show ?thesis
      unfolding h list.map fst_conv using then_cstep [OF s1] by blast
  next
    case False
    let ?w = "w\<lparr>outside := abort (handle a) (outside w)\<rparr>"
    obtain won u n' where u: "call_hook dbg tk (cancel a) ?w = Some (won, u)"
      "(if won then add_assign dbg n 1 else Some n) = Some n'"
      "abort_loop dbg fin abort (call_hook dbg tk) hs n' u = Some (m, w')"
      using Cons.prems(1) False h by (auto simp: Let_def split: bind_splits prod.splits)
    have s1: "cstep dbg (?loop ?v T (k # ?ks) n) (cat ?v T Unlocked [0 \<mapsto> StopHook q r k ?ks n])"
      using by_closer [OF stop_abort [of "?loop ?v T (k # ?ks) n" 0 q r k ?ks n], of dbg] by simp
    have match: "tasks_match (registrations ?w) (trackers ?w) H T" using Cons.prems(3) by simp
    obtain T' where T': "(cstep dbg)\<^sup>*\<^sup>* (cat ?v T Unlocked [0 \<mapsto> StopHook q r k ?ks n]) (?loop (erase (state u)) T' ?ks n')"
      "tasks_match (registrations u) (trackers u) H T'" "dom T' = dom T" "abort_handles (state u) = abort_handles (state w)"
      using svc_hook_runs [where q = q and r = r and ks = ?ks and n = n and m = n', OF u(1) k(1) match k(2)] u(2)
      by (cases won) auto
    from hs T'(3) have "\<forall>(k, a) \<in> set hs. hook_target (cancel a) = k \<and> k \<in> dom T'" by simp
    from Cons.IH [OF u(3) this T'(2)] T'(4) show ?thesis
      unfolding h list.map fst_conv using then_cstep [OF s1 rtranclp_trans [OF T'(1)]] by metis
  qed
qed auto

lemma svc_stop_runs:
  assumes call: "stop dbg tk iter w = Some (rep, w')" and match: "matches w s"
    and ready: "ready w" and iter: "iterates iter"
  shows "\<exists>s'. (cstep dbg)\<^sup>*\<^sup>* s s' \<and> matches w' s'"
proof -
  obtain T where s: "s = cat (erase (state w)) T Unlocked Map.empty"
    and T: "tasks_match (registrations w) (trackers w) (dom (abort_handles (state w))) T"
    using match by (auto simp: matches_def)
  let ?H = "abort_handles (state w)" and ?v = "erase (state w)"
  let ?hs = "iter ?H" and ?w = "w\<lparr>state := (state w)\<lparr>lifecycle_byte := as_u8 Stopping, abort_handles := Map.empty\<rparr>\<rparr>"
  let ?q = "queued (task_counts (state w))" and ?r = "running (task_counts (state w))"
  have free: "\<not> submission_lock (state w)" by (rule ready_inv(2) [OF ready])
  obtain m u where loop: "abort_loop dbg (abort_is_finished tk) (abort_request tk) (call_hook dbg tk) ?hs 0 ?w = Some (m, u)"
    and w': "w' = map_state notify_if_terminated (map_state notify_capacity_changed u)"
    using call by (auto simp: stop_unfold [OF ready] simp del: as_u8.simps split: bind_splits)
  have ok: "handle_ok w k a" if "?H k = Some a" for k a by (rule ready_handle [OF ready that])
  have dom: "dom ?H \<subseteq> dom (trackers w)" using ok by (fastforce simp: handle_ok_def)
  have "finite (dom ?H)"
    using finite_subset [OF dom trackers_ok_finite [OF service_invD(2) [OF ready_inv(1) [OF ready]]]] .
  then have it: "distinct (map fst ?hs)" "map_of ?hs = ?H" using iter unfolding iterates_def by blast+
  have set: "set (map fst ?hs) = dom ?H" using it(2) by (metis dom_map_of_conv_image_fst set_map)
  have targets: "\<forall>(k, a) \<in> set ?hs. hook_target (cancel a) = k \<and> k \<in> dom T"
  proof (intro ballI, clarify)
    fix k a assume "(k, a) \<in> set ?hs"
    then have "?H k = Some a" using it by (metis map_of_eq_Some_iff)
    with ok [OF this] T show "hook_target (cancel a) = k \<and> k \<in> dom T"
      by (auto simp: handle_ok_def tasks_match_def)
  qed
  have T0: "tasks_match (registrations ?w) (trackers ?w) {} T"
    using T unfolding tasks_match_def task_between_calls_def by (auto split: if_splits)
  obtain T' where T': "(cstep dbg)\<^sup>*\<^sup>* (cat (erase (state ?w)) T Unlocked [0 \<mapsto> StopLoop ?q ?r (map fst ?hs) 0])
      (cat (erase (state u)) T' Unlocked [0 \<mapsto> StopLoop ?q ?r [] m])"
    "tasks_match (registrations u) (trackers u) {} T'" "abort_handles (state u) = Map.empty"
    using svc_loop_runs [OF loop targets T0] by auto
  let ?l = "?v\<lparr>submission_lock := True\<rparr>" and ?e = "state_stop ?v"
  have s1: "cstep dbg s (cat ?l T StopStore Map.empty)"
    using by_holder [OF lock [of s ?l StopStore], of dbg] free by (simp add: s)
  have s2: "cstep dbg (cat ?l T StopStore Map.empty) (cat (state_stop ?l) T StopSnapshot Map.empty)"
    using by_holder [OF stop_store [of "cat ?l T StopStore Map.empty"], of dbg] by simp
  have s3: "cstep dbg (cat (state_stop ?l) T StopSnapshot Map.empty) (cat (state_stop ?l) T (StopUnlock ?q ?r) Map.empty)"
    using by_holder [OF stop_snapshot [of "cat (state_stop ?l) T StopSnapshot Map.empty" ?q ?r], of dbg]
    by (simp add: task_count_snapshot_def)
  have s4: "cstep dbg (cat (state_stop ?l) T (StopUnlock ?q ?r) Map.empty) (cat ?e T Unlocked [0 \<mapsto> StopTake ?q ?r])"
    using by_holder [OF stop_unlock [of "cat (state_stop ?l) T (StopUnlock ?q ?r) Map.empty" ?q ?r 0], of dbg] free
    by (simp add: lock_store)
  have e: "?e\<lparr>abort_handles := Map.empty\<rparr> = erase (state ?w)" by (simp add: state_stop_def stop_bits_def)
  have "dom (abort_handles ?e) = dom ?H" by (auto simp: dom_def)
  then have s5: "cstep dbg (cat ?e T Unlocked [0 \<mapsto> StopTake ?q ?r])
      (cat (erase (state ?w)) T Unlocked [0 \<mapsto> StopLoop ?q ?r (map fst ?hs) 0])"
    using by_closer [OF stop_take [of "cat ?e T Unlocked [0 \<mapsto> StopTake ?q ?r]" 0 ?q ?r "map fst ?hs"], of dbg] it(1) set
    unfolding e [symmetric] by simp
  have s6: "cstep dbg (cat (erase (state u)) T' Unlocked [0 \<mapsto> StopLoop ?q ?r [] m])
      (cat (erase (state u)) T' Unlocked [0 \<mapsto> CloseCapacity (close_report ?q ?r m)])"
    using by_closer [OF stop_loop_end [of "cat (erase (state u)) T' Unlocked [0 \<mapsto> StopLoop ?q ?r [] m]" 0 ?q ?r m], of dbg]
    by simp
  have "(cstep dbg)\<^sup>*\<^sup>* s (cat (erase (state w')) T' Unlocked Map.empty)"
    using then_cstep [OF s1 then_cstep [OF s2 then_cstep [OF s3 then_cstep [OF s4 then_cstep [OF s5
          rtranclp_trans [OF T'(1) then_cstep [OF s6 svc_close_runs]]]]]]] by (simp add: w' map_state_def)
  moreover have "matches w' (cat (erase (state w')) T' Unlocked Map.empty)"
    using T'(2,3) by (simp add: matches_def w' map_state_def notify_if_terminated_def notify_termination_waiters_def Let_def)
  ultimately show ?thesis by blast
qed

section \<open>The property\<close>

lemma try_submit_runs:
  assumes match: "matches w s" and fresh: "registrations w addr = None"
  shows "try_submit dbg tk addr task w = Some (res1, w') \<Longrightarrow> \<exists>s'. (cstep dbg)\<^sup>*\<^sup>* s s' \<and> matches w' s'"
    and "try_submit_callable dbg tk addr task w = Some (res2, w') \<Longrightarrow> \<exists>s'. (cstep dbg)\<^sup>*\<^sup>* s s' \<and> matches w' s'"
    and "try_submit_tracked_callable dbg tk addr task w = Some (res3, w') \<Longrightarrow> \<exists>s'. (cstep dbg)\<^sup>*\<^sup>* s s' \<and> matches w' s'"
proof -
  have refused: "\<exists>s'. (cstep dbg)\<^sup>*\<^sup>* s s' \<and> matches w s'" using match by blast
  note runs = submit_runs [OF match fresh]
  show "\<exists>s'. (cstep dbg)\<^sup>*\<^sup>* s s' \<and> matches w' s'" if call: "try_submit dbg tk addr task w = Some (res1, w')"
  proof -
    obtain p a where a: "prepare_blocking_submission dbg addr w = Some (p, a)"
      using call by (auto simp: try_submit_def split: bind_splits)
    show ?thesis
    proof (cases p)
      case (Inl e)
      with a call prepare_refuses [of dbg addr w e a] refused show ?thesis by (simp add: try_submit_def)
    next
      case (Inr mk)
      then show ?thesis using a call runs [of dbg mk a a tk]
        by (auto simp: try_submit_def split: bind_splits prod.splits)
    qed
  qed
  show "\<exists>s'. (cstep dbg)\<^sup>*\<^sup>* s s' \<and> matches w' s'" if call: "try_submit_callable dbg tk addr task w = Some (res2, w')"
  proof -
    obtain p a where a: "prepare_blocking_submission dbg addr w = Some (p, a)"
      using call by (auto simp: try_submit_callable_def split: bind_splits)
    show ?thesis
    proof (cases p)
      case (Inl e)
      with a call prepare_refuses [of dbg addr w e a] refused show ?thesis by (simp add: try_submit_callable_def)
    next
      case (Inr mk)
      obtain h c b where b: "on_outside (endpoint_parts tk) a = ((h, c), b)" by (metis prod.exhaust)
      let ?b = "b\<lparr>outside := slot_accept tk c (outside b)\<rparr>"
      obtain cell d where d: "on_outside (share_task_slot (slot_cell_new tk) c) ?b = (cell, d)" by (metis prod.exhaust)
      have "same_inside a d"
        using same_inside_on_outside [OF b] same_inside_on_outside [OF d] by (simp add: same_inside_def)
      then show ?thesis using Inr a b d call runs [of dbg mk a d tk]
        by (auto simp: try_submit_callable_def Let_def split: bind_splits prod.splits)
    qed
  qed
  show "\<exists>s'. (cstep dbg)\<^sup>*\<^sup>* s s' \<and> matches w' s'" if call: "try_submit_tracked_callable dbg tk addr task w = Some (res3, w')"
  proof -
    obtain p a where a: "prepare_blocking_submission dbg addr w = Some (p, a)"
      using call by (auto simp: try_submit_tracked_callable_def split: bind_splits)
    show ?thesis
    proof (cases p)
      case (Inl e)
      with a call prepare_refuses [of dbg addr w e a] refused show ?thesis by (simp add: try_submit_tracked_callable_def)
    next
      case (Inr mk)
      obtain h c b where b: "on_outside (endpoint_tracked_parts tk) a = ((h, c), b)" by (metis prod.exhaust)
      let ?b = "b\<lparr>outside := slot_accept tk c (outside b)\<rparr>"
      obtain cell d where d: "on_outside (share_task_slot (slot_cell_new tk) c) ?b = (cell, d)" by (metis prod.exhaust)
      have "same_inside a d"
        using same_inside_on_outside [OF b] same_inside_on_outside [OF d] by (simp add: same_inside_def)
      then show ?thesis using Inr a b d call runs [of dbg mk a d tk]
        by (auto simp: try_submit_tracked_callable_def Let_def split: bind_splits prod.splits)
    qed
  qed
qed

lemma exec_call_runs:
  assumes call: "exec_call dbg tk iter c w = Some w'" and possible: "call_possible c w"
    and ready: "ready w" and match: "matches w s" and iter: "iterates iter"
  shows "\<exists>s'. (cstep dbg)\<^sup>*\<^sup>* s s' \<and> matches w' s'"
proof -
  have ok: "trackers_ok w" using service_invD(2) [OF ready_inv(1) [OF ready]] .
  show ?thesis
  proof (cases c)
    case (CallSubmit addr task)
    with call possible try_submit_runs(1) [OF match] show ?thesis by auto
  next
    case (CallSubmitCallable addr task)
    with call possible try_submit_runs(2) [OF match] show ?thesis by auto
  next
    case (CallSubmitTracked addr task)
    with call possible try_submit_runs(3) [OF match] show ?thesis by auto
  next
    case (CallWorker task k)
    with call possible show ?thesis by (auto intro!: svc_worker_runs [OF _ match ok])
  next
    case (CallDropGuard k)
    with call possible show ?thesis by (auto intro!: drop_call_runs [OF _ match ok])
  next
    case (CallCancelQueued k)
    with call possible show ?thesis by (auto intro!: svc_cancel_runs [OF _ match ok])
  next
    case CallShutdown
    with call svc_shutdown_runs [OF _ match] show ?thesis by auto
  next
    case CallStop
    with call obtain rep where "stop dbg tk iter w = Some (rep, w')" by auto
    from svc_stop_runs [OF this match ready iter] show ?thesis .
  qed
qed

text \<open>
  C19: The call-by-call model is part of the concurrent one. Whatever a sequence of
  uninterrupted calls of the blocking service (submissions of every kind, workers, dropped
  guards, cancellations, shutdowns, stops) reaches, some run of its interleaved threads
  reaches too, with the same lifecycle, counters, tracked keys, notifications, registrations
  and trackers; so what holds of every interleaving holds of it.
\<close>
theorem calls_are_runs:
  assumes "calls_reach dbg tk iter capacity w" and "iterates iter"
  shows "\<exists>s. creach dbg capacity s \<and> matches w s"
  using assms(1)
proof (induction rule: calls_reach.induct)
  case (calls_new x)
  have "matches (with_task_capacity capacity x) (cinit capacity)"
    by (simp add: matches_def with_task_capacity_def cinit_def tasks_match_def
        state_with_task_capacity_def erase_def)
  then show ?case using creach_init by blast
next
  case (calls_step w c w')
  then obtain s where s: "creach dbg capacity s" "matches w s" by blast
  have "ready w" using calls_reach_ready [OF calls_step(1) assms(2)] by blast
  from exec_call_runs [OF calls_step(3,2) this s(2) assms(2)] s(1) creach_run show ?case by blast
qed

theorem calls_are_runs_witness:
  "\<exists>s. creach True 2 s \<and> matches demo_queued s \<and> queued (task_counts (svc s)) = 1"
proof -
  obtain s where "creach True 2 s" "matches demo_queued s"
    using calls_are_runs [OF demo_queued_reach iterates_sorted_iter] by blast
  moreover from this have "queued (task_counts (svc s)) = 1"
    by (auto simp: matches_def demo_queued_eq(2))
  ultimately show ?thesis by blast
qed

end
