(* ===== verification/Blocking_Handle.thy ===== *)
theory Blocking_Handle
  imports Blocking_Calls
begin

text \<open>
  \<^verbatim>\<open>src/tokio_blocking_task_handle.rs\<close>: the tracked handle of a blocking task and its
  detached cancellation endpoint. The wrapped \<^verbatim>\<open>TrackedTask\<close> and the endpoint it hands
  out are code of \<^verbatim>\<open>qubit_executor\<close>: their operations are the record \<open>tracked_ops\<close>.
  The callback \<^verbatim>\<open>cancel_queued_task\<close> is the one \<^verbatim>\<open>try_submit_tracked_callable\<close> installs,
  named by the tracker it captures.
\<close>

section \<open>The operations of the wrapped task\<close>

text \<open>The variants of \<^verbatim>\<open>qubit_executor::CancelResult\<close> that the crate names.\<close>

datatype CancelResult = Cancelled | AlreadyRunning | AlreadyFinished

datatype ('h, 'a) TryGet = TryReady 'a | TryPending 'h

text \<open>
  \<open>tt_get\<close> blocks until a result is available; \<open>None\<close> is a call that never returns.
\<close>

record ('r, 'a, 's, 'x) tracked_ops =
  tt_cancel :: "'r \<Rightarrow> 'x \<Rightarrow> CancelResult \<times> 'x"
  tt_is_done :: "'r \<Rightarrow> 'x \<Rightarrow> bool"
  tt_status :: "'r \<Rightarrow> 'x \<Rightarrow> 's"
  tt_get :: "'r \<Rightarrow> 'x \<Rightarrow> ('a \<times> 'x) option"
  tt_try_get :: "'r \<Rightarrow> 'x \<Rightarrow> ('r, 'a) TryGet \<times> 'x"
  tt_cancellation_handle :: "'r \<Rightarrow> 'r"
  tch_cancel :: "'r \<Rightarrow> 'x \<Rightarrow> CancelResult \<times> 'x"
  tt_into_future :: "'r \<Rightarrow> 'r"

section \<open>Cancellation\<close>

text \<open>
  \<open>cancel_blocking_task\<close> takes the cancellation attempt as a closure, as the source does:
  the callback comes before the abort request, and both only for the winner. The request is
  an action on the service too: as soon as it is made, Tokio may drop the closure, and another
  thread may do anything to the service.
\<close>

definition cancel_blocking_task ::
  "(('r, 'x) service \<Rightarrow> CancelResult \<times> ('r, 'x) service)
   \<Rightarrow> (('r, 'x) service \<Rightarrow> ('r, 'x) service option) \<Rightarrow> (('r, 'x) service \<Rightarrow> ('r, 'x) service option)
   \<Rightarrow> ('r, 'x) service \<Rightarrow> (CancelResult \<times> ('r, 'x) service) option" where
  "cancel_blocking_task attempt queued_callback abort w =
     (let (result, w) = attempt w
      in if result = Cancelled then do {
           w \<leftarrow> queued_callback w;
           w \<leftarrow> abort w;
           Some (result, w)
         } else Some (result, w))"

text \<open>
  The request through \<open>abort_handle\<close>, with what happens at once as \<open>react\<close>; nothing does when
  the call is taken alone.
\<close>

definition request_abort ::
  "('r, 't, 'x) tokio_ops \<Rightarrow> (('r, 'x) service \<Rightarrow> ('r, 'x) service option) \<Rightarrow> 'r
   \<Rightarrow> ('r, 'x) service \<Rightarrow> ('r, 'x) service option" where
  "request_abort tk react abort_handle w = react (w\<lparr>outside := abort_request tk abort_handle (outside w)\<rparr>)"

definition blocking_handle_new :: "'r \<Rightarrow> 'r \<Rightarrow> usize \<Rightarrow> 'r TokioBlockingTaskHandle" where
  "blocking_handle_new h abort_handle queued_task =
     \<lparr>tracked_task = h, blocking_abort_handle = abort_handle, cancel_queued_task = queued_task\<rparr>"

definition blocking_cancel_under ::
  "bool \<Rightarrow> ('r, 't, 'x) tokio_ops \<Rightarrow> ('r, 'a, 's, 'x) tracked_ops
   \<Rightarrow> (('r, 'x) service \<Rightarrow> ('r, 'x) service option) \<Rightarrow> 'r TokioBlockingTaskHandle
   \<Rightarrow> ('r, 'x) service \<Rightarrow> (CancelResult \<times> ('r, 'x) service) option" where
  "blocking_cancel_under dbg tk tt react self w =
     cancel_blocking_task (on_outside (tt_cancel tt (tracked_task self)))
       (cancel_queued_callback dbg (cancel_queued_task self))
       (request_abort tk react (blocking_abort_handle self)) w"

definition blocking_cancel ::
  "bool \<Rightarrow> ('r, 't, 'x) tokio_ops \<Rightarrow> ('r, 'a, 's, 'x) tracked_ops \<Rightarrow> 'r TokioBlockingTaskHandle
   \<Rightarrow> ('r, 'x) service \<Rightarrow> (CancelResult \<times> ('r, 'x) service) option" where
  "blocking_cancel dbg tk tt self w = blocking_cancel_under dbg tk tt Some self w"

text \<open>
  The endpoint: the wrapped endpoint, a clone of the callback and a clone of the abort
  handle, captured by the closure given to \<^verbatim>\<open>TaskCancellationHandle::new\<close>; cancelling
  through it calls that closure.
\<close>

record 'r BlockingCancellation =
  cancellation :: 'r
  cancellation_queued_task :: usize
  cancellation_abort_handle :: 'r

definition cancellation_handle ::
  "('r, 'a, 's, 'x) tracked_ops \<Rightarrow> 'r TokioBlockingTaskHandle \<Rightarrow> 'r BlockingCancellation" where
  "cancellation_handle tt self =
     \<lparr>cancellation = tt_cancellation_handle tt (tracked_task self),
      cancellation_queued_task = cancel_queued_task self,
      cancellation_abort_handle = blocking_abort_handle self\<rparr>"

definition cancellation_cancel ::
  "bool \<Rightarrow> ('r, 't, 'x) tokio_ops \<Rightarrow> ('r, 'a, 's, 'x) tracked_ops \<Rightarrow> 'r BlockingCancellation
   \<Rightarrow> ('r, 'x) service \<Rightarrow> (CancelResult \<times> ('r, 'x) service) option" where
  "cancellation_cancel dbg tk tt c w =
     cancel_blocking_task (on_outside (tch_cancel tt (cancellation c)))
       (cancel_queued_callback dbg (cancellation_queued_task c))
       (request_abort tk Some (cancellation_abort_handle c)) w"

section \<open>Observation\<close>

definition blocking_is_done ::
  "('r, 'a, 's, 'x) tracked_ops \<Rightarrow> 'r TokioBlockingTaskHandle \<Rightarrow> ('r, 'x) service \<Rightarrow> bool" where
  "blocking_is_done tt self w = tt_is_done tt (tracked_task self) (outside w)"

definition blocking_status ::
  "('r, 'a, 's, 'x) tracked_ops \<Rightarrow> 'r TokioBlockingTaskHandle \<Rightarrow> ('r, 'x) service \<Rightarrow> 's" where
  "blocking_status tt self w = tt_status tt (tracked_task self) (outside w)"

definition blocking_get ::
  "('r, 'a, 's, 'x) tracked_ops \<Rightarrow> 'r TokioBlockingTaskHandle \<Rightarrow> ('r, 'x) service
   \<Rightarrow> ('a \<times> ('r, 'x) service) option" where
  "blocking_get tt self w =
     map_option (\<lambda>(a, x). (a, w\<lparr>outside := x\<rparr>)) (tt_get tt (tracked_task self) (outside w))"

definition blocking_try_get ::
  "('r, 'a, 's, 'x) tracked_ops \<Rightarrow> 'r TokioBlockingTaskHandle \<Rightarrow> ('r, 'x) service
   \<Rightarrow> ('r TokioBlockingTaskHandle, 'a) TryGet \<times> ('r, 'x) service" where
  "blocking_try_get tt self w =
     (let (got, w) = on_outside (tt_try_get tt (tracked_task self)) w
      in (case got of
            TryReady result \<Rightarrow> TryReady result
          | TryPending h \<Rightarrow> TryPending
              \<lparr>tracked_task = h, blocking_abort_handle = blocking_abort_handle self,
               cancel_queued_task = cancel_queued_task self\<rparr>, w))"

definition blocking_into_future ::
  "('r, 'a, 's, 'x) tracked_ops \<Rightarrow> 'r TokioBlockingTaskHandle \<Rightarrow> 'r" where
  "blocking_into_future tt self = tt_into_future tt (tracked_task self)"

section \<open>The inherent methods and the traits\<close>

text \<open>
  The inherent methods forward to \<^verbatim>\<open>TaskResultHandle\<close>, so that a caller need not import the
  trait; the traits' cancellation forwards to the inherent methods, and so keeps the queue
  cleanup.
\<close>

definition handle_get ::
  "('r, 'a, 's, 'x) tracked_ops \<Rightarrow> 'r TokioBlockingTaskHandle \<Rightarrow> ('r, 'x) service
   \<Rightarrow> ('a \<times> ('r, 'x) service) option" where
  "handle_get tt self w = blocking_get tt self w"

definition handle_try_get ::
  "('r, 'a, 's, 'x) tracked_ops \<Rightarrow> 'r TokioBlockingTaskHandle \<Rightarrow> ('r, 'x) service
   \<Rightarrow> ('r TokioBlockingTaskHandle, 'a) TryGet \<times> ('r, 'x) service" where
  "handle_try_get tt self w = blocking_try_get tt self w"

definition handle_is_done ::
  "('r, 'a, 's, 'x) tracked_ops \<Rightarrow> 'r TokioBlockingTaskHandle \<Rightarrow> ('r, 'x) service \<Rightarrow> bool" where
  "handle_is_done tt self w = blocking_is_done tt self w"

definition tracked_status ::
  "('r, 'a, 's, 'x) tracked_ops \<Rightarrow> 'r TokioBlockingTaskHandle \<Rightarrow> ('r, 'x) service \<Rightarrow> 's" where
  "tracked_status tt self w = tt_status tt (tracked_task self) (outside w)"

definition tracked_cancel ::
  "bool \<Rightarrow> ('r, 't, 'x) tokio_ops \<Rightarrow> ('r, 'a, 's, 'x) tracked_ops \<Rightarrow> 'r TokioBlockingTaskHandle
   \<Rightarrow> ('r, 'x) service \<Rightarrow> (CancelResult \<times> ('r, 'x) service) option" where
  "tracked_cancel dbg tk tt self w = blocking_cancel dbg tk tt self w"

definition cancellable_handle ::
  "('r, 'a, 's, 'x) tracked_ops \<Rightarrow> 'r TokioBlockingTaskHandle \<Rightarrow> 'r BlockingCancellation" where
  "cancellable_handle tt self = cancellation_handle tt self"

section \<open>Cancelling at most once\<close>

lemma ready_outside: "ready w \<Longrightarrow> ready (w\<lparr>outside := x\<rparr>)"
  by (simp add: ready_def service_inv_frame [of w])

lemma cancel_blocking_lost:
  assumes "f (outside w) = (result, x)" and "result \<noteq> Cancelled"
  shows "cancel_blocking_task (on_outside f) callback abort w = Some (result, w\<lparr>outside := x\<rparr>)"
  using assms by (simp add: cancel_blocking_task_def on_outside_def)

lemma cancel_blocking_won:
  assumes "ready w" and "trackers w k = Some t" and "f (outside w) = (Cancelled, x)"
  obtains v where "\<forall>react.
      cancel_blocking_task (on_outside f) (cancel_queued_callback dbg k) (request_abort tk react a) w =
        map_option (Pair Cancelled) (react v)"
    "ready v" "outside v = abort_request tk a x"
    "trackers v = (trackers w)(k \<mapsto> t\<lparr>task_state :=
       if task_state t = TASK_STATE_QUEUED then TASK_STATE_FINISHED else task_state t\<rparr>)"
    "abort_handles (state v) = (abort_handles (state w))(k := None)"
    "lifecycle_byte (state v) = lifecycle_byte (state w)"
    "task_capacity (state v) = task_capacity (state w)"
proof -
  let ?w = "w\<lparr>outside := x\<rparr>"
  have "ready ?w" "trackers ?w k = Some t" using assms(1,2) by (simp_all add: ready_outside)
  from cancel_queued_ready [OF this, of dbg] obtain u where u:
    "tracker_cancel_queued dbg k ?w = Some (task_state t = TASK_STATE_QUEUED, u)" "ready u"
    "trackers u = (trackers w)(k \<mapsto> t\<lparr>task_state :=
       if task_state t = TASK_STATE_QUEUED then TASK_STATE_FINISHED else task_state t\<rparr>)"
    "abort_handles (state u) = (abort_handles (state w))(k := None)"
    "lifecycle_byte (state u) = lifecycle_byte (state w)"
    "task_capacity (state u) = task_capacity (state w)" "outside u = x" by auto
  let ?v = "u\<lparr>outside := abort_request tk a x\<rparr>"
  have "cancel_blocking_task (on_outside f) (cancel_queued_callback dbg k) (request_abort tk react a) w =
      map_option (Pair Cancelled) (react ?v)" for react
    using assms(3) u(1,7)
    by (cases "react ?v") (simp_all add: cancel_blocking_task_def request_abort_def on_outside_def cancel_queued_callback_def)
  then have "\<forall>react. cancel_blocking_task (on_outside f) (cancel_queued_callback dbg k) (request_abort tk react a) w =
      map_option (Pair Cancelled) (react ?v)" by blast
  then show ?thesis by (rule that) (use u ready_outside [OF u(2)] in simp_all)
qed

text \<open>
  The wrapped endpoint acts on the same task state as the handle it came from, and a task
  whose cancellation has won is not cancelled again: the documented behaviour of
  \<^verbatim>\<open>TrackedTask\<close>.
\<close>

definition shared_cancellation :: "('r, 'a, 's, 'x) tracked_ops \<Rightarrow> 'r \<Rightarrow> bool" where
  "shared_cancellation tt h \<longleftrightarrow>
     (\<forall>x. tch_cancel tt (tt_cancellation_handle tt h) x = tt_cancel tt h x)"

lemma cancellation_is_cancel:
  "shared_cancellation tt (tracked_task h) \<Longrightarrow>
   cancellation_cancel dbg tk tt (cancellation_handle tt h) w = blocking_cancel dbg tk tt h w"
  by (simp add: cancellation_cancel_def cancellation_handle_def blocking_cancel_def
      blocking_cancel_under_def shared_cancellation_def on_outside_def cancel_blocking_task_def)

lemma try_get_pending:
  assumes "tt_try_get tt (tracked_task h) (outside w) = (TryPending (tracked_task h), x)"
  shows "blocking_try_get tt h w = (TryPending h, w\<lparr>outside := x\<rparr>)"
  using assms by (simp add: blocking_try_get_def on_outside_def)

text \<open>A tracked submission whose task has been dequeued.\<close>

lemma tracked_then_finished:
  assumes "ready w" and "registrations w addr = None" and "accepted_outcome addr w v"
    and "trackers v addr = Some t" and "ready u"
    and "trackers u = (trackers v)(addr \<mapsto> t\<lparr>task_state := TASK_STATE_FINISHED\<rparr>)"
    and "abort_handles (state u) = (abort_handles (state v))(addr := None)"
    and "lifecycle_byte (state u) = lifecycle_byte (state v)"
  shows "task_counts (state u) = task_counts (state w)"
    "abort_handles (state u) = abort_handles (state w)"
    "lifecycle_byte (state u) = lifecycle_byte (state w)"
proof -
  have "trackers u = (trackers w)(addr \<mapsto> t\<lparr>task_state := TASK_STATE_FINISHED\<rparr>)"
    using assms(3,6) by (auto simp: accepted_outcome_def fun_eq_iff)
  then show "task_counts (state u) = task_counts (state w)"
    by (rule finished_task_uncounted [OF assms(1,2,5)]) simp
  show "abort_handles (state u) = abort_handles (state w)"
    using assms(3,7) fresh_untracked [OF ready_inv(1) [OF assms(1)] assms(2)]
    by (auto simp: accepted_outcome_def fun_eq_iff)
  show "lifecycle_byte (state u) = lifecycle_byte (state w)"
    using assms(3,8) by (simp add: accepted_outcome_def)
qed

section \<open>A concrete task endpoint for the witnesses\<close>

text \<open>
  Numbers as before; the log entry 600 plus the task records a cancellation, and a task with
  such an entry is finished for every later attempt.
\<close>

definition demo_tracked :: "(nat, nat, bool, nat list) tracked_ops" where
  "demo_tracked =
     \<lparr>tt_cancel = (\<lambda>r x. if (600 + r) \<in> set x then (AlreadyFinished, x) else (Cancelled, (600 + r) # x)),
      tt_is_done = (\<lambda>r x. (600 + r) \<in> set x), tt_status = (\<lambda>r x. (600 + r) \<in> set x),
      tt_get = (\<lambda>r x. None), tt_try_get = (\<lambda>r x. (TryPending r, x)),
      tt_cancellation_handle = (\<lambda>r. r),
      tch_cancel = (\<lambda>r x. if (600 + r) \<in> set x then (AlreadyFinished, x) else (Cancelled, (600 + r) # x)),
      tt_into_future = (\<lambda>r. r)\<rparr>"

lemma demo_tracked_shared: "shared_cancellation demo_tracked h"
  by (simp add: shared_cancellation_def demo_tracked_def)

section \<open>Properties\<close>

text \<open>
  C36: Cancelling a tracked task through its handle. In a ready service the handle's
  \<^verbatim>\<open>cancel\<close> returns the outcome of the task's own cancellation. When that won, the abort is
  requested once, and last: whatever happens in answer to it happens to a service in which the
  task, if it was still queued, is finished and has left the queued count, a task that was
  not queued is as it was, and no abort handle of it is tracked. When it lost, nothing but the
  task's own state has been touched, and no abort is requested.
\<close>
theorem handle_cancel_dequeues_once:
  assumes "ready w" and "trackers w (cancel_queued_task h) = Some t"
    and "tt_cancel tt (tracked_task h) (outside w) = (result, x)"
  shows "if result = Cancelled
     then \<exists>v. ready v \<and> outside v = abort_request tk (blocking_abort_handle h) x \<and>
       trackers v (cancel_queued_task h) = Some (t\<lparr>task_state :=
         if task_state t = TASK_STATE_QUEUED then TASK_STATE_FINISHED else task_state t\<rparr>) \<and>
       abort_handles (state v) = (abort_handles (state w))(cancel_queued_task h := None) \<and>
       phase_count TASK_STATE_QUEUED v + of_bool (task_state t = TASK_STATE_QUEUED)
         = phase_count TASK_STATE_QUEUED w \<and>
       phase_count TASK_STATE_RUNNING v = phase_count TASK_STATE_RUNNING w \<and>
       blocking_cancel dbg tk tt h w = Some (Cancelled, v) \<and>
       (\<forall>react. blocking_cancel_under dbg tk tt react h w = map_option (Pair Cancelled) (react v))
     else \<forall>react. blocking_cancel_under dbg tk tt react h w = Some (result, w\<lparr>outside := x\<rparr>)"
proof (cases "result = Cancelled")
  case False
  from cancel_blocking_lost [where f = "tt_cancel tt (tracked_task h)", OF assms(3) False]
  show ?thesis using False by (simp add: blocking_cancel_under_def)
next
  case True
  let ?k = "cancel_queued_task h"
  let ?st = "if task_state t = TASK_STATE_QUEUED then TASK_STATE_FINISHED else task_state t"
  obtain v where v: "\<forall>react. blocking_cancel_under dbg tk tt react h w = map_option (Pair Cancelled) (react v)" "ready v"
    "outside v = abort_request tk (blocking_abort_handle h) x"
    "trackers v = (trackers w)(?k \<mapsto> t\<lparr>task_state := ?st\<rparr>)"
    "abort_handles (state v) = (abort_handles (state w))(?k := None)"
    unfolding blocking_cancel_under_def
    by (rule cancel_blocking_won [where f = "tt_cancel tt (tracked_task h)",
        OF assms(1,2) assms(3) [unfolded True], of dbg tk "blocking_abort_handle h"])
  note count = phase_count_eq [OF service_invD(1) [OF ready_inv(1) [OF assms(1)]] assms(2) v(4)]
  have "phase_count TASK_STATE_QUEUED v + of_bool (task_state t = TASK_STATE_QUEUED)
      = phase_count TASK_STATE_QUEUED w" "phase_count TASK_STATE_RUNNING v = phase_count TASK_STATE_RUNNING w"
    using count [of TASK_STATE_QUEUED] count [of TASK_STATE_RUNNING]
    by (auto split: if_splits)
  then show ?thesis using True v by (auto simp: blocking_cancel_def intro!: exI [of _ v])
qed

theorem handle_cancel_dequeues_once_witness:
  "\<exists>v. outside v = [303, 604] \<and> phase_count TASK_STATE_QUEUED v = 0 \<and>
     (\<forall>react. blocking_cancel_under True demo_ops demo_tracked react (blocking_handle_new 4 3 16) demo_queued
        = map_option (Pair Cancelled) (react v))"
proof -
  let ?h = "blocking_handle_new 4 3 16 :: nat TokioBlockingTaskHandle"
  have h: "cancel_queued_task ?h = 16" "tracked_task ?h = 4" "blocking_abort_handle ?h = 3"
    by (simp_all add: blocking_handle_new_def)
  have "tt_cancel demo_tracked (tracked_task ?h) (outside demo_queued) = (Cancelled, [604])"
    by (simp add: demo_tracked_def demo_queued_eq(2) h)
  moreover have "trackers demo_queued (cancel_queued_task ?h) = Some \<lparr>marker = 16, task_state = TASK_STATE_QUEUED\<rparr>"
    using demo_queued_tracker by (simp add: h)
  ultimately obtain v where v: "outside v = abort_request demo_ops (blocking_abort_handle ?h) [604]"
    "phase_count TASK_STATE_QUEUED v + 1 = phase_count TASK_STATE_QUEUED demo_queued"
    "\<forall>react. blocking_cancel_under True demo_ops demo_tracked react ?h demo_queued = map_option (Pair Cancelled) (react v)"
    using handle_cancel_dequeues_once [OF demo_queued_ready, of ?h _ demo_tracked Cancelled "[604]" demo_ops True] by auto
  moreover have "phase_count TASK_STATE_QUEUED demo_queued = 1"
    using ready_counts(1) [OF demo_queued_ready] by (simp add: demo_queued_eq(2))
  ultimately show ?thesis by (intro exI [of _ v]) (simp add: h demo_ops_def)
qed

text \<open>
  C37: Submit and cancel is a round trip, whichever endpoint cancels. When the detached
  cancellation endpoint of an accepted tracked callable wins, the counters, the tracked
  abort handles and the lifecycle are back to what they were before the submission, and a
  worker that still receives the payload drops it unrun and changes none of them.
\<close>
theorem cancelled_submission_returns_capacity:
  assumes "ready w" and "admission_error w = None" and "registrations w addr = None"
    and "try_submit_tracked_callable dbg tk addr task w = Some (Inr h, v)"
    and "shared_cancellation tt (tracked_task h)"
    and "cancellation_cancel dbg tk tt (cancellation_handle tt h) v = Some (Cancelled, u)"
  shows "(task_counts (state u), abort_handles (state u), lifecycle_byte (state u))
      = (task_counts (state w), abort_handles (state w), lifecycle_byte (state w)) \<and>
    (\<exists>z. run_received dbg tk payload addr u = Some z \<and>
      outside z = closure_drop tk payload (outside u) \<and>
      (task_counts (state z), abort_handles (state z), lifecycle_byte (state z))
        = (task_counts (state w), abort_handles (state w), lifecycle_byte (state w)))"
proof -
  obtain h' v' where "try_submit_tracked_callable dbg tk addr task w = Some (Inr h', v')"
    "accepted_outcome addr w v'" "cancel_queued_task h' = addr"
    by (rule try_submit_tracked_accepts [OF assms(1-3)])
  with assms(4) have v: "accepted_outcome addr w v" "cancel_queued_task h = addr" by simp_all
  then obtain t where t: "trackers v addr = Some t" "task_state t \<noteq> TASK_STATE_RUNNING"
    unfolding accepted_outcome_def by fastforce
  obtain x where x: "tt_cancel tt (tracked_task h) (outside v) = (Cancelled, x)"
    using assms(6) unfolding cancellation_is_cancel [OF assms(5)] blocking_cancel_def
    by (cases "tt_cancel tt (tracked_task h) (outside v)")
      (auto simp: blocking_cancel_under_def cancel_blocking_task_def on_outside_def split: if_splits)
  obtain u' where "\<forall>react. blocking_cancel_under dbg tk tt react h v = map_option (Pair Cancelled) (react u')" "ready u'"
    "trackers u' = (trackers v)(addr \<mapsto> t\<lparr>task_state :=
       if task_state t = TASK_STATE_QUEUED then TASK_STATE_FINISHED else task_state t\<rparr>)"
    "abort_handles (state u') = (abort_handles (state v))(addr := None)"
    "lifecycle_byte (state u') = lifecycle_byte (state v)"
    unfolding blocking_cancel_under_def v(2)
    by (rule cancel_blocking_won [where f = "tt_cancel tt (tracked_task h)",
        OF accepted_ready [OF v(1)] t(1) x, of dbg tk "blocking_abort_handle h"])
  moreover have "task_state t = TASK_STATE_QUEUED \<or> task_state t = TASK_STATE_FINISHED"
    using v(1) t(1) by (auto simp: accepted_outcome_def)
  ultimately have u: "ready u" "trackers u = (trackers v)(addr \<mapsto> t\<lparr>task_state := TASK_STATE_FINISHED\<rparr>)"
    "abort_handles (state u) = (abort_handles (state v))(addr := None)"
    "lifecycle_byte (state u) = lifecycle_byte (state v)"
    using assms(6) unfolding cancellation_is_cancel [OF assms(5)] blocking_cancel_def by auto
  obtain z where z: "run_received dbg tk payload addr u = Some z" "ready z"
    "trackers z = trackers u" "abort_handles (state z) = (abort_handles (state u))(addr := None)"
    "lifecycle_byte (state z) = lifecycle_byte (state u)"
    "outside z = closure_drop tk payload (outside u)"
    using run_received_spec [OF u(1), of addr "t\<lparr>task_state := TASK_STATE_FINISHED\<rparr>" dbg tk payload] u(2)
    by auto
  note restored = tracked_then_finished [OF assms(1,3) v(1) t(1)]
  have "trackers z = (trackers v)(addr \<mapsto> t\<lparr>task_state := TASK_STATE_FINISHED\<rparr>)"
    "abort_handles (state z) = (abort_handles (state v))(addr := None)"
    "lifecycle_byte (state z) = lifecycle_byte (state v)" using z u by simp_all
  from restored [OF z(2) this] restored [OF u] z(1,6) show ?thesis by simp
qed

theorem cancelled_submission_returns_capacity_witness:
  "\<exists>h v u. try_submit_tracked_callable True demo_ops 16 42 demo_new = Some (Inr h, v) \<and>
     cancellation_cancel True demo_ops demo_tracked (cancellation_handle demo_tracked h) v
       = Some (Cancelled, u) \<and> task_counts (state u) = task_counts (state demo_new)"
proof -
  obtain h v where v: "try_submit_tracked_callable True demo_ops 16 42 demo_new = Some (Inr h, v)"
    "accepted_outcome 16 demo_new v" "cancel_queued_task h = 16"
    by (rule try_submit_tracked_accepts [OF demo_new_ready demo_new_admits])
  have "outside v = []" "tracked_task h = 4"
    using v(1) by (auto simp: try_submit_tracked_callable_def prepare_blocking_submission_def demo_new_def
        with_task_capacity_def state_with_task_capacity_def lock_submission_def is_not_running_def
        try_accept_task_def unfinished_def counts_default_def saturating_add_def accept_task_def
        add_assign_def guard_new_def registration_new_def on_outside_def demo_ops_def share_task_slot_def
        spawn_accepted_blocking_task_def register_abort_handle_def is_finished_def key_def
        map_state_def unlock_submission_def deliver_payload_def)
  then have x: "tt_cancel demo_tracked (tracked_task h) (outside v) = (Cancelled, [604])"
    by (simp add: demo_tracked_def)
  obtain t where t: "trackers v 16 = Some t" using v(2) unfolding accepted_outcome_def by blast
  obtain u where "\<forall>react. blocking_cancel_under True demo_ops demo_tracked react h v = map_option (Pair Cancelled) (react u)"
    unfolding blocking_cancel_under_def v(3)
    by (rule cancel_blocking_won [where f = "tt_cancel demo_tracked (tracked_task h)",
        OF accepted_ready [OF v(2)] t x, of True demo_ops "blocking_abort_handle h"])
  then have u: "cancellation_cancel True demo_ops demo_tracked (cancellation_handle demo_tracked h) v
      = Some (Cancelled, u)"
    unfolding cancellation_is_cancel [OF demo_tracked_shared] blocking_cancel_def by simp
  from cancelled_submission_returns_capacity [OF demo_new_ready demo_new_admits v(1) demo_tracked_shared u]
    v(1) u show ?thesis by blast
qed

end
