(* ===== verification/Wait_Timeout.thy ===== *)
theory Wait_Timeout
  imports Blocking_State
begin

text \<open>
  \<^verbatim>\<open>wait_termination_timeout\<close> of \<^verbatim>\<open>src/tokio_executor_service_state.rs\<close>: the blocking wait
  with a total timeout, as a loop over bounded waits of the monitor.

  The calling thread runs against a world that other threads and the clock change between its
  steps: \<open>view p\<close> is the state of the service and \<open>clock p\<close> the time in nanoseconds at
  point \<open>p\<close> of the execution, and every access the thread makes takes it from its point to
  a later one. A \<^verbatim>\<open>Duration\<close> is a number of nanoseconds.
\<close>

section \<open>The world of the waiting thread\<close>

text \<open>
  \<open>after p\<close> is the point the thread has reached once an access at \<open>p\<close> is done.
  \<open>monitor_wait d p\<close> is \<^verbatim>\<open>wait_until_ready_with_total_timeout\<close> of the monitor (code of
  another crate) with timeout \<open>d\<close> and the predicate \<^verbatim>\<open>is_not_running() && is_empty()\<close>.
\<close>

datatype wait_outcome = WaitReady | WaitTimedOut | WaitError

record ('h, 'c) waiting_world =
  view :: "nat \<Rightarrow> ('h, 'c) TokioExecutorServiceState"
  clock :: "nat \<Rightarrow> nat"
  after :: "nat \<Rightarrow> nat"
  monitor_wait :: "nat \<Rightarrow> nat \<Rightarrow> wait_outcome \<times> nat"

definition read_at ::
  "('h, 'c) waiting_world \<Rightarrow> (('h, 'c) TokioExecutorServiceState \<Rightarrow> 'a) \<Rightarrow> nat \<Rightarrow> 'a \<times> nat" where
  "read_at env f p = (f (view env p), after env p)"

definition elapsed :: "('h, 'c) waiting_world \<Rightarrow> nat \<Rightarrow> nat \<Rightarrow> nat \<times> nat" where
  "elapsed env started p = (clock env p - started, after env p)"

text \<open>\<^verbatim>\<open>self.is_not_running() && self.task_counts.with_read(is_empty)\<close>, short-circuit included.\<close>

definition terminated_at :: "('h, 'c) waiting_world \<Rightarrow> nat \<Rightarrow> bool \<times> nat" where
  "terminated_at env p =
     (let (closed, p) = read_at env is_not_running p
      in if closed then read_at env (\<lambda>s. is_empty (task_counts s)) p else (False, p))"

section \<open>The loop\<close>

definition CHUNK :: nat where "CHUNK = 3600 * 10 ^ 9"

text \<open>A wait that never returns is the value \<open>None\<close>.\<close>

partial_function (option) wait_loop ::
  "('h, 'c) waiting_world \<Rightarrow> nat \<Rightarrow> nat \<Rightarrow> nat \<Rightarrow> (bool \<times> nat) option" where
  "wait_loop env timeout started p =
     (let (done_now, p) = terminated_at env p
      in if done_now then Some (True, p)
         else let (passed, p) = elapsed env started p;
                  remaining = timeout - passed
              in if remaining = 0 then Some (False, p)
                 else (case monitor_wait env (min remaining CHUNK) p of
                         (WaitReady, p) \<Rightarrow> Some (True, p)
                       | (WaitTimedOut, p) \<Rightarrow> wait_loop env timeout started p
                       | (WaitError, p) \<Rightarrow> Some (terminated_at env p)))"

definition wait_termination_timeout ::
  "('h, 'c) waiting_world \<Rightarrow> nat \<Rightarrow> nat \<Rightarrow> (bool \<times> nat) option" where
  "wait_termination_timeout env timeout p = wait_loop env timeout (clock env p) (after env p)"

text \<open>The service forwards to its state.\<close>

definition service_wait_termination_timeout ::
  "('h, 'c) waiting_world \<Rightarrow> nat \<Rightarrow> nat \<Rightarrow> (bool \<times> nat) option" where
  "service_wait_termination_timeout env timeout p = wait_termination_timeout env timeout p"

section \<open>What the wait relies on\<close>

text \<open>
  Time and the execution go forward. A bounded wait of the monitor returns ready only at a
  point where it has found the predicate true, and times out only after its full duration.
\<close>

definition wait_contract :: "('h, 'c) waiting_world \<Rightarrow> bool" where
  "wait_contract env \<longleftrightarrow>
     mono (clock env) \<and> (\<forall>p. p \<le> after env p) \<and>
     (\<forall>d p r q. monitor_wait env d p = (r, q) \<longrightarrow> p \<le> q \<and>
        (r = WaitReady \<longrightarrow> (\<exists>a b. p \<le> a \<and> a \<le> b \<and> b \<le> q \<and>
           is_not_running (view env a) \<and> is_empty (task_counts (view env b)))) \<and>
        (r = WaitTimedOut \<longrightarrow> clock env p + d \<le> clock env q))"

text \<open>A point of the execution between two others at which the service was seen terminated.\<close>

definition seen_terminated :: "('h, 'c) waiting_world \<Rightarrow> nat \<Rightarrow> nat \<Rightarrow> bool" where
  "seen_terminated env p q \<longleftrightarrow> (\<exists>a b. p \<le> a \<and> a \<le> b \<and> b \<le> q \<and>
     is_not_running (view env a) \<and> is_empty (task_counts (view env b)))"

lemma wait_contractD:
  assumes "wait_contract env"
  shows "mono (clock env)" "p \<le> after env p"
    "monitor_wait env d p = (r, q) \<Longrightarrow> p \<le> q"
    "monitor_wait env d p = (WaitReady, q) \<Longrightarrow> seen_terminated env p q"
    "monitor_wait env d p = (WaitTimedOut, q) \<Longrightarrow> clock env p + d \<le> clock env q"
  using assms unfolding wait_contract_def seen_terminated_def by blast+

lemma seen_terminated_mono:
  "seen_terminated env p q \<Longrightarrow> p' \<le> p \<Longrightarrow> q \<le> q' \<Longrightarrow> seen_terminated env p' q'"
  unfolding seen_terminated_def by (meson order_trans)

lemma terminated_at_spec:
  assumes "wait_contract env" and "terminated_at env p = (t, q)"
  shows "p \<le> q" "t \<Longrightarrow> seen_terminated env p q"
proof -
  note le = wait_contractD(2) [OF assms(1)]
  have "p \<le> q \<and> (t \<longrightarrow> seen_terminated env p q)"
  proof (cases "is_not_running (view env p)")
    case False
    with assms(2) le show ?thesis by (auto simp: terminated_at_def read_at_def)
  next
    case True
    with assms(2) have q: "q = after env (after env p)" "t = is_empty (task_counts (view env (after env p)))"
      by (auto simp: terminated_at_def read_at_def)
    moreover have "p \<le> after env p" "after env p \<le> q" using le q(1) by auto
    ultimately show ?thesis using True unfolding seen_terminated_def
      by (meson order_refl order_trans)
  qed
  then show "p \<le> q" "t \<Longrightarrow> seen_terminated env p q" by simp_all
qed

section \<open>One turn of the loop\<close>

text \<open>
  \<open>justified\<close>: a positive answer has seen the service terminated, a negative one has waited
  for the whole timeout (or the monitor has reported an error).
\<close>

definition justified :: "('h, 'c) waiting_world \<Rightarrow> nat \<Rightarrow> nat \<Rightarrow> nat \<Rightarrow> bool \<Rightarrow> nat \<Rightarrow> bool" where
  "justified env timeout started p b q \<longleftrightarrow> p \<le> q \<and>
     (if b then seen_terminated env p q
      else started + timeout \<le> clock env q \<or> (\<exists>d a e. d \<le> CHUNK \<and> monitor_wait env d a = (WaitError, e)))"

lemma justified_earlier:
  "justified env timeout started p b q \<Longrightarrow> p' \<le> p \<Longrightarrow> justified env timeout started p' b q"
  by (auto simp: justified_def elim: seen_terminated_mono)

text \<open>
  A turn returns a justified answer, or goes on from a point where a chunk of the timeout, or
  all that was left of it, has passed.
\<close>

lemma wait_loop_turn:
  assumes contract: "wait_contract env" and start: "started \<le> clock env p"
  obtains (return) b q where "wait_loop env timeout started p = Some (b, q)"
      "justified env timeout started p b q"
  | (again) q where "wait_loop env timeout started p = wait_loop env timeout started q" "p \<le> q"
      "clock env p < started + timeout" "min (clock env p + CHUNK) (started + timeout) \<le> clock env q"
proof -
  note clk = monoD [OF wait_contractD(1) [OF contract]]
  note le = wait_contractD(2) [OF contract]
  obtain t p1 where t: "terminated_at env p = (t, p1)" by (cases "terminated_at env p")
  note t1 = terminated_at_spec [OF contract t]
  let ?p2 = "after env p1" and ?rest = "timeout - (clock env p1 - started)"
  have start1: "started \<le> clock env p1" using clk [OF t1(1)] start by simp
  have p2: "p1 \<le> ?p2" by (rule le)
  show thesis
  proof (cases "t \<or> ?rest = 0")
    case True
    have "wait_loop env timeout started p = Some (t, if t then p1 else ?p2)"
      using True by (subst wait_loop.simps) (auto simp: t elapsed_def)
    then show thesis
      by (rule return) (use True t1 p2 start1 clk [OF p2] in \<open>auto simp: justified_def\<close>)
  next
    case False
    obtain r q where w: "monitor_wait env (min ?rest CHUNK) ?p2 = (r, q)"
      by (cases "monitor_wait env (min ?rest CHUNK) ?p2")
    have q: "?p2 \<le> q" by (rule wait_contractD(3) [OF contract w])
    then have pq: "p \<le> q" using t1(1) p2 by simp
    have unfold: "wait_loop env timeout started p =
        (case (r, q) of (WaitReady, p) \<Rightarrow> Some (True, p)
         | (WaitTimedOut, p) \<Rightarrow> wait_loop env timeout started p
         | (WaitError, p) \<Rightarrow> Some (terminated_at env p))"
      using False by (subst wait_loop.simps) (simp add: t elapsed_def w)
    show thesis
    proof (cases r)
      case WaitReady
      then have "seen_terminated env p q"
        using wait_contractD(4) [OF contract] w t1(1) p2 seen_terminated_mono
        by (metis order_refl order_trans)
      then show thesis using unfold WaitReady pq return [of True q] by (simp add: justified_def)
    next
      case WaitError
      obtain b e where e: "terminated_at env q = (b, e)" by (cases "terminated_at env q")
      note te = terminated_at_spec [OF contract e]
      have "justified env timeout started p b e"
        using te pq w WaitError seen_terminated_mono [OF te(2) pq order_refl]
        unfolding justified_def by (metis min.cobounded2 order_trans)
      then show thesis using unfold WaitError e return by simp
    next
      case WaitTimedOut
      then have "clock env ?p2 + min ?rest CHUNK \<le> clock env q"
        using wait_contractD(5) [OF contract] w by blast
      then have "min (clock env p + CHUNK) (started + timeout) \<le> clock env q"
        using clk [OF t1(1)] clk [OF p2] start1 by (auto simp: min_def split: if_splits)
      moreover have "clock env p < started + timeout" using False clk [OF t1(1)] start1 by auto
      ultimately show thesis using unfold WaitTimedOut pq again by simp
    qed
  qed
qed

section \<open>The loop returns\<close>

text \<open>Every turn that goes on uses up some of the time left, so the loop ends.\<close>

lemma wait_loop_returns:
  assumes "wait_contract env" and "started \<le> clock env p"
  shows "\<exists>b q. wait_loop env timeout started p = Some (b, q) \<and> justified env timeout started p b q"
  using assms(2)
proof (induction "started + timeout - clock env p" arbitrary: p rule: less_induct)
  case less
  show ?case
  proof (cases rule: wait_loop_turn [OF assms(1) less.prems, of timeout, case_names return again])
    case (return b q)
    then show ?thesis by blast
  next
    case (again q)
    have "clock env p < clock env q"
      using again(3,4) by (auto simp: CHUNK_def min_def split: if_splits)
    then have "started + timeout - clock env q < started + timeout - clock env p" "started \<le> clock env q"
      using again(3) less.prems by simp_all
    from less.hyps [OF this] again(1,2) show ?thesis
      by (metis justified_earlier)
  qed
qed

end
