(* ===== verification/Wait_Claims.thy ===== *)
theory Wait_Claims
  imports Wait_Timeout Interleaving_Claims
begin

text \<open>
  The wait with a timeout inside the interleaved service: it always returns, and its answer
  is right for the execution it waited in.
\<close>

section \<open>Executions\<close>

text \<open>
  An execution of the service: from a reachable state on, every point is a step away from
  the one before it, or equal to it when only the clock or the waiting thread has moved.
\<close>

definition execution :: "bool \<Rightarrow> usize \<Rightarrow> (nat \<Rightarrow> csys) \<Rightarrow> bool" where
  "execution dbg capacity \<sigma> \<longleftrightarrow>
     creach dbg capacity (\<sigma> 0) \<and> (\<forall>n. \<sigma> (Suc n) = \<sigma> n \<or> cstep dbg (\<sigma> n) (\<sigma> (Suc n)))"

lemma execution_run:
  assumes "execution dbg capacity \<sigma>"
  shows "creach dbg capacity (\<sigma> m)" "m \<le> n \<Longrightarrow> (cstep dbg)\<^sup>*\<^sup>* (\<sigma> m) (\<sigma> n)"
proof -
  show run: "m \<le> n \<Longrightarrow> (cstep dbg)\<^sup>*\<^sup>* (\<sigma> m) (\<sigma> n)" for m n
  proof (induction n rule: dec_induct)
    case (step n)
    then show ?case
      using assms unfolding execution_def by (metis rtranclp.rtrancl_into_rtrancl)
  qed simp
  show "creach dbg capacity (\<sigma> m)"
    using creach_run [OF _ run [of 0 m]] assms by (simp add: execution_def)
qed

lemma execution_terminated:
  assumes "execution dbg capacity \<sigma>" and "is_terminated_state (svc (\<sigma> m))" and "m \<le> n"
  shows "is_terminated_state (svc (\<sigma> n))"
proof -
  note inv = creachD(1) [OF execution_run(1) [OF assms(1), of m]]
  note inv' = creachD(1) [OF execution_run(1) [OF assms(1), of n]]
  from blocking.closed_run [OF execution_run(2) [OF assms(1,3)] inv]
    terminated_iff [OF cinvD(3) [OF inv]] terminated_iff [OF cinvD(3) [OF inv']] assms(2)
  show ?thesis by auto
qed

text \<open>A service seen closed, and later seen without tasks, has terminated.\<close>

lemma seen_terminated_execution:
  assumes "execution dbg capacity \<sigma>" and "view env = svc \<circ> \<sigma>" and "seen_terminated env p q"
  shows "is_terminated_state (svc (\<sigma> q))"
proof -
  obtain a b where ab: "a \<le> b" "b \<le> q" "is_not_running (svc (\<sigma> a))" "is_empty (task_counts (svc (\<sigma> b)))"
    using assms(2,3) by (auto simp: seen_terminated_def)
  have "is_not_running (svc (\<sigma> b))"
    using blocking.closed_run [OF execution_run(2) [OF assms(1) ab(1)]
        creachD(1) [OF execution_run(1) [OF assms(1)]] ab(3)] by simp
  with ab(4) have "is_terminated_state (svc (\<sigma> b))" by (simp add: is_terminated_state_def)
  from execution_terminated [OF assms(1) this ab(2)] show ?thesis .
qed

lemma wait_loop_terminated:
  assumes "is_not_running (view env p)" and "is_empty (task_counts (view env (after env p)))"
  shows "wait_loop env timeout started p = Some (True, after env (after env p))"
  using assms by (subst wait_loop.simps) (simp add: terminated_at_def read_at_def)

text \<open>An environment for the witnesses: the monitor only ever times out, one point per nanosecond.\<close>

definition quiet_world :: "svc \<Rightarrow> (unit, unit) waiting_world" where
  "quiet_world s = \<lparr>view = (\<lambda>p. s), clock = (\<lambda>p. p), after = (\<lambda>p. p),
     monitor_wait = (\<lambda>d p. (WaitTimedOut, p + d))\<rparr>"

lemma quiet_world_contract: "wait_contract (quiet_world s)"
  by (auto simp: wait_contract_def quiet_world_def mono_def)

section \<open>The wait and its answer\<close>

text \<open>
  The loop of bounded waits cannot go on for ever, because a bounded wait that times out has
  used up its share of the total.
\<close>

lemma wait_timeout_returns:
  assumes "wait_contract env"
  shows "\<exists>b q. wait_termination_timeout env timeout p = Some (b, q) \<and> p \<le> q"
proof -
  note go = wait_contractD(1,2) [OF assms]
  have "clock env p \<le> clock env (after env p)" using go monoD by blast
  from wait_loop_returns [OF assms this, of timeout] go(2) [of p] show ?thesis
    unfolding wait_termination_timeout_def justified_def by (meson order_trans)
qed

lemma wait_timeout_answers:
  assumes "wait_contract env" and "execution dbg capacity \<sigma>" and "view env = svc \<circ> \<sigma>"
    and "wait_termination_timeout env timeout p = Some (b, q)"
  shows "(b \<longrightarrow> (\<forall>r\<ge>q. state_lifecycle (svc (\<sigma> r)) = Terminated)) \<and>
    (\<not> b \<longrightarrow> clock env p + timeout \<le> clock env q \<or>
      (\<exists>d a e. d \<le> CHUNK \<and> monitor_wait env d a = (WaitError, e))) \<and>
    (is_terminated_state (svc (\<sigma> p)) \<longrightarrow> b)"
proof -
  note le = wait_contractD(2) [OF assms(1)]
  have start: "clock env p \<le> clock env (after env p)"
    using le wait_contractD(1) [OF assms(1)] monoD by blast
  from wait_loop_returns [OF assms(1) this, of timeout] assms(4)
  have j: "justified env timeout (clock env p) (after env p) b q"
    by (auto simp: wait_termination_timeout_def)
  have "state_lifecycle (svc (\<sigma> r)) = Terminated" if b "q \<le> r" for r
  proof -
    from j that(1) have "seen_terminated env (after env p) q" by (simp add: justified_def)
    from execution_terminated [OF assms(2) seen_terminated_execution [OF assms(2,3) this] that(2)]
    show ?thesis by (simp add: state_lifecycle_Terminated_iff)
  qed
  moreover have b if "is_terminated_state (svc (\<sigma> p))"
  proof -
    have "is_terminated_state (view env (after env p))" "is_terminated_state (view env (after env (after env p)))"
      using execution_terminated [OF assms(2) that] le assms(3) by (metis comp_apply order_trans)+
    then have "wait_termination_timeout env timeout p = Some (True, after env (after env (after env p)))"
      unfolding wait_termination_timeout_def
      by (intro wait_loop_terminated) (simp_all add: is_terminated_state_def)
    with assms(4) show ?thesis by simp
  qed
  ultimately show ?thesis using j unfolding justified_def by (cases b) auto
qed

section \<open>Properties\<close>

text \<open>
  C38: The wait with a timeout returns, with the right answer. Whatever the other threads do,
  and however long the timeout, \<^verbatim>\<open>wait_termination_timeout\<close> ends. In any execution of the
  interleaved service, its \<^verbatim>\<open>true\<close> means the service has terminated, for good; its
  \<^verbatim>\<open>false\<close> means the whole timeout has passed (or the monitor has reported an error). A
  service that had terminated before the call is reported terminated, whatever the timeout.
\<close>
theorem wait_timeout_answer:
  assumes "wait_contract env" and "execution dbg capacity \<sigma>" and "view env = svc \<circ> \<sigma>"
  shows "\<exists>b q. service_wait_termination_timeout env timeout p = Some (b, q) \<and> p \<le> q \<and>
    (b \<longrightarrow> (\<forall>r\<ge>q. state_lifecycle (svc (\<sigma> r)) = Terminated)) \<and>
    (\<not> b \<longrightarrow> clock env p + timeout \<le> clock env q \<or>
      (\<exists>d a e. d \<le> CHUNK \<and> monitor_wait env d a = (WaitError, e))) \<and>
    (is_terminated_state (svc (\<sigma> p)) \<longrightarrow> b)"
proof -
  obtain b q where q: "wait_termination_timeout env timeout p = Some (b, q)" "p \<le> q"
    using wait_timeout_returns [OF assms(1)] by blast
  from q wait_timeout_answers [OF assms q(1)] show ?thesis
    by (intro exI [of _ b] exI [of _ q]) (simp add: service_wait_termination_timeout_def)
qed

theorem wait_timeout_answer_witness:
  "\<exists>s q. creach True 1 s \<and> service_wait_termination_timeout (quiet_world (svc s)) 5 0 = Some (True, q) \<and>
     state_lifecycle (svc s) = Terminated"
proof -
  obtain s where s: "creach True 1 s" "is_terminated_state (svc s)"
    by (rule that [OF run_terminated]) (simp add: is_terminated_state_def is_not_running_def is_empty_def)
  have ex: "execution True 1 (\<lambda>n. s)" using s(1) by (simp add: execution_def)
  have v: "view (quiet_world (svc s)) = svc \<circ> (\<lambda>n. s)" by (simp add: quiet_world_def comp_def)
  from wait_timeout_answer [OF quiet_world_contract ex v, of 5 0] s show ?thesis by auto
qed

end
