(* ===== verification/Io_State.thy ===== *)
theory Io_State
  imports Blocking_State
begin

text \<open>
  \<^verbatim>\<open>src/tokio_io_executor_service_state.rs\<close>, its \<^verbatim>\<open>internal/tracked_abort_handle.rs\<close> and
  \<^verbatim>\<open>src/tokio_io_service_task_guard.rs\<close>: the state shared by the clones of an IO service
  and the guard that accounts one future.

  The counter \<^verbatim>\<open>AtomicCount\<close> is code of \<^verbatim>\<open>qubit_atomic\<close>: its operations are the record
  \<open>atomic_count\<close>, and \<open>counts_atomically\<close> is what the service relies on (its
  increment and decrement may panic out of range, so they return options).
\<close>

section \<open>The counter\<close>

record 'n atomic_count =
  ac_default :: 'n
  ac_get :: "'n \<Rightarrow> usize"
  ac_inc :: "'n \<Rightarrow> 'n option"
  ac_dec :: "'n \<Rightarrow> 'n option"
  ac_is_zero :: "'n \<Rightarrow> bool"

definition counts_atomically :: "'n atomic_count \<Rightarrow> bool" where
  "counts_atomically ac \<longleftrightarrow>
     ac_get ac (ac_default ac) = 0 \<and>
     (\<forall>c. ac_is_zero ac c \<longleftrightarrow> ac_get ac c = 0) \<and>
     (\<forall>c. unat (ac_get ac c) + 1 < 2 ^ 64 \<longrightarrow>
        (\<exists>c'. ac_inc ac c = Some c' \<and> ac_get ac c' = ac_get ac c + 1)) \<and>
     (\<forall>c. ac_get ac c \<noteq> 0 \<longrightarrow> (\<exists>c'. ac_dec ac c = Some c' \<and> ac_get ac c' = ac_get ac c - 1))"

section \<open>The shared state\<close>

record 'h IoTrackedAbortHandle =
  io_tracked_marker :: usize
  io_handle :: 'h

record ('n, 'h) TokioIoExecutorServiceState =
  io_lifecycle_byte :: u8
  active_tasks :: 'n
  io_task_capacity :: usize
  io_submission_lock :: bool
  io_abort_handles :: "usize \<rightharpoonup> 'h IoTrackedAbortHandle"
  termination_notify :: nat
  io_capacity_tx :: u64

record TokioIoExecutorServiceStats =
  io_stats_lifecycle :: ExecutorServiceLifecycle
  io_stats_task_capacity :: usize
  accepted_unfinished :: usize

definition IO_DEFAULT_TASK_CAPACITY :: usize where
  "IO_DEFAULT_TASK_CAPACITY = 1024"

definition io_state_with_task_capacity ::
  "'n atomic_count \<Rightarrow> usize \<Rightarrow> ('n, 'h) TokioIoExecutorServiceState" where
  "io_state_with_task_capacity ac capacity =
     \<lparr>io_lifecycle_byte = 0, active_tasks = ac_default ac, io_task_capacity = capacity,
      io_submission_lock = False, io_abort_handles = Map.empty, termination_notify = 0,
      io_capacity_tx = 0\<rparr>"

definition io_state_default :: "'n atomic_count \<Rightarrow> ('n, 'h) TokioIoExecutorServiceState" where
  "io_state_default ac = io_state_with_task_capacity ac IO_DEFAULT_TASK_CAPACITY"

definition io_lock_submission ::
  "('n, 'h) TokioIoExecutorServiceState \<Rightarrow> ('n, 'h) TokioIoExecutorServiceState option" where
  "io_lock_submission s = (if io_submission_lock s then None else Some (s\<lparr>io_submission_lock := True\<rparr>))"

definition io_unlock_submission ::
  "('n, 'h) TokioIoExecutorServiceState \<Rightarrow> ('n, 'h) TokioIoExecutorServiceState" where
  "io_unlock_submission s = s\<lparr>io_submission_lock := False\<rparr>"

definition io_capacity_changes :: "('n, 'h) TokioIoExecutorServiceState \<Rightarrow> u64" where
  "io_capacity_changes s = io_capacity_tx s"

definition io_state_lifecycle ::
  "'n atomic_count \<Rightarrow> ('n, 'h) TokioIoExecutorServiceState \<Rightarrow> ExecutorServiceLifecycle" where
  "io_state_lifecycle ac s =
     (let lifecycle = load (io_lifecycle_byte s)
      in if lifecycle \<noteq> Running \<and> ac_is_zero ac (active_tasks s) then Terminated else lifecycle)"

definition io_is_not_running :: "('n, 'h) TokioIoExecutorServiceState \<Rightarrow> bool" where
  "io_is_not_running s \<longleftrightarrow> load (io_lifecycle_byte s) \<noteq> Running"

definition io_state_stats ::
  "'n atomic_count \<Rightarrow> ('n, 'h) TokioIoExecutorServiceState \<Rightarrow> TokioIoExecutorServiceStats" where
  "io_state_stats ac s =
     \<lparr>io_stats_lifecycle = io_state_lifecycle ac s, io_stats_task_capacity = io_task_capacity s,
      accepted_unfinished = ac_get ac (active_tasks s)\<rparr>"

definition io_notify_capacity_changed ::
  "('n, 'h) TokioIoExecutorServiceState \<Rightarrow> ('n, 'h) TokioIoExecutorServiceState" where
  "io_notify_capacity_changed s = s\<lparr>io_capacity_tx := wrapping_add (io_capacity_tx s) 1\<rparr>"

definition io_notify_termination_waiters ::
  "('n, 'h) TokioIoExecutorServiceState \<Rightarrow> ('n, 'h) TokioIoExecutorServiceState" where
  "io_notify_termination_waiters s = s\<lparr>termination_notify := Suc (termination_notify s)\<rparr>"

definition io_try_accept_task ::
  "'n atomic_count \<Rightarrow> ('n, 'h) TokioIoExecutorServiceState
   \<Rightarrow> (bool \<times> ('n, 'h) TokioIoExecutorServiceState) option" where
  "io_try_accept_task ac s =
     (if ac_get ac (active_tasks s) \<ge> io_task_capacity s then Some (False, s)
      else do {
        n \<leftarrow> ac_inc ac (active_tasks s);
        Some (True, s\<lparr>active_tasks := n\<rparr>)
      })"

definition io_state_shutdown ::
  "('n, 'h) TokioIoExecutorServiceState \<Rightarrow> ('n, 'h) TokioIoExecutorServiceState" where
  "io_state_shutdown s = s\<lparr>io_lifecycle_byte := shutdown_bits (io_lifecycle_byte s)\<rparr>"

definition io_state_stop ::
  "('n, 'h) TokioIoExecutorServiceState \<Rightarrow> ('n, 'h) TokioIoExecutorServiceState" where
  "io_state_stop s = s\<lparr>io_lifecycle_byte := stop_bits (io_lifecycle_byte s)\<rparr>"

section \<open>Abort tracking and the guard\<close>

text \<open>
  The store of an IO service: its state, the registration markers by address, and the state
  of the code outside the crate. A guard is named by its marker's address; it is dropped
  once, by its owner, and until then the registration is not finished.
\<close>

record ('n, 'h, 'x) io_world =
  io_state :: "('n, 'h) TokioIoExecutorServiceState"
  io_registrations :: "usize \<rightharpoonup> TokioTaskRegistration"
  io_outside :: 'x

definition io_register_abort_handle ::
  "bool \<Rightarrow> ('h \<Rightarrow> 'x \<Rightarrow> bool) \<Rightarrow> usize \<Rightarrow> 'h \<Rightarrow> ('n, 'h, 'x) io_world \<Rightarrow> ('n, 'h, 'x) io_world option" where
  "io_register_abort_handle dbg handle_is_finished mk h w = do {
     reg \<leftarrow> io_registrations w mk;
     if \<not> is_finished reg \<and> \<not> handle_is_finished h (io_outside w) then do {
       let handles = io_abort_handles (io_state w);
       let previous = handles (key mk);
       debug_assert dbg (previous = None);
       Some (w\<lparr>io_state := (io_state w)\<lparr>io_abort_handles :=
         handles(key mk \<mapsto> \<lparr>io_tracked_marker = mk, io_handle = h\<rparr>)\<rparr>\<rparr>)
     } else Some w
   }"

definition io_remove_abort_handle ::
  "usize \<Rightarrow> ('n, 'h, 'x) io_world \<Rightarrow> ('n, 'h, 'x) io_world option" where
  "io_remove_abort_handle mk w = do {
     reg \<leftarrow> io_registrations w mk;
     let w = w\<lparr>io_registrations := (io_registrations w)(mk \<mapsto> finish reg)\<rparr>;
     Some (w\<lparr>io_state := (io_state w)\<lparr>io_abort_handles := (io_abort_handles (io_state w))(key mk := None)\<rparr>\<rparr>)
   }"

fun io_abort_loop ::
  "bool \<Rightarrow> ('h \<Rightarrow> 'x \<Rightarrow> bool) \<Rightarrow> ('h \<Rightarrow> 'x \<Rightarrow> 'x) \<Rightarrow> (usize \<times> 'h IoTrackedAbortHandle) list \<Rightarrow> usize
   \<Rightarrow> ('n, 'h, 'x) io_world \<Rightarrow> (usize \<times> ('n, 'h, 'x) io_world) option" where
  "io_abort_loop dbg handle_is_finished abort [] cancellation_count w = Some (cancellation_count, w)"
| "io_abort_loop dbg handle_is_finished abort ((k, tracked) # handles) cancellation_count w =
     (if \<not> handle_is_finished (io_handle tracked) (io_outside w) then do {
        let w = w\<lparr>io_outside := abort (io_handle tracked) (io_outside w)\<rparr>;
        n \<leftarrow> add_assign dbg cancellation_count 1;
        io_abort_loop dbg handle_is_finished abort handles n w
      } else io_abort_loop dbg handle_is_finished abort handles cancellation_count w)"

definition io_abort_tracked_tasks ::
  "bool \<Rightarrow> ((usize \<rightharpoonup> 'h IoTrackedAbortHandle) \<Rightarrow> (usize \<times> 'h IoTrackedAbortHandle) list)
   \<Rightarrow> ('h \<Rightarrow> 'x \<Rightarrow> bool) \<Rightarrow> ('h \<Rightarrow> 'x \<Rightarrow> 'x)
   \<Rightarrow> ('n, 'h, 'x) io_world \<Rightarrow> (usize \<times> ('n, 'h, 'x) io_world) option" where
  "io_abort_tracked_tasks dbg iter handle_is_finished abort w =
     (let handles = io_abort_handles (io_state w);
          w = w\<lparr>io_state := (io_state w)\<lparr>io_abort_handles := Map.empty\<rparr>\<rparr>
      in io_abort_loop dbg handle_is_finished abort (iter handles) 0 w)"

definition io_map_state ::
  "(('n, 'h) TokioIoExecutorServiceState \<Rightarrow> ('n, 'h) TokioIoExecutorServiceState)
   \<Rightarrow> ('n, 'h, 'x) io_world \<Rightarrow> ('n, 'h, 'x) io_world" where
  "io_map_state f w = w\<lparr>io_state := f (io_state w)\<rparr>"

definition io_guard_new :: "usize \<Rightarrow> usize" where
  "io_guard_new mk = mk"

definition io_guard_drop ::
  "'n atomic_count \<Rightarrow> usize \<Rightarrow> ('n, 'h, 'x) io_world \<Rightarrow> ('n, 'h, 'x) io_world option" where
  "io_guard_drop ac guard w = do {
     w \<leftarrow> io_remove_abort_handle guard w;
     n \<leftarrow> ac_dec ac (active_tasks (io_state w));
     let w = io_map_state (\<lambda>s. s\<lparr>active_tasks := n\<rparr>) w;
     let w = io_map_state io_notify_capacity_changed w;
     Some (io_map_state io_notify_termination_waiters w)
   }"

section \<open>The counter's laws\<close>

lemma counts_atomicallyD:
  assumes "counts_atomically ac"
  shows "ac_get ac (ac_default ac) = 0" "ac_is_zero ac c \<longleftrightarrow> ac_get ac c = 0"
  using assms by (auto simp: counts_atomically_def)

lemma ac_inc_spec:
  assumes "counts_atomically ac" and "unat (ac_get ac c) + 1 < 2 ^ 64"
  obtains c' where "ac_inc ac c = Some c'" "unat (ac_get ac c') = unat (ac_get ac c) + 1"
proof -
  obtain c' where c': "ac_inc ac c = Some c'" "ac_get ac c' = ac_get ac c + 1"
    using assms unfolding counts_atomically_def by blast
  have "unat (ac_get ac c + 1) = unat (ac_get ac c) + 1"
    using unat_usize_add [of "ac_get ac c" 1] assms(2) by simp
  with c'(2) show ?thesis by (intro that [OF c'(1)]) simp
qed

lemma ac_dec_spec:
  assumes "counts_atomically ac" and "0 < unat (ac_get ac c)"
  obtains c' where "ac_dec ac c = Some c'" "unat (ac_get ac c') = unat (ac_get ac c) - 1"
proof -
  have nz: "ac_get ac c \<noteq> 0" using assms(2) by auto
  then obtain c' where c': "ac_dec ac c = Some c'" "ac_get ac c' = ac_get ac c - 1"
    using assms(1) unfolding counts_atomically_def by blast
  have "1 \<le> ac_get ac c" using nz by (simp add: word_le_nat_alt Suc_leI unat_gt_0)
  then have "unat (ac_get ac c - 1) = unat (ac_get ac c) - 1" by (simp add: unat_sub)
  with c'(2) show ?thesis by (intro that [OF c'(1)]) simp
qed

text \<open>A 64-bit counter that wraps nowhere in its range keeps the laws.\<close>

definition word_count :: "usize atomic_count" where
  "word_count = \<lparr>ac_default = 0, ac_get = (\<lambda>c. c),
     ac_inc = (\<lambda>c. if c = - 1 then None else Some (c + 1)),
     ac_dec = (\<lambda>c. if c = 0 then None else Some (c - 1)), ac_is_zero = (\<lambda>c. c = 0)\<rparr>"

lemma word_count_ok: "counts_atomically word_count"
proof -
  have "c \<noteq> - 1" if "unat c + 1 < 2 ^ 64" for c :: usize
    using that by (auto simp: unat_minus_one_usize)
  then show ?thesis by (auto simp: counts_atomically_def word_count_def)
qed

section \<open>Accounting\<close>

text \<open>
  \<open>io_accounted\<close>: between calls the counter is the number of open registrations (accepted
  futures whose guard is not dropped), within the capacity, and every tracked abort handle is
  under its own marker's key and belongs to an open registration.
\<close>

definition open_registrations :: "('n, 'h, 'x) io_world \<Rightarrow> usize set" where
  "open_registrations w = {k. \<exists>r. io_registrations w k = Some r \<and> \<not> is_finished r}"

definition io_accounted :: "'n atomic_count \<Rightarrow> ('n, 'h, 'x) io_world \<Rightarrow> bool" where
  "io_accounted ac w \<longleftrightarrow> finite (dom (io_registrations w)) \<and>
     unat (ac_get ac (active_tasks (io_state w))) = card (open_registrations w) \<and>
     card (open_registrations w) \<le> unat (io_task_capacity (io_state w)) \<and>
     (\<forall>k a. io_abort_handles (io_state w) k = Some a \<longrightarrow>
        key (io_tracked_marker a) = k \<and> k \<in> open_registrations w)"

lemma open_registrations_subset: "open_registrations w \<subseteq> dom (io_registrations w)"
  by (auto simp: open_registrations_def)

lemma open_registrations_frame [simp]:
  "open_registrations (w\<lparr>io_state := s\<rparr>) = open_registrations w"
  "open_registrations (w\<lparr>io_outside := x\<rparr>) = open_registrations w"
  by (simp_all add: open_registrations_def)

lemma io_accounted_outside [simp]: "io_accounted ac (w\<lparr>io_outside := x\<rparr>) = io_accounted ac w"
  by (simp add: io_accounted_def)

lemma open_registrations_new:
  "io_registrations w k = None \<Longrightarrow>
   open_registrations (w\<lparr>io_registrations := (io_registrations w)(k \<mapsto> registration_new)\<rparr>) =
     insert k (open_registrations w)"
  by (auto simp: open_registrations_def registration_new_def is_finished_def)

lemma open_registrations_finish:
  "open_registrations (w\<lparr>io_registrations := (io_registrations w)(k \<mapsto> finish r)\<rparr>) =
     open_registrations w - {k}"
  by (auto simp: open_registrations_def finish_def is_finished_def)

lemma io_accountedD:
  assumes "io_accounted ac w"
  shows "finite (open_registrations w)"
    "unat (ac_get ac (active_tasks (io_state w))) = card (open_registrations w)"
    "card (open_registrations w) \<le> unat (io_task_capacity (io_state w))"
    "io_abort_handles (io_state w) k = Some a \<Longrightarrow> k \<in> open_registrations w"
  using assms finite_subset [OF open_registrations_subset] unfolding io_accounted_def by blast+

text \<open>The counter leaves room exactly while admission does.\<close>

lemma io_full_iff:
  "io_accounted ac w \<Longrightarrow>
   io_task_capacity (io_state w) \<le> ac_get ac (active_tasks (io_state w)) \<longleftrightarrow>
     card (open_registrations w) = unat (io_task_capacity (io_state w))"
  using io_accountedD(2,3) [of ac w] by (auto simp: word_le_nat_alt)

section \<open>The drop of a guard\<close>

text \<open>
  \<open>io_released k w w'\<close>: the registration \<open>k\<close> is finished and untracked, its slot is free,
  and each kind of waiter has been notified once; nothing else has changed.
\<close>

definition io_released :: "usize \<Rightarrow> ('n, 'h, 'x) io_world \<Rightarrow> ('n, 'h, 'x) io_world \<Rightarrow> bool" where
  "io_released k w w' \<longleftrightarrow> open_registrations w' = open_registrations w - {k} \<and>
     io_outside w' = io_outside w \<and>
     io_abort_handles (io_state w') = (io_abort_handles (io_state w))(k := None) \<and>
     io_lifecycle_byte (io_state w') = io_lifecycle_byte (io_state w) \<and>
     io_task_capacity (io_state w') = io_task_capacity (io_state w) \<and>
     io_submission_lock (io_state w') = io_submission_lock (io_state w) \<and>
     io_capacity_tx (io_state w') = io_capacity_tx (io_state w) + 1 \<and>
     termination_notify (io_state w') = Suc (termination_notify (io_state w))"

lemma io_guard_drop_releases:
  assumes ac: "counts_atomically ac" and w: "io_accounted ac w" and k: "k \<in> open_registrations w"
  obtains w' where "io_guard_drop ac k w = Some w'" "io_accounted ac w'" "io_released k w w'"
proof -
  obtain r where r: "io_registrations w k = Some r" using k by (auto simp: open_registrations_def)
  have pos: "0 < card (open_registrations w)" using k io_accountedD(1) [OF w] card_gt_0_iff by blast
  then obtain n where n: "ac_dec ac (active_tasks (io_state w)) = Some n"
    "unat (ac_get ac n) = card (open_registrations w) - 1"
    using ac_dec_spec [OF ac, of "active_tasks (io_state w)"] io_accountedD(2) [OF w] by metis
  let ?s = "(io_state w)\<lparr>io_abort_handles := (io_abort_handles (io_state w))(k := None),
    active_tasks := n, io_capacity_tx := wrapping_add (io_capacity_tx (io_state w)) 1,
    termination_notify := Suc (termination_notify (io_state w))\<rparr>"
  let ?w = "w\<lparr>io_registrations := (io_registrations w)(k \<mapsto> finish r), io_state := ?s\<rparr>"
  have drop: "io_guard_drop ac k w = Some ?w"
    using r n(1) by (simp add: io_guard_drop_def io_remove_abort_handle_def io_map_state_def
        io_notify_capacity_changed_def io_notify_termination_waiters_def key_def Let_def)
  have op: "open_registrations ?w = open_registrations w - {k}"
    using open_registrations_finish [of w k r] by (simp add: open_registrations_def)
  moreover from this have "io_released k w ?w" by (simp add: io_released_def wrapping_add_def)
  moreover have "card (open_registrations w - {k}) = card (open_registrations w) - 1" using k by simp
  moreover from this op have "io_accounted ac ?w"
    using w n(2) unfolding io_accounted_def by auto
  ultimately show ?thesis using drop by (intro that)
qed

end
