(* ===== verification/Io_Service.thy ===== *)
theory Io_Service
  imports Io_State Blocking_Service
begin

text \<open>
  \<^verbatim>\<open>src/tokio_io_executor_service.rs\<close>, \<^verbatim>\<open>src/internal/tokio_io_spawn_handoff.rs\<close> and
  \<^verbatim>\<open>src/internal/tokio_guarded_io_future.rs\<close>: submission of a future, its life inside the
  spawned Tokio task up to the drop of its guard, shutdown and stop. Each operation is the
  run of one call that nothing interleaves with (theory \<open>Io_Interleaving\<close> takes them apart).

  The code outside the crate is the record \<open>io_ops\<close>: its objects are references of type
  \<open>'r\<close>, its state is \<open>'x\<close>, user futures are of type \<open>'f\<close> with values \<open>'v\<close>
  and errors \<open>'e\<close>. A poll of the user's future that unwinds returns \<open>None\<close>.
\<close>

section \<open>Results and polls\<close>

text \<open>The variants of \<^verbatim>\<open>qubit_executor::TaskExecutionError\<close> that the crate constructs.\<close>

datatype 'e TaskExecutionError = Failed 'e | Panicked | Cancelled

type_synonym ('v, 'e) TaskResult = "'e TaskExecutionError + 'v"

datatype 'a Poll = Pending | Ready 'a

definition map_err :: "('e \<Rightarrow> 'd) \<Rightarrow> 'e + 'v \<Rightarrow> 'd + 'v" where
  "map_err f = map_sum f id"

record 'f TokioGuardedIoFuture =
  user_future :: 'f
  future_guard :: usize

text \<open>
  \<open>recv_poll\<close> polls the oneshot receiver (\<open>Ready None\<close> is \<^verbatim>\<open>Err(RecvError)\<close>),
  \<open>receiver_drop\<close> drops it and hands out a payload that was sent and not received, for its
  destructor to run; \<open>io_spawn\<close> spawns the asynchronous block that owns the receiver.
\<close>

record ('r, 'f, 'v, 'e, 'x) io_ops =
  io_channel :: "'x \<Rightarrow> ('r \<times> 'r) \<times> 'x"
  io_spawn :: "'r \<Rightarrow> 'x \<Rightarrow> 'r \<times> 'x"
  io_abort_handle_of :: "'r \<Rightarrow> 'r"
  io_send :: "'r \<Rightarrow> 'f TokioGuardedIoFuture \<Rightarrow> 'x \<Rightarrow> bool \<times> 'x"
  sender_drop :: "'r \<Rightarrow> 'x \<Rightarrow> 'x"
  recv_poll :: "'r \<Rightarrow> 'x \<Rightarrow> 'f TokioGuardedIoFuture option Poll \<times> 'x"
  receiver_drop :: "'r \<Rightarrow> 'x \<Rightarrow> 'f TokioGuardedIoFuture option \<times> 'x"
  future_poll :: "'f \<Rightarrow> 'x \<Rightarrow> ('e + 'v) Poll option \<times> 'x"
  future_drop :: "'f \<Rightarrow> 'x \<Rightarrow> 'x"
  io_handle_is_finished :: "'r \<Rightarrow> 'x \<Rightarrow> bool"
  io_abort :: "'r \<Rightarrow> 'x \<Rightarrow> 'x"

definition io_on_outside ::
  "('x \<Rightarrow> 'a \<times> 'x) \<Rightarrow> ('n, 'h, 'x) io_world \<Rightarrow> 'a \<times> ('n, 'h, 'x) io_world" where
  "io_on_outside f w = (let (a, x) = f (io_outside w) in (a, w\<lparr>io_outside := x\<rparr>))"

definition io_at_outside ::
  "('x \<Rightarrow> 'x) \<Rightarrow> ('n, 'h, 'x) io_world \<Rightarrow> ('n, 'h, 'x) io_world" where
  "io_at_outside f w = w\<lparr>io_outside := f (io_outside w)\<rparr>"

section \<open>The guarded future\<close>

definition guarded_new :: "'f \<Rightarrow> usize \<Rightarrow> 'f TokioGuardedIoFuture" where
  "guarded_new future guard = \<lparr>user_future = future, future_guard = guard\<rparr>"

definition guarded_poll ::
  "('r, 'f, 'v, 'e, 'x) io_ops \<Rightarrow> 'f TokioGuardedIoFuture \<Rightarrow> 'x
   \<Rightarrow> ('v, 'e) TaskResult Poll option \<times> 'x" where
  "guarded_poll tk this x =
     (let (polled, x) = future_poll tk (user_future this) x
      in (map_option (map_Poll (map_err Failed)) polled, x))"

text \<open>The drop glue: the fields in their order, the user's future before the guard.\<close>

definition guarded_drop ::
  "'n atomic_count \<Rightarrow> ('r, 'f, 'v, 'e, 'x) io_ops \<Rightarrow> 'f TokioGuardedIoFuture
   \<Rightarrow> ('n, 'r, 'x) io_world \<Rightarrow> ('n, 'r, 'x) io_world option" where
  "guarded_drop ac tk this w =
     io_guard_drop ac (future_guard this) (io_at_outside (future_drop tk (user_future this)) w)"

section \<open>The spawned task\<close>

text \<open>
  The states of the asynchronous block given to \<^verbatim>\<open>spawn\<close>: awaiting the receiver, awaiting
  the guarded future, returned (or unwound). Tokio drops the block in the state it is in when
  the task is aborted.
\<close>

datatype ('r, 'f) io_task = AwaitReceiver 'r | AwaitFuture "'f TokioGuardedIoFuture" | TaskReturned

definition poll_future ::
  "'n atomic_count \<Rightarrow> ('r, 'f, 'v, 'e, 'x) io_ops \<Rightarrow> 'f TokioGuardedIoFuture \<Rightarrow> ('n, 'r, 'x) io_world
   \<Rightarrow> (('v, 'e) TaskResult Poll option \<times> ('r, 'f) io_task \<times> ('n, 'r, 'x) io_world) option" where
  "poll_future ac tk future w =
     (let (polled, w) = io_on_outside (guarded_poll tk future) w
      in if polled = Some Pending then Some (polled, AwaitFuture future, w)
         else do {
           w \<leftarrow> guarded_drop ac tk future w;
           Some (polled, TaskReturned, w)
         })"

definition poll_task ::
  "'n atomic_count \<Rightarrow> ('r, 'f, 'v, 'e, 'x) io_ops \<Rightarrow> ('r, 'f) io_task \<Rightarrow> ('n, 'r, 'x) io_world
   \<Rightarrow> (('v, 'e) TaskResult Poll option \<times> ('r, 'f) io_task \<times> ('n, 'r, 'x) io_world) option" where
  "poll_task ac tk task w =
     (case task of
        AwaitReceiver receiver \<Rightarrow>
          (let (received, w) = io_on_outside (recv_poll tk receiver) w
           in case received of
                Pending \<Rightarrow> Some (Some Pending, AwaitReceiver receiver, w)
              | Ready (Some future) \<Rightarrow> poll_future ac tk future w
              | Ready None \<Rightarrow> Some (Some (Ready (Inl Cancelled)), TaskReturned, w))
      | AwaitFuture future \<Rightarrow> poll_future ac tk future w
      | TaskReturned \<Rightarrow> None)"

definition drop_task ::
  "'n atomic_count \<Rightarrow> ('r, 'f, 'v, 'e, 'x) io_ops \<Rightarrow> ('r, 'f) io_task \<Rightarrow> ('n, 'r, 'x) io_world
   \<Rightarrow> ('n, 'r, 'x) io_world option" where
  "drop_task ac tk task w =
     (case task of
        AwaitReceiver receiver \<Rightarrow>
          (let (undelivered, w) = io_on_outside (receiver_drop tk receiver) w
           in case undelivered of Some future \<Rightarrow> guarded_drop ac tk future w | None \<Rightarrow> Some w)
      | AwaitFuture future \<Rightarrow> guarded_drop ac tk future w
      | TaskReturned \<Rightarrow> Some w)"

section \<open>Submission\<close>

record ('r, 'f) TokioIoSpawnHandoff =
  handoff_future :: 'f
  handoff_handle :: 'r
  handoff_sender :: 'r
  handoff_guard :: usize

record 'r TokioTaskHandle =
  join_handle :: 'r

definition handoff_new :: "'f \<Rightarrow> 'r \<Rightarrow> 'r \<Rightarrow> usize \<Rightarrow> ('r, 'f) TokioIoSpawnHandoff" where
  "handoff_new future h sender guard =
     \<lparr>handoff_future = future, handoff_handle = h, handoff_sender = sender, handoff_guard = guard\<rparr>"

definition task_handle_new :: "'r \<Rightarrow> 'r TokioTaskHandle" where
  "task_handle_new h = \<lparr>join_handle = h\<rparr>"

definition io_new :: "'n atomic_count \<Rightarrow> usize \<Rightarrow> 'x \<Rightarrow> ('n, 'r, 'x) io_world" where
  "io_new ac capacity x =
     \<lparr>io_state = io_state_with_task_capacity ac capacity, io_registrations = Map.empty, io_outside = x\<rparr>"

definition io_new_default :: "'n atomic_count \<Rightarrow> 'x \<Rightarrow> ('n, 'r, 'x) io_world" where
  "io_new_default ac x = io_new ac IO_DEFAULT_TASK_CAPACITY x"

definition prepare_spawn ::
  "bool \<Rightarrow> 'n atomic_count \<Rightarrow> ('r, 'f, 'v, 'e, 'x) io_ops \<Rightarrow> usize \<Rightarrow> 'f \<Rightarrow> ('n, 'r, 'x) io_world
   \<Rightarrow> (((SubmissionError \<times> 'f) + ('r, 'f) TokioIoSpawnHandoff) \<times> ('n, 'r, 'x) io_world) option" where
  "prepare_spawn dbg ac tk addr future w = do {
     s \<leftarrow> io_lock_submission (io_state w);
     if io_is_not_running s then Some (Inl (Shutdown, future), w\<lparr>io_state := io_unlock_submission s\<rparr>)
     else do {
       (accepted, s) \<leftarrow> io_try_accept_task ac s;
       if \<not> accepted then Some (Inl (Saturated, future), w\<lparr>io_state := io_unlock_submission s\<rparr>)
       else do {
         let w = w\<lparr>io_state := s, io_registrations := (io_registrations w)(addr \<mapsto> registration_new)\<rparr>;
         let guard = io_guard_new addr;
         let ((sender, receiver), w) = io_on_outside (io_channel tk) w;
         let (h, w) = io_on_outside (io_spawn tk receiver) w;
         w \<leftarrow> io_register_abort_handle dbg (io_handle_is_finished tk) addr (io_abort_handle_of tk h) w;
         let w = io_map_state io_unlock_submission w;
         Some (Inr (handoff_new future h sender guard), w)
       }
     }
   }"

definition deliver ::
  "'n atomic_count \<Rightarrow> ('r, 'f, 'v, 'e, 'x) io_ops \<Rightarrow> ('r, 'f) TokioIoSpawnHandoff \<Rightarrow> ('n, 'r, 'x) io_world
   \<Rightarrow> ('r TokioTaskHandle \<times> ('n, 'r, 'x) io_world) option" where
  "deliver ac tk self w = do {
     let payload = guarded_new (handoff_future self) (handoff_guard self);
     let (sent, w) = io_on_outside (io_send tk (handoff_sender self) payload) w;
     w \<leftarrow> (if sent then Some w else guarded_drop ac tk payload w);
     Some (task_handle_new (handoff_handle self), w)
   }"

text \<open>
  The drop glue of an undelivered handoff: the future, the join handle (which detaches the
  task and has no effect), the sender, the guard.
\<close>

definition handoff_drop ::
  "'n atomic_count \<Rightarrow> ('r, 'f, 'v, 'e, 'x) io_ops \<Rightarrow> ('r, 'f) TokioIoSpawnHandoff \<Rightarrow> ('n, 'r, 'x) io_world
   \<Rightarrow> ('n, 'r, 'x) io_world option" where
  "handoff_drop ac tk self w =
     (let w = io_at_outside (future_drop tk (handoff_future self)) w;
          w = io_at_outside (sender_drop tk (handoff_sender self)) w
      in io_guard_drop ac (handoff_guard self) w)"

definition try_spawn ::
  "bool \<Rightarrow> 'n atomic_count \<Rightarrow> ('r, 'f, 'v, 'e, 'x) io_ops \<Rightarrow> usize \<Rightarrow> 'f \<Rightarrow> ('n, 'r, 'x) io_world
   \<Rightarrow> (('f RejectedTask + 'r TokioTaskHandle) \<times> ('n, 'r, 'x) io_world) option" where
  "try_spawn dbg ac tk addr future w = do {
     (prepared, w) \<leftarrow> prepare_spawn dbg ac tk addr future w;
     case prepared of
       Inl (why, future) \<Rightarrow> Some (Inl (rejected_new why future), w)
     | Inr handoff \<Rightarrow> do {
         (h, w) \<leftarrow> deliver ac tk handoff w;
         Some (Inr h, w)
       }
   }"

text \<open>The consuming form drops the future of a rejection.\<close>

definition spawn ::
  "bool \<Rightarrow> 'n atomic_count \<Rightarrow> ('r, 'f, 'v, 'e, 'x) io_ops \<Rightarrow> usize \<Rightarrow> 'f \<Rightarrow> ('n, 'r, 'x) io_world
   \<Rightarrow> ((SubmissionError + 'r TokioTaskHandle) \<times> ('n, 'r, 'x) io_world) option" where
  "spawn dbg ac tk addr future w =
     map_option (map_rejection (\<lambda>future. io_at_outside (future_drop tk future)))
       (try_spawn dbg ac tk addr future w)"

section \<open>Shutdown, stop and observation\<close>

definition io_shutdown :: "('n, 'r, 'x) io_world \<Rightarrow> ('n, 'r, 'x) io_world option" where
  "io_shutdown w = do {
     s \<leftarrow> io_lock_submission (io_state w);
     let s = io_unlock_submission (io_state_shutdown s);
     let s = io_notify_capacity_changed s;
     let s = io_notify_termination_waiters s;
     Some (w\<lparr>io_state := s\<rparr>)
   }"

definition io_stop ::
  "bool \<Rightarrow> 'n atomic_count \<Rightarrow> ('r, 'f, 'v, 'e, 'x) io_ops
   \<Rightarrow> ((usize \<rightharpoonup> 'r IoTrackedAbortHandle) \<Rightarrow> (usize \<times> 'r IoTrackedAbortHandle) list)
   \<Rightarrow> ('n, 'r, 'x) io_world \<Rightarrow> (StopReport \<times> ('n, 'r, 'x) io_world) option" where
  "io_stop dbg ac tk iter w = do {
     s \<leftarrow> io_lock_submission (io_state w);
     let s = io_state_stop s;
     let running = ac_get ac (active_tasks s);
     let w = w\<lparr>io_state := io_unlock_submission s\<rparr>;
     (cancellation_count, w) \<leftarrow> io_abort_tracked_tasks dbg iter (io_handle_is_finished tk) (io_abort tk) w;
     let w = io_map_state io_notify_capacity_changed w;
     let w = io_map_state io_notify_termination_waiters w;
     Some (\<lparr>report_queued = 0, report_running = running, report_cancelled = cancellation_count\<rparr>, w)
   }"

definition io_stats :: "'n atomic_count \<Rightarrow> ('n, 'r, 'x) io_world \<Rightarrow> TokioIoExecutorServiceStats" where
  "io_stats ac w = io_state_stats ac (io_state w)"

definition io_service_capacity_changes :: "('n, 'r, 'x) io_world \<Rightarrow> u64" where
  "io_service_capacity_changes w = io_capacity_changes (io_state w)"

definition io_lifecycle :: "'n atomic_count \<Rightarrow> ('n, 'r, 'x) io_world \<Rightarrow> ExecutorServiceLifecycle" where
  "io_lifecycle ac w = io_state_lifecycle ac (io_state w)"

definition io_is_running :: "'n atomic_count \<Rightarrow> ('n, 'r, 'x) io_world \<Rightarrow> bool" where
  "io_is_running ac w \<longleftrightarrow> io_lifecycle ac w = Running"

definition io_is_shutting_down :: "'n atomic_count \<Rightarrow> ('n, 'r, 'x) io_world \<Rightarrow> bool" where
  "io_is_shutting_down ac w \<longleftrightarrow> io_lifecycle ac w = ShuttingDown"

definition io_is_stopping :: "'n atomic_count \<Rightarrow> ('n, 'r, 'x) io_world \<Rightarrow> bool" where
  "io_is_stopping ac w \<longleftrightarrow> io_lifecycle ac w = Stopping"

definition io_service_is_not_running :: "('n, 'r, 'x) io_world \<Rightarrow> bool" where
  "io_service_is_not_running w \<longleftrightarrow> io_is_not_running (io_state w)"

definition io_is_terminated :: "'n atomic_count \<Rightarrow> ('n, 'r, 'x) io_world \<Rightarrow> bool" where
  "io_is_terminated ac w \<longleftrightarrow> io_lifecycle ac w = Terminated"

end
