(* ===== verification/Io_Calls.thy ===== *)
theory Io_Calls
  imports Io_Service Blocking_Calls
begin

text \<open>
  The sequential correctness of the IO service: admission and rejection, the drop of the
  user's future before its accounting on every exit path, the stop report, and the
  accounting invariant over any sequence of calls.
\<close>

section \<open>Admission\<close>

lemma usize_succ_eq: "unat a = unat b + 1 \<Longrightarrow> a = b + (1 :: usize)"
  using unat_usize_less [of a] unat_usize_add [of b 1] by (simp add: word_unat_eq_iff)

definition io_admission_error :: "'n atomic_count \<Rightarrow> ('n, 'r, 'x) io_world \<Rightarrow> SubmissionError option" where
  "io_admission_error ac w =
     (if io_is_not_running (io_state w) then Some Shutdown
      else if io_task_capacity (io_state w) \<le> ac_get ac (active_tasks (io_state w)) then Some Saturated
      else None)"

definition io_ready :: "'n atomic_count \<Rightarrow> ('n, 'r, 'x) io_world \<Rightarrow> bool" where
  "io_ready ac w \<longleftrightarrow> io_accounted ac w \<and> \<not> io_submission_lock (io_state w)"

text \<open>
  \<open>io_admitted addr w w'\<close>: exactly the registration \<open>addr\<close> has been opened, and nothing
  else that is tracked, published or counted has changed.
\<close>

definition io_admitted :: "usize \<Rightarrow> ('n, 'r, 'x) io_world \<Rightarrow> ('n, 'r, 'x) io_world \<Rightarrow> bool" where
  "io_admitted addr w w' \<longleftrightarrow> open_registrations w' = insert addr (open_registrations w) \<and>
     (\<forall>k. k \<noteq> addr \<longrightarrow> io_abort_handles (io_state w') k = io_abort_handles (io_state w) k) \<and>
     io_lifecycle_byte (io_state w') = io_lifecycle_byte (io_state w) \<and>
     io_task_capacity (io_state w') = io_task_capacity (io_state w) \<and>
     io_submission_lock (io_state w') = io_submission_lock (io_state w) \<and>
     io_capacity_tx (io_state w') = io_capacity_tx (io_state w) \<and>
     termination_notify (io_state w') = termination_notify (io_state w)"

lemma io_lock_unlock: "\<not> io_submission_lock s \<Longrightarrow>
    io_lock_submission s = Some (s\<lparr>io_submission_lock := True\<rparr>) \<and>
    io_unlock_submission (s\<lparr>io_submission_lock := True\<rparr>) = s"
  by (cases s) (simp add: io_lock_submission_def io_unlock_submission_def)

lemma io_is_not_running_lock [simp]:
  "io_is_not_running (s\<lparr>io_submission_lock := b\<rparr>) = io_is_not_running s"
  by (simp add: io_is_not_running_def)

lemma prepare_spawn_rejects:
  assumes "\<not> io_submission_lock (io_state w)" and "io_admission_error ac w = Some e"
  shows "prepare_spawn dbg ac tk addr future w = Some (Inl (e, future), w)"
  using assms io_lock_unlock [OF assms(1)]
  by (auto simp: prepare_spawn_def io_admission_error_def io_try_accept_task_def split: if_splits)

lemma try_spawn_rejects:
  assumes "\<not> io_submission_lock (io_state w)" and "io_admission_error ac w = Some e"
  shows "try_spawn dbg ac tk addr future w = Some (Inl (rejected_new e future), w)"
  using prepare_spawn_rejects [OF assms, of dbg tk addr future] by (simp add: try_spawn_def)

lemma io_register_spec:
  assumes "io_registrations w addr = Some r" and "io_abort_handles (io_state w) addr = None"
  shows "\<exists>handles. io_register_abort_handle dbg fin addr h w =
      Some (w\<lparr>io_state := (io_state w)\<lparr>io_abort_handles := handles\<rparr>\<rparr>) \<and>
    (\<forall>k. k \<noteq> addr \<longrightarrow> handles k = io_abort_handles (io_state w) k) \<and>
    (\<forall>a. handles addr = Some a \<longrightarrow> io_tracked_marker a = addr)"
proof (cases "is_finished r \<or> fin h (io_outside w)")
  case True
  then show ?thesis using assms
    by (intro exI [of _ "io_abort_handles (io_state w)"]) (auto simp: io_register_abort_handle_def)
next
  case False
  then show ?thesis using assms
    by (intro exI [of _ "(io_abort_handles (io_state w))(addr \<mapsto> \<lparr>io_tracked_marker = addr, io_handle = h\<rparr>)"])
      (auto simp: io_register_abort_handle_def key_def Let_def)
qed

lemma io_on_outside_eq: "io_on_outside f w = (fst (f (io_outside w)), w\<lparr>io_outside := snd (f (io_outside w))\<rparr>)"
  by (simp add: io_on_outside_def split_beta)

lemma prepare_spawn_accepts:
  assumes ac: "counts_atomically ac" and w: "io_ready ac w"
    and err: "io_admission_error ac w = None" and fresh: "io_registrations w addr = None"
  obtains handoff w' where "prepare_spawn dbg ac tk addr future w = Some (Inr handoff, w')"
    "handoff_future handoff = future" "handoff_guard handoff = addr"
    "io_admitted addr w w'" "io_ready ac w'"
proof -
  note acc = w [unfolded io_ready_def, THEN conjunct1] and free = w [unfolded io_ready_def, THEN conjunct2]
  note D = io_accountedD [OF acc]
  have below: "unat (ac_get ac (active_tasks (io_state w))) < unat (io_task_capacity (io_state w))"
    and open_lc: "\<not> io_is_not_running (io_state w)"
    using err by (auto simp: io_admission_error_def word_le_nat_alt split: if_splits)
  have "unat (ac_get ac (active_tasks (io_state w))) + 1 < 2 ^ 64"
    using below unat_usize_less [of "io_task_capacity (io_state w)"] by linarith
  then obtain n where n: "ac_inc ac (active_tasks (io_state w)) = Some n"
    "unat (ac_get ac n) = unat (ac_get ac (active_tasks (io_state w))) + 1"
    using ac_inc_spec [OF ac] by metis
  have notin: "addr \<notin> open_registrations w" using fresh by (simp add: open_registrations_def)
  have untracked: "io_abort_handles (io_state w) addr = None" using D(4) notin by fastforce
  define s where "s = (io_state w)\<lparr>io_submission_lock := True, active_tasks := n\<rparr>"
  define x where "x = snd (io_spawn tk (snd (fst (io_channel tk (io_outside w)))) (snd (io_channel tk (io_outside w))))"
  define h where "h = fst (io_spawn tk (snd (fst (io_channel tk (io_outside w)))) (snd (io_channel tk (io_outside w))))"
  define v where "v = w\<lparr>io_state := s, io_registrations := (io_registrations w)(addr \<mapsto> registration_new),
    io_outside := x\<rparr>"
  have reg: "io_registrations v addr = Some registration_new" "io_abort_handles (io_state v) addr = None"
    using untracked by (simp_all add: v_def s_def)
  obtain handles where hs: "io_register_abort_handle dbg (io_handle_is_finished tk) addr
        (io_abort_handle_of tk h) v = Some (v\<lparr>io_state := (io_state v)\<lparr>io_abort_handles := handles\<rparr>\<rparr>)"
    "\<And>k. k \<noteq> addr \<Longrightarrow> handles k = io_abort_handles (io_state v) k"
    "\<And>a. handles addr = Some a \<Longrightarrow> io_tracked_marker a = addr"
    using io_register_spec [OF reg, of dbg "io_handle_is_finished tk" "io_abort_handle_of tk h"] by blast
  let ?w = "v\<lparr>io_state := s\<lparr>io_abort_handles := handles, io_submission_lock := False\<rparr>\<rparr>"
  let ?handoff = "handoff_new future h (fst (fst (io_channel tk (io_outside w)))) addr"
  have accept: "io_try_accept_task ac ((io_state w)\<lparr>io_submission_lock := True\<rparr>) = Some (True, s)"
    using below n(1) by (auto simp: io_try_accept_task_def s_def word_le_nat_alt)
  have "prepare_spawn dbg ac tk addr future w = Some (Inr ?handoff, ?w)"
    using hs(1) io_lock_unlock [OF free] open_lc accept
    by (simp add: prepare_spawn_def io_on_outside_eq io_guard_new_def io_map_state_def
        io_unlock_submission_def Let_def v_def x_def h_def split_beta)
  moreover have op: "open_registrations v = insert addr (open_registrations w)"
    using open_registrations_new [OF fresh] by (simp add: open_registrations_def v_def)
  moreover from this have "io_admitted addr w ?w"
    using hs(2) free by (simp add: io_admitted_def) (simp add: v_def s_def)
  moreover have "io_accounted ac ?w" unfolding io_accounted_def
  proof (intro conjI allI impI)
    show "finite (dom (io_registrations ?w))" using acc by (simp add: io_accounted_def v_def)
    show "unat (ac_get ac (active_tasks (io_state ?w))) = card (open_registrations ?w)"
      using D(1,2) n(2) notin by (simp add: op) (simp add: s_def)
    show "card (open_registrations ?w) \<le> unat (io_task_capacity (io_state ?w))"
      using D(1,2) below notin by (simp add: op) (simp add: s_def)
  next
    fix k a assume a: "io_abort_handles (io_state ?w) k = Some a"
    have old: "k \<noteq> addr \<Longrightarrow> io_abort_handles (io_state w) k = Some a"
      using a hs(2) by (simp add: v_def s_def)
    show "key (io_tracked_marker a) = k"
      using a hs(3) old acc by (cases "k = addr") (auto simp: io_accounted_def key_def)
    show "k \<in> open_registrations ?w"
      using D(4) old by (cases "k = addr") (auto simp: op)
  qed
  ultimately show ?thesis
    by (intro that [of ?handoff ?w]) (simp_all add: handoff_new_def io_ready_def)
qed

section \<open>The exits of an accepted future\<close>

lemma guarded_drop_releases:
  assumes "counts_atomically ac" and "io_accounted ac w" and "future_guard g \<in> open_registrations w"
  obtains w' where "guarded_drop ac tk g w = Some w'" "io_accounted ac w'"
    "io_released (future_guard g) (w\<lparr>io_outside := future_drop tk (user_future g) (io_outside w)\<rparr>) w'"
  using io_guard_drop_releases [OF assms(1), of "w\<lparr>io_outside := future_drop tk (user_future g) (io_outside w)\<rparr>"
      "future_guard g"] assms(2,3)
  by (auto simp: guarded_drop_def io_at_outside_def)

lemma io_releasedD:
  assumes "io_released k w w'"
  shows "open_registrations w' = open_registrations w - {k}" "io_outside w' = io_outside w"
    "io_submission_lock (io_state w') = io_submission_lock (io_state w)"
    "io_task_capacity (io_state w') = io_task_capacity (io_state w)"
    "io_lifecycle_byte (io_state w') = io_lifecycle_byte (io_state w)"
  using assms by (simp_all add: io_released_def)

lemma io_released_frame:
  assumes "io_released k (w\<lparr>io_outside := x\<rparr>) w'"
  shows "io_submission_lock (io_state w') = io_submission_lock (io_state w)"
    "io_task_capacity (io_state w') = io_task_capacity (io_state w)"
    "open_registrations w' = open_registrations w - {k}"
  using assms by (simp_all add: io_released_def)

text \<open>
  One poll of the user's future inside the spawned task: pending keeps the accounting, any
  other outcome (a value, an error, an unwinding panic) destroys the future, then releases.
\<close>

lemma poll_future_exits:
  assumes "counts_atomically ac" and "io_accounted ac w" and "future_guard g \<in> open_registrations w"
    and poll: "future_poll tk (user_future g) (io_outside w) = (polled, x)"
  shows "\<exists>task w'. poll_future ac tk g w = Some (map_option (map_Poll (map_err Failed)) polled, task, w') \<and>
    io_accounted ac w' \<and>
    (if polled = Some Pending then task = AwaitFuture g \<and> w' = w\<lparr>io_outside := x\<rparr>
     else task = TaskReturned \<and>
       io_released (future_guard g) (w\<lparr>io_outside := future_drop tk (user_future g) x\<rparr>) w')"
proof -
  let ?p = "map_option (map_Poll (map_err Failed)) polled"
  have eq: "poll_future ac tk g w = (if polled = Some Pending then Some (?p, AwaitFuture g, w\<lparr>io_outside := x\<rparr>)
      else do { w \<leftarrow> guarded_drop ac tk g (w\<lparr>io_outside := x\<rparr>); Some (?p, TaskReturned, w) })"
    using poll by (cases polled; cases "the polled")
      (simp_all add: poll_future_def io_on_outside_def guarded_poll_def Let_def)
  have "io_accounted ac (w\<lparr>io_outside := x\<rparr>)" "future_guard g \<in> open_registrations (w\<lparr>io_outside := x\<rparr>)"
    using assms(2,3) by simp_all
  then obtain w' where "guarded_drop ac tk g (w\<lparr>io_outside := x\<rparr>) = Some w'" "io_accounted ac w'"
    "io_released (future_guard g) (w\<lparr>io_outside := future_drop tk (user_future g) x\<rparr>) w'"
    by (rule guarded_drop_releases [OF assms(1), of "w\<lparr>io_outside := x\<rparr>" g tk]) simp
  then show ?thesis using eq assms(2) by auto
qed

section \<open>Stop\<close>

text \<open>
  The requests a stop sends, to the handles of \<open>sent\<close> in that order, and how they came to be
  sent: each entry of the map \<open>hs\<close> at most once, to a handle that was not finished at that
  moment; an entry left out was seen finished at some moment of the loop.
\<close>

definition requests :: "('r \<Rightarrow> 'x \<Rightarrow> 'x) \<Rightarrow> (usize \<times> 'r IoTrackedAbortHandle) list \<Rightarrow> 'x \<Rightarrow> 'x" where
  "requests abort sent x = fold (\<lambda>(k, a). abort (io_handle a)) sent x"

definition sends_to ::
  "('r \<Rightarrow> 'x \<Rightarrow> bool) \<Rightarrow> ('r \<Rightarrow> 'x \<Rightarrow> 'x) \<Rightarrow> (usize \<times> 'r IoTrackedAbortHandle) list
   \<Rightarrow> (usize \<times> 'r IoTrackedAbortHandle) set \<Rightarrow> 'x \<Rightarrow> bool" where
  "sends_to fin abort sent hs x \<longleftrightarrow> distinct (map fst sent) \<and> set sent \<subseteq> hs \<and>
     (\<forall>i < List.length sent. \<not> fin (io_handle (snd (sent ! i))) (requests abort (take i sent) x)) \<and>
     (\<forall>(k, a) \<in> hs - set sent. \<exists>i \<le> List.length sent. fin (io_handle a) (requests abort (take i sent) x))"

lemma sends_to_skip:
  assumes "sends_to fin abort sent hs x" and "fin (io_handle a) x"
  shows "sends_to fin abort sent (insert (k, a) hs) x"
proof -
  have "fin (io_handle a) (requests abort (take 0 sent) x)" using assms(2) by (simp add: requests_def)
  then have "\<exists>i \<le> List.length sent. fin (io_handle a) (requests abort (take i sent) x)" by blast
  with assms(1) show ?thesis unfolding sends_to_def by blast
qed

lemma sends_to_send:
  assumes "sends_to fin abort sent hs (abort (io_handle a) x)" and "\<not> fin (io_handle a) x" and "k \<notin> fst ` hs"
  shows "sends_to fin abort ((k, a) # sent) (insert (k, a) hs) x"
proof -
  have nth: "\<not> fin (io_handle (snd (((k, a) # sent) ! i))) (requests abort (take i ((k, a) # sent)) x)"
    if "i < List.length ((k, a) # sent)" for i
    using that assms(1,2) by (cases i) (auto simp: sends_to_def requests_def)
  have left: "\<exists>i \<le> List.length ((k, a) # sent). fin (io_handle b) (requests abort (take i ((k, a) # sent)) x)"
    if "(j, b) \<in> hs - set sent" for j b
  proof -
    from that assms(1) obtain i where "i \<le> List.length sent"
      "fin (io_handle b) (requests abort (take i sent) (abort (io_handle a) x))"
      unfolding sends_to_def by blast
    then show ?thesis by (intro exI [of _ "Suc i"]) (simp add: requests_def)
  qed
  show ?thesis using assms(1,3) nth left by (auto simp: sends_to_def)
qed

lemma io_abort_loop_spec:
  assumes "unat n + List.length ks < 2 ^ 64" and "distinct (map fst ks)"
  shows "\<exists>m sent. io_abort_loop dbg fin abort ks n w =
      Some (m, w\<lparr>io_outside := requests abort sent (io_outside w)\<rparr>) \<and>
    unat m = unat n + List.length sent \<and> sends_to fin abort sent (set ks) (io_outside w)"
  using assms
proof (induction ks arbitrary: n w)
  case Nil
  then show ?case by (intro exI [of _ n] exI [of _ "[]"]) (simp add: requests_def sends_to_def)
next
  case (Cons ka ks)
  obtain k a where [simp]: "ka = (k, a)" by (cases ka)
  show ?case
  proof (cases "fin (io_handle a) (io_outside w)")
    case True
    obtain m sent where "io_abort_loop dbg fin abort ks n w =
        Some (m, w\<lparr>io_outside := requests abort sent (io_outside w)\<rparr>)"
      "unat m = unat n + List.length sent" "sends_to fin abort sent (set ks) (io_outside w)"
      using Cons.IH [of n w] Cons.prems by auto
    with sends_to_skip [OF this(3) True, of k] True show ?thesis
      by (intro exI [of _ m] exI [of _ sent]) simp
  next
    case False
    have "unat n + unat (1 :: usize) < 2 ^ 64" using Cons.prems by simp
    then have add: "add_assign dbg n 1 = Some (n + 1)" and un: "unat (n + 1) = unat n + 1"
      by (simp_all add: add_assign_fits unat_usize_add)
    have small: "unat (n + 1) + List.length ks < 2 ^ 64" using Cons.prems un by simp
    let ?w = "w\<lparr>io_outside := abort (io_handle a) (io_outside w)\<rparr>"
    obtain m sent where m: "io_abort_loop dbg fin abort ks (n + 1) ?w =
        Some (m, ?w\<lparr>io_outside := requests abort sent (io_outside ?w)\<rparr>)"
      "unat m = unat (n + 1) + List.length sent" "sends_to fin abort sent (set ks) (io_outside ?w)"
      using Cons.IH [OF small, of ?w] Cons.prems(2) by auto
    have "k \<notin> fst ` set ks" using Cons.prems(2) by simp
    with sends_to_send [of fin abort sent "set ks" a "io_outside w" k] m(3) False
    have "sends_to fin abort ((k, a) # sent) (set (ka # ks)) (io_outside w)" by simp
    then show ?thesis using m(1,2) False add un
      by (intro exI [of _ m] exI [of _ "(k, a) # sent"]) (simp add: requests_def)
  qed
qed

text \<open>So the requests are at most the entries, and one for each when none is ever finished.\<close>

lemma sends_to_length:
  assumes "sends_to fin abort sent hs x" and "finite hs"
  shows "List.length sent \<le> card hs" and "\<forall>(k, a) \<in> hs. \<forall>x. \<not> fin (io_handle a) x \<Longrightarrow> List.length sent = card hs"
proof -
  have sub: "set sent \<subseteq> hs" and "distinct (map fst sent)" using assms(1) by (simp_all add: sends_to_def)
  then have len: "List.length sent = card (set sent)" by (simp add: distinct_map distinct_card)
  show "List.length sent \<le> card hs" using len card_mono [OF assms(2) sub] by simp
  assume unfinished: "\<forall>(k, a) \<in> hs. \<forall>x. \<not> fin (io_handle a) x"
  have "\<forall>(k, a) \<in> hs - set sent. \<exists>i. fin (io_handle a) (requests abort (take i sent) x)"
    using assms(1) unfolding sends_to_def by blast
  with unfinished have "hs - set sent = {}" by fastforce
  then have "hs \<subseteq> set sent" by simp
  with sub len show "List.length sent = card hs" by simp
qed

lemma iterates_length:
  assumes "iterates iter" and "finite (dom m)"
  shows "List.length (iter m) = card (dom m)"
proof -
  have "distinct (map fst (iter m))" "map_of (iter m) = m" using assms by (auto simp: iterates_def)
  then show ?thesis using distinct_card [of "map fst (iter m)"] by (metis dom_map_of_conv_image_fst length_map list.set_map)
qed

lemma io_stop_spec:
  assumes w: "io_ready ac w" and iter: "iterates iter"
  shows "\<exists>rep w'. io_stop dbg ac tk iter w = Some (rep, w') \<and> io_ready ac w' \<and>
    report_queued rep = 0 \<and> unat (report_running rep) = card (open_registrations w) \<and>
    report_cancelled rep \<le> report_running rep \<and>
    (\<exists>sent. sends_to (io_handle_is_finished tk) (io_abort tk) sent (Map.graph (io_abort_handles (io_state w))) (io_outside w) \<and>
       unat (report_cancelled rep) = List.length sent \<and> io_outside w' = requests (io_abort tk) sent (io_outside w)) \<and>
    ((\<forall>a \<in> ran (io_abort_handles (io_state w)). \<forall>x. \<not> io_handle_is_finished tk (io_handle a) x) \<longrightarrow>
       unat (report_cancelled rep) = card (dom (io_abort_handles (io_state w)))) \<and>
    io_registrations w' = io_registrations w \<and> io_abort_handles (io_state w') = Map.empty \<and>
    io_is_not_running (io_state w') \<and> io_task_capacity (io_state w') = io_task_capacity (io_state w) \<and>
    io_capacity_tx (io_state w') = io_capacity_tx (io_state w) + 1 \<and>
    termination_notify (io_state w') = Suc (termination_notify (io_state w))"
proof -
  note acc = w [unfolded io_ready_def, THEN conjunct1] and free = w [unfolded io_ready_def, THEN conjunct2]
  note D = io_accountedD [OF acc]
  let ?hs = "io_abort_handles (io_state w)"
  have sub: "dom ?hs \<subseteq> open_registrations w" using D(4) by blast
  then have fin: "finite (dom ?hs)" and le: "card (dom ?hs) \<le> card (open_registrations w)"
    using D(1) by (auto intro: finite_subset card_mono)
  have len: "List.length (iter ?hs) = card (dom ?hs)" by (rule iterates_length [OF iter fin])
  have small: "unat (0 :: usize) + List.length (iter ?hs) < 2 ^ 64"
    using len le D(2) unat_usize_less [of "ac_get ac (active_tasks (io_state w))"] by simp
  let ?v = "w\<lparr>io_state := (io_state_stop (io_state w))\<lparr>io_abort_handles := Map.empty\<rparr>\<rparr>"
  obtain m sent where loop: "io_abort_loop dbg (io_handle_is_finished tk) (io_abort tk) (iter ?hs) 0 ?v =
      Some (m, ?v\<lparr>io_outside := requests (io_abort tk) sent (io_outside w)\<rparr>)" "unat m = List.length sent"
    "sends_to (io_handle_is_finished tk) (io_abort tk) sent (set (iter ?hs)) (io_outside w)"
    using io_abort_loop_spec [OF small, of dbg "io_handle_is_finished tk" "io_abort tk" ?v] iter fin
    by (auto simp: iterates_def)
  let ?x = "requests (io_abort tk) sent (io_outside w)"
  have graph: "set (iter ?hs) = Map.graph ?hs"
    using iter fin by (metis graph_map_of_if_distinct_dom iterates_def)
  note sends = loop(3) [unfolded graph]
  have distinct: "distinct (map fst (iter ?hs))" using iter fin by (simp add: iterates_def)
  then have "card (set (iter ?hs)) = List.length (iter ?hs)" by (simp add: distinct_card distinct_map)
  then have finite_graph: "finite (Map.graph ?hs)" "card (Map.graph ?hs) = card (dom ?hs)"
    unfolding graph [symmetric] len by simp_all
  have all: "(\<forall>a \<in> ran ?hs. \<forall>x. \<not> io_handle_is_finished tk (io_handle a) x) \<longrightarrow> unat m = card (dom ?hs)"
  proof
    assume "\<forall>a \<in> ran ?hs. \<forall>x. \<not> io_handle_is_finished tk (io_handle a) x"
    then have "\<forall>(k, a) \<in> Map.graph ?hs. \<forall>x. \<not> io_handle_is_finished tk (io_handle a) x"
      by (auto dest: in_graphD intro: ranI)
    from sends_to_length(2) [OF sends finite_graph(1) this] finite_graph(2) loop(2)
    show "unat m = card (dom ?hs)" by simp
  qed
  have le_m: "unat m \<le> card (dom ?hs)" using sends_to_length(1) [OF sends finite_graph(1)] finite_graph(2) loop(2) by simp
  let ?s = "(io_state_stop (io_state w))\<lparr>io_abort_handles := Map.empty,
    io_capacity_tx := wrapping_add (io_capacity_tx (io_state w)) 1,
    termination_notify := Suc (termination_notify (io_state w))\<rparr>"
  have unlock: "io_unlock_submission (io_state_stop ((io_state w)\<lparr>io_submission_lock := True\<rparr>)) = io_state_stop (io_state w)"
    "active_tasks (io_state_stop ((io_state w)\<lparr>io_submission_lock := True\<rparr>)) = active_tasks (io_state w)"
    "io_abort_handles (io_state_stop (io_state w)) = ?hs" "io_capacity_tx (io_state_stop (io_state w)) = io_capacity_tx (io_state w)"
    "termination_notify (io_state_stop (io_state w)) = termination_notify (io_state w)"
    using free by (cases "io_state w", simp add: io_state_stop_def io_unlock_submission_def)+
  have "io_stop dbg ac tk iter w = Some (\<lparr>report_queued = 0,
      report_running = ac_get ac (active_tasks (io_state w)), report_cancelled = m\<rparr>,
      w\<lparr>io_state := ?s, io_outside := ?x\<rparr>)"
    using loop(1) io_lock_unlock [OF free] unlock
    by (simp add: io_stop_def io_abort_tracked_tasks_def io_map_state_def
        io_notify_capacity_changed_def io_notify_termination_waiters_def Let_def)
  moreover have "io_ready ac (w\<lparr>io_state := ?s, io_outside := ?x\<rparr>)"
    using acc free by (simp add: io_ready_def io_accounted_def io_state_stop_def)
  moreover have "m \<le> ac_get ac (active_tasks (io_state w))"
    using le_m le D(2) by (simp add: word_le_nat_alt)
  moreover have "io_is_not_running ?s"
    using is_not_running_updates(7) [of "state_with_task_capacity 0\<lparr>lifecycle_byte := io_lifecycle_byte (io_state w)\<rparr>"]
    by (simp add: io_is_not_running_def io_state_stop_def is_not_running_def state_stop_def)
  ultimately show ?thesis using all D(2) sends loop(2) by (simp add: io_state_stop_def wrapping_add_def) blast
qed

section \<open>Sequences of calls\<close>

datatype 'f io_call = IoSpawn usize 'f | IoPoll "'f TokioGuardedIoFuture" | IoDrop "'f TokioGuardedIoFuture"
  | IoShutdown | IoStop

fun exec_io_call ::
  "bool \<Rightarrow> 'n atomic_count \<Rightarrow> ('r, 'f, 'v, 'e, 'x) io_ops
   \<Rightarrow> ((usize \<rightharpoonup> 'r IoTrackedAbortHandle) \<Rightarrow> (usize \<times> 'r IoTrackedAbortHandle) list)
   \<Rightarrow> 'f io_call \<Rightarrow> ('n, 'r, 'x) io_world \<Rightarrow> ('n, 'r, 'x) io_world option" where
  "exec_io_call dbg ac tk iter (IoSpawn addr future) w = map_option snd (try_spawn dbg ac tk addr future w)"
| "exec_io_call dbg ac tk iter (IoPoll g) w = map_option (snd \<circ> snd) (poll_future ac tk g w)"
| "exec_io_call dbg ac tk iter (IoDrop g) w = guarded_drop ac tk g w"
| "exec_io_call dbg ac tk iter IoShutdown w = io_shutdown w"
| "exec_io_call dbg ac tk iter IoStop w = map_option snd (io_stop dbg ac tk iter w)"

text \<open>
  A new marker is allocated at an address without one; a future is polled and dropped by its
  owner only while its guard is not dropped.
\<close>

fun io_call_possible :: "'f io_call \<Rightarrow> ('n, 'r, 'x) io_world \<Rightarrow> bool" where
  "io_call_possible (IoSpawn addr future) w \<longleftrightarrow> io_registrations w addr = None"
| "io_call_possible (IoPoll g) w \<longleftrightarrow> future_guard g \<in> open_registrations w"
| "io_call_possible (IoDrop g) w \<longleftrightarrow> future_guard g \<in> open_registrations w"
| "io_call_possible IoShutdown w \<longleftrightarrow> True"
| "io_call_possible IoStop w \<longleftrightarrow> True"

inductive io_calls_reach ::
  "bool \<Rightarrow> 'n atomic_count \<Rightarrow> ('r, 'f, 'v, 'e, 'x) io_ops
   \<Rightarrow> ((usize \<rightharpoonup> 'r IoTrackedAbortHandle) \<Rightarrow> (usize \<times> 'r IoTrackedAbortHandle) list)
   \<Rightarrow> usize \<Rightarrow> ('n, 'r, 'x) io_world \<Rightarrow> bool"
  for dbg ac tk iter capacity where
  io_calls_new: "io_calls_reach dbg ac tk iter capacity (io_new ac capacity x)"
| io_calls_outside: "io_calls_reach dbg ac tk iter capacity w \<Longrightarrow>
    io_calls_reach dbg ac tk iter capacity (w\<lparr>io_outside := x\<rparr>)"
| io_calls_step: "io_calls_reach dbg ac tk iter capacity w \<Longrightarrow> io_call_possible c w \<Longrightarrow>
    exec_io_call dbg ac tk iter c w = Some w' \<Longrightarrow> io_calls_reach dbg ac tk iter capacity w'"

lemma io_ready_new: "counts_atomically ac \<Longrightarrow> io_ready ac (io_new ac capacity x)"
  by (simp add: io_ready_def io_accounted_def io_new_def io_state_with_task_capacity_def
      open_registrations_def counts_atomicallyD(1))

lemma io_ready_outside [simp]: "io_ready ac (w\<lparr>io_outside := x\<rparr>) = io_ready ac w"
  by (simp add: io_ready_def)

lemma io_ready_open: "io_ready ac w \<Longrightarrow> io_accounted ac w" "io_ready ac w \<Longrightarrow> \<not> io_submission_lock (io_state w)"
  by (simp_all add: io_ready_def)

text \<open>Delivery: the payload is sent, or comes back and is destroyed on the spot.\<close>

lemma deliver_spec:
  assumes ac: "counts_atomically ac" and w: "io_ready ac w"
    and open_g: "handoff_guard handoff \<in> open_registrations w"
    and send: "io_send tk (handoff_sender handoff)
      (guarded_new (handoff_future handoff) (handoff_guard handoff)) (io_outside w) = (sent, x)"
  shows "\<exists>w'. deliver ac tk handoff w = Some (task_handle_new (handoff_handle handoff), w') \<and>
    io_ready ac w' \<and> io_task_capacity (io_state w') = io_task_capacity (io_state w) \<and>
    (if sent then w' = w\<lparr>io_outside := x\<rparr>
     else io_released (handoff_guard handoff)
       (w\<lparr>io_outside := future_drop tk (handoff_future handoff) x\<rparr>) w')"
proof -
  let ?g = "guarded_new (handoff_future handoff) (handoff_guard handoff)"
  let ?w = "w\<lparr>io_outside := x\<rparr>"
  have eq: "deliver ac tk handoff w = (if sent then Some (task_handle_new (handoff_handle handoff), ?w)
      else map_option (Pair (task_handle_new (handoff_handle handoff))) (guarded_drop ac tk ?g ?w))"
    using send by (cases "guarded_drop ac tk ?g ?w") (auto simp: deliver_def io_on_outside_def Let_def)
  have "io_accounted ac ?w" "future_guard ?g \<in> open_registrations ?w"
    using w open_g by (simp_all add: io_ready_def guarded_new_def)
  then obtain w' where "guarded_drop ac tk ?g ?w = Some w'" "io_accounted ac w'"
    "io_released (future_guard ?g) (?w\<lparr>io_outside := future_drop tk (user_future ?g) (io_outside ?w)\<rparr>) w'"
    by (rule guarded_drop_releases [OF ac, of ?w ?g tk])
  then show ?thesis using eq w by (auto simp: guarded_new_def io_ready_def io_released_frame)
qed

lemma try_spawn_ready:
  assumes ac: "counts_atomically ac" and w: "io_ready ac w" and fresh: "io_registrations w addr = None"
  shows "\<exists>res w'. try_spawn dbg ac tk addr future w = Some (res, w') \<and> io_ready ac w' \<and>
    io_task_capacity (io_state w') = io_task_capacity (io_state w)"
proof (cases "io_admission_error ac w")
  case (Some e)
  with prepare_spawn_rejects [OF io_ready_open(2) [OF w] Some, of dbg tk addr future] w show ?thesis
    by (simp add: try_spawn_def)
next
  case None
  obtain handoff v where v: "prepare_spawn dbg ac tk addr future w = Some (Inr handoff, v)"
    "handoff_guard handoff = addr" "io_admitted addr w v" "io_ready ac v"
    by (rule prepare_spawn_accepts [OF ac w None fresh])
  have "handoff_guard handoff \<in> open_registrations v" using v(2,3) by (simp add: io_admitted_def)
  from deliver_spec [OF ac v(4) this surjective_pairing, of tk] v(1,3) show ?thesis
    by (auto simp: try_spawn_def io_admitted_def)
qed

lemma io_shutdown_spec:
  assumes "io_ready ac w"
  shows "\<exists>w'. io_shutdown w = Some w' \<and> io_ready ac w' \<and> io_is_not_running (io_state w') \<and>
    open_registrations w' = open_registrations w \<and> io_task_capacity (io_state w') = io_task_capacity (io_state w)"
proof -
  have "io_is_not_running (io_state_shutdown s)" for s :: "('n, 'h) TokioIoExecutorServiceState"
    using is_not_running_updates(6) [of "state_with_task_capacity 0\<lparr>lifecycle_byte := io_lifecycle_byte s\<rparr>"]
    by (simp add: io_is_not_running_def io_state_shutdown_def is_not_running_def state_shutdown_def)
  then show ?thesis using assms io_lock_unlock [of "io_state w"]
    by (auto simp: io_shutdown_def io_ready_def io_accounted_def io_state_shutdown_def io_is_not_running_def
        io_unlock_submission_def io_notify_capacity_changed_def io_notify_termination_waiters_def Let_def)
qed

lemma exec_io_call_ready:
  assumes ac: "counts_atomically ac" and w: "io_ready ac w" and "io_call_possible c w" and "iterates iter"
  shows "\<exists>w'. exec_io_call dbg ac tk iter c w = Some w' \<and> io_ready ac w' \<and>
    io_task_capacity (io_state w') = io_task_capacity (io_state w)"
proof (cases c)
  case (IoSpawn addr future)
  with try_spawn_ready [OF ac w, of addr dbg tk future] assms(3) show ?thesis by auto
next
  case (IoPoll g)
  then have "future_guard g \<in> open_registrations w" using assms(3) by simp
  from poll_future_exits [OF ac io_ready_open(1) [OF w] this surjective_pairing, of tk] show ?thesis
    using IoPoll w by (auto simp: io_ready_def io_released_frame split: if_splits)
next
  case (IoDrop g)
  then have "future_guard g \<in> open_registrations w" using assms(3) by simp
  from guarded_drop_releases [OF ac io_ready_open(1) [OF w] this, of tk] obtain w' where
    "guarded_drop ac tk g w = Some w'" "io_accounted ac w'"
    "io_released (future_guard g) (w\<lparr>io_outside := future_drop tk (user_future g) (io_outside w)\<rparr>) w'" .
  then show ?thesis using IoDrop w by (auto simp: io_ready_def io_released_frame)
next
  case IoShutdown
  with io_shutdown_spec [OF w] show ?thesis by auto
next
  case IoStop
  with io_stop_spec [OF w assms(4), of dbg tk] show ?thesis by auto
qed

lemma io_calls_reach_ready:
  assumes "io_calls_reach dbg ac tk iter capacity w" and "counts_atomically ac" and "iterates iter"
  shows "io_ready ac w \<and> io_task_capacity (io_state w) = capacity"
  using assms(1)
proof (induction rule: io_calls_reach.induct)
  case (io_calls_new x)
  show ?case using io_ready_new [OF assms(2)] by (simp add: io_new_def io_state_with_task_capacity_def)
next
  case (io_calls_step w c w')
  then show ?case using exec_io_call_ready [OF assms(2) _ io_calls_step(2) assms(3), of dbg tk] by auto
qed simp

section \<open>A small Tokio\<close>

text \<open>
  Instances for the witnesses: one channel holding at most one payload, and the log of the
  futures destroyed. Future 0 stays pending, 1 returns 7, any other one panics.
\<close>

type_synonym demo_io = "nat TokioGuardedIoFuture option \<times> nat list"

definition demo_io_ops :: "(nat, nat, nat, nat, demo_io) io_ops" where
  "demo_io_ops = \<lparr>io_channel = (\<lambda>x. ((0, 0), x)), io_spawn = (\<lambda>r x. (r, x)), io_abort_handle_of = id,
     io_send = (\<lambda>r p x. (False, x)), sender_drop = (\<lambda>r x. x),
     recv_poll = (\<lambda>r x. (Pending, x)), receiver_drop = (\<lambda>r x. (fst x, (None, snd x))),
     future_poll = (\<lambda>f x. (if f = 0 then Some Pending else if f = 1 then Some (Ready (Inr 7)) else None, x)),
     future_drop = (\<lambda>f x. (fst x, f # snd x)),
     io_handle_is_finished = (\<lambda>h x. False), io_abort = (\<lambda>h x. x)\<rparr>"

definition demo_io_new :: "(usize, nat, demo_io) io_world" where
  "demo_io_new = io_new word_count 1 (None, [])"

lemma demo_io_new_facts:
  "io_ready word_count demo_io_new" "io_admission_error word_count demo_io_new = None"
  "io_registrations demo_io_new addr = None" "io_outside demo_io_new = (None, [])"
  using io_ready_new [OF word_count_ok, of 1 "(None, [])"]
  by (simp_all add: demo_io_new_def io_new_def io_admission_error_def io_state_with_task_capacity_def
      word_count_def io_is_not_running_def)

text \<open>A service with one accepted future, which is not yet delivered.\<close>

definition demo_io_held :: "(usize, nat, demo_io) io_world" where
  "demo_io_held = snd (the (prepare_spawn True word_count demo_io_ops 16 1 demo_io_new))"

lemma demo_io_held_facts: "io_ready word_count demo_io_held" "open_registrations demo_io_held = {16}"
proof -
  obtain h v where "prepare_spawn True word_count demo_io_ops 16 1 demo_io_new = Some (Inr h, v)"
    "io_admitted 16 demo_io_new v" "io_ready word_count v"
    by (rule prepare_spawn_accepts [OF word_count_ok demo_io_new_facts(1-3), where dbg = True
          and tk = demo_io_ops and addr = 16 and future = 1])
  moreover have "open_registrations demo_io_new = {}"
    by (simp add: open_registrations_def demo_io_new_facts(3))
  ultimately show "io_ready word_count demo_io_held" "open_registrations demo_io_held = {16}"
    by (simp_all add: demo_io_held_def io_admitted_def)
qed

text \<open>Admission of a future, with either outcome of the delivery.\<close>

lemma try_spawn_accepts:
  assumes "counts_atomically ac" and "io_ready ac w" and "io_admission_error ac w = None"
    and "io_registrations w addr = None"
  shows "\<exists>handoff v w' sent x. prepare_spawn dbg ac tk addr future w = Some (Inr handoff, v) \<and>
    io_admitted addr w v \<and> accepted_unfinished (io_stats ac v) = accepted_unfinished (io_stats ac w) + 1 \<and>
    io_send tk (handoff_sender handoff) \<lparr>user_future = future, future_guard = addr\<rparr> (io_outside v) = (sent, x) \<and>
    try_spawn dbg ac tk addr future w = Some (Inr \<lparr>join_handle = handoff_handle handoff\<rparr>, w') \<and>
    (if sent then w' = v\<lparr>io_outside := x\<rparr>
     else io_released addr (v\<lparr>io_outside := future_drop tk future x\<rparr>) w')"
proof -
  obtain handoff v where v: "prepare_spawn dbg ac tk addr future w = Some (Inr handoff, v)"
    "handoff_future handoff = future" "handoff_guard handoff = addr" "io_admitted addr w v" "io_ready ac v"
    by (rule prepare_spawn_accepts [OF assms])
  have op: "open_registrations v = insert addr (open_registrations w)" using v(4) by (simp add: io_admitted_def)
  have "addr \<notin> open_registrations w" using assms(4) by (simp add: open_registrations_def)
  then have "unat (ac_get ac (active_tasks (io_state v))) = unat (ac_get ac (active_tasks (io_state w))) + 1"
    using io_accountedD(1,2) [OF io_ready_open(1) [OF assms(2)]] io_accountedD(2) [OF io_ready_open(1) [OF v(5)]]
    by (simp add: op)
  then have count: "ac_get ac (active_tasks (io_state v)) = ac_get ac (active_tasks (io_state w)) + 1"
    by (rule usize_succ_eq)
  have open_g: "handoff_guard handoff \<in> open_registrations v" using op v(3) by simp
  obtain sent x where send: "io_send tk (handoff_sender handoff)
      (guarded_new (handoff_future handoff) (handoff_guard handoff)) (io_outside v) = (sent, x)" by fastforce
  from deliver_spec [OF assms(1) v(5) open_g send] obtain w' where
    "deliver ac tk handoff v = Some (task_handle_new (handoff_handle handoff), w')"
    "if sent then w' = v\<lparr>io_outside := x\<rparr>
     else io_released (handoff_guard handoff) (v\<lparr>io_outside := future_drop tk (handoff_future handoff) x\<rparr>) w'"
    by blast
  with v count send show ?thesis
    by - (rule exI [of _ handoff], rule exI [of _ v], rule exI [of _ w'], rule exI [of _ sent],
        rule exI [of _ x], auto simp: try_spawn_def io_stats_def io_state_stats_def guarded_new_def
        task_handle_new_def)
qed

section \<open>Properties\<close>

text \<open>
  C31: A refused future comes back. With the submission lock free and an admission error
  (shutdown before saturation), \<^verbatim>\<open>try_spawn\<close> returns exactly the reason and the same future and
  changes nothing; \<^verbatim>\<open>spawn\<close> returns the reason, and only drops the future it consumed.
\<close>
theorem io_rejection_returns_future:
  assumes "\<not> io_submission_lock (io_state w)" and "io_admission_error ac w = Some e"
  shows "try_spawn dbg ac tk addr future w = Some (Inl \<lparr>rejected_reason = e, rejected_task = future\<rparr>, w) \<and>
    spawn dbg ac tk addr future w =
      Some (Inl e, w\<lparr>io_outside := future_drop tk future (io_outside w)\<rparr>)"
  using prepare_spawn_rejects [OF assms, of dbg tk addr future] try_spawn_rejects [OF assms, of dbg tk addr future]
  by (simp add: spawn_def io_at_outside_def) (simp add: rejected_new_def)

theorem io_rejection_returns_future_witness:
  "try_spawn True word_count demo_io_ops 16 1 (io_new word_count 0 (None, [])) =
     Some (Inl \<lparr>rejected_reason = Saturated, rejected_task = 1\<rparr>, io_new word_count 0 (None, []))"
  using io_rejection_returns_future [of "io_new word_count 0 (None, [])" word_count Saturated True demo_io_ops 16 1]
  by (simp add: io_new_def io_admission_error_def io_state_with_task_capacity_def word_count_def io_is_not_running_def)

text \<open>
  C32: Admission of a future. An open service below its capacity accepts: it opens exactly the
  new registration, counts it, publishes nothing, and returns the spawned task's handle. A
  payload the channel refuses is destroyed on the spot, the future before its registration
  is released; a delivered one stays counted.
\<close>
theorem io_admissible_future_is_accepted:
  assumes "counts_atomically ac" and "io_ready ac w" and "io_admission_error ac w = None"
    and "io_registrations w addr = None"
  shows "\<exists>handoff v w' sent x. prepare_spawn dbg ac tk addr future w = Some (Inr handoff, v) \<and>
    io_admitted addr w v \<and> accepted_unfinished (io_stats ac v) = accepted_unfinished (io_stats ac w) + 1 \<and>
    io_send tk (handoff_sender handoff) \<lparr>user_future = future, future_guard = addr\<rparr> (io_outside v) = (sent, x) \<and>
    try_spawn dbg ac tk addr future w = Some (Inr \<lparr>join_handle = handoff_handle handoff\<rparr>, w') \<and>
    (if sent then w' = v\<lparr>io_outside := x\<rparr>
     else io_released addr (v\<lparr>io_outside := future_drop tk future x\<rparr>) w')"
  by (rule try_spawn_accepts [OF assms])

theorem io_admissible_future_is_accepted_witness:
  "\<exists>handoff v. prepare_spawn True word_count demo_io_ops 16 1 demo_io_new = Some (Inr handoff, v) \<and>
     accepted_unfinished (io_stats word_count v) = accepted_unfinished (io_stats word_count demo_io_new) + 1"
  using io_admissible_future_is_accepted [OF word_count_ok demo_io_new_facts(1-3), of True demo_io_ops 16 1]
  by blast

text \<open>
  C34: The stop report of the IO service. A stop reports no queued task, the accepted
  unfinished futures as running, and as cancelled the abort requests it sent. It has sent
  exactly those, and nothing else outside the service has changed: at most one for each
  tracked handle, none to a handle that was finished at that moment, and a handle left out was
  seen finished. So they are never more than the running futures, and one for every tracked
  handle when none of them has finished. The stop releases no accounting itself: the slots
  stay taken until the futures are destroyed.
\<close>
theorem io_stop_report_is_exact:
  assumes "io_ready ac w" and "iterates iter"
  shows "\<exists>rep w'. io_stop dbg ac tk iter w = Some (rep, w') \<and> io_ready ac w' \<and>
    report_queued rep = 0 \<and> unat (report_running rep) = card (open_registrations w) \<and>
    report_cancelled rep \<le> report_running rep \<and>
    (\<exists>sent. sends_to (io_handle_is_finished tk) (io_abort tk) sent (Map.graph (io_abort_handles (io_state w))) (io_outside w) \<and>
       unat (report_cancelled rep) = List.length sent \<and> io_outside w' = requests (io_abort tk) sent (io_outside w)) \<and>
    ((\<forall>a \<in> ran (io_abort_handles (io_state w)). \<forall>x. \<not> io_handle_is_finished tk (io_handle a) x) \<longrightarrow>
       unat (report_cancelled rep) = card (dom (io_abort_handles (io_state w)))) \<and>
    io_registrations w' = io_registrations w \<and> io_abort_handles (io_state w') = Map.empty \<and>
    io_service_is_not_running w' \<and> termination_notify (io_state w') = Suc (termination_notify (io_state w))"
  using io_stop_spec [OF assms] unfolding io_service_is_not_running_def by blast

theorem io_stop_report_is_exact_witness:
  "\<exists>rep w'. io_stop True word_count demo_io_ops sorted_iter demo_io_held = Some (rep, w') \<and>
     unat (report_running rep) = 1 \<and> report_cancelled rep \<le> report_running rep"
  using io_stop_report_is_exact [OF demo_io_held_facts(1) iterates_sorted_iter]
  by (simp add: demo_io_held_facts(2)) blast

text \<open>
  C35: Invariant and totality of the calls. From a new service, after any sequence of
  submissions, polls, drops, shutdowns and stops, with the outside world changing at will in
  between, the counter is the number of unreleased registrations, at most the capacity; the
  submission lock is free; every tracked handle belongs to an unreleased registration; and
  every further possible call returns without a panic.
\<close>
theorem io_calls_keep_accounting:
  assumes "io_calls_reach dbg ac tk iter capacity w" and "counts_atomically ac" and "iterates iter"
  shows "unat (accepted_unfinished (io_stats ac w)) = card (open_registrations w) \<and>
    card (open_registrations w) \<le> unat capacity \<and> \<not> io_submission_lock (io_state w) \<and>
    dom (io_abort_handles (io_state w)) \<subseteq> open_registrations w \<and>
    (io_call_possible c w \<longrightarrow> (\<exists>w'. exec_io_call dbg ac tk iter c w = Some w'))"
proof -
  have r: "io_ready ac w" "io_task_capacity (io_state w) = capacity"
    using io_calls_reach_ready [OF assms] by simp_all
  note acc = io_ready_open(1) [OF r(1)]
  have "io_call_possible c w \<Longrightarrow> \<exists>w'. exec_io_call dbg ac tk iter c w = Some w'"
    using exec_io_call_ready [OF assms(2) r(1) _ assms(3)] by blast
  then show ?thesis using io_accountedD(2,3) [OF acc] io_accountedD(4) [OF acc] r
    by (auto simp: io_stats_def io_state_stats_def io_ready_def)
qed

theorem io_calls_keep_accounting_witness:
  "\<exists>w'. exec_io_call True word_count demo_io_ops sorted_iter IoStop (io_new word_count 1 (None, [])) = Some w'"
  using io_calls_keep_accounting [OF io_calls_new [where x = "(None, [])"] word_count_ok iterates_sorted_iter, where dbg = True and
      tk = demo_io_ops and capacity = 1 and c = IoStop]
  by simp

text \<open>
  A stop between registration and delivery. The task is registered but its future still
  with the submitter: the stop leaves its slot taken; the later delivery that the aborted
  task no longer receives, or the drop of the handoff, destroys the future and only then
  frees the slot.
\<close>
lemma io_stop_before_delivery_keeps_slot:
  assumes "counts_atomically ac" and "iterates iter" and "io_ready ac w"
    and "handoff_guard handoff \<in> open_registrations w"
  shows "\<exists>rep v. io_stop dbg ac tk iter w = Some (rep, v) \<and> open_registrations v = open_registrations w \<and>
    (\<forall>x. io_send tk (handoff_sender handoff)
          \<lparr>user_future = handoff_future handoff, future_guard = handoff_guard handoff\<rparr> (io_outside v) = (False, x) \<longrightarrow>
       (\<exists>w'. deliver ac tk handoff v = Some (\<lparr>join_handle = handoff_handle handoff\<rparr>, w') \<and>
          io_released (handoff_guard handoff) (v\<lparr>io_outside := future_drop tk (handoff_future handoff) x\<rparr>) w')) \<and>
    (\<exists>w'. handoff_drop ac tk handoff v = Some w' \<and>
       io_released (handoff_guard handoff)
         (v\<lparr>io_outside := sender_drop tk (handoff_sender handoff)
              (future_drop tk (handoff_future handoff) (io_outside v))\<rparr>) w')"
proof -
  obtain rep v where v: "io_stop dbg ac tk iter w = Some (rep, v)" "io_ready ac v"
    "io_registrations v = io_registrations w" using io_stop_spec [OF assms(3,2)] by blast
  have op: "open_registrations v = open_registrations w" using v(3) by (simp add: open_registrations_def)
  then have open_g: "handoff_guard handoff \<in> open_registrations v" using assms(4) by simp
  have "\<exists>w'. deliver ac tk handoff v = Some (\<lparr>join_handle = handoff_handle handoff\<rparr>, w') \<and>
      io_released (handoff_guard handoff) (v\<lparr>io_outside := future_drop tk (handoff_future handoff) x\<rparr>) w'"
    if "io_send tk (handoff_sender handoff)
      \<lparr>user_future = handoff_future handoff, future_guard = handoff_guard handoff\<rparr> (io_outside v) = (False, x)" for x
    using deliver_spec [OF assms(1) v(2) open_g, of tk False x] that
    by (auto simp: guarded_new_def task_handle_new_def)
  moreover let ?v = "v\<lparr>io_outside := sender_drop tk (handoff_sender handoff)
      (future_drop tk (handoff_future handoff) (io_outside v))\<rparr>"
  have "io_accounted ac ?v" "handoff_guard handoff \<in> open_registrations ?v"
    using v(2) open_g by (simp_all add: io_ready_def)
  then obtain w' where "io_guard_drop ac (handoff_guard handoff) ?v = Some w'"
    "io_released (handoff_guard handoff) ?v w'"
    using io_guard_drop_releases [OF assms(1)] by metis
  then have "\<exists>w'. handoff_drop ac tk handoff v = Some w' \<and> io_released (handoff_guard handoff) ?v w'"
    by (simp add: handoff_drop_def io_at_outside_def)
  ultimately show ?thesis using v(1) op by blast
qed

end
