(* ===== verification/Io_Reentrant_Wakers.thy ===== *)
theory Io_Reentrant_Wakers
  imports Io_Calls
begin

text \<open>
  The IO service with its wakers, as theory \<open>Reentrant_Wakers\<close> does it. The notifications also
  come from the drop of a guard, on a service that may still be open, where a waker may submit
  a future and have it accepted. Theory \<open>Io_Reentrant_Claims\<close> has the wakers that may reenter,
  theory \<open>Io_Exits\<close> one that watches the end of a future.
\<close>

type_synonym ('n, 'r, 'x) io_waker = "('n, 'r, 'x) io_world \<Rightarrow> ('n, 'r, 'x) io_world option"

section \<open>The operations with their wakers\<close>

definition io_publish_waking :: "('n, 'r, 'x) io_waker \<Rightarrow> ('n, 'r, 'x) io_world \<Rightarrow> ('n, 'r, 'x) io_world option" where
  "io_publish_waking waker w = waker (io_map_state io_notify_capacity_changed w)"

definition io_notify_waking :: "('n, 'r, 'x) io_waker \<Rightarrow> ('n, 'r, 'x) io_world \<Rightarrow> ('n, 'r, 'x) io_world option" where
  "io_notify_waking waker w = waker (io_map_state io_notify_termination_waiters w)"

definition io_guard_drop_waking ::
  "'n atomic_count \<Rightarrow> ('n, 'r, 'x) io_waker \<Rightarrow> usize \<Rightarrow> ('n, 'r, 'x) io_world \<Rightarrow> ('n, 'r, 'x) io_world option" where
  "io_guard_drop_waking ac waker guard w = do {
     w \<leftarrow> io_remove_abort_handle guard w;
     n \<leftarrow> ac_dec ac (active_tasks (io_state w));
     let w = io_map_state (\<lambda>s. s\<lparr>active_tasks := n\<rparr>) w;
     w \<leftarrow> io_publish_waking waker w;
     io_notify_waking waker w
   }"

text \<open>
  The user's code runs on the same threads: a future may call its service while it is polled,
  and so may its destructor.
\<close>

definition guarded_drop_waking ::
  "'n atomic_count \<Rightarrow> ('r, 'f, 'v, 'e, 'x) io_ops \<Rightarrow> ('n, 'r, 'x) io_waker \<Rightarrow> 'f TokioGuardedIoFuture
   \<Rightarrow> ('n, 'r, 'x) io_world \<Rightarrow> ('n, 'r, 'x) io_world option" where
  "guarded_drop_waking ac tk waker this w = do {
     w \<leftarrow> waker (io_at_outside (future_drop tk (user_future this)) w);
     io_guard_drop_waking ac waker (future_guard this) w
   }"

definition poll_future_waking ::
  "'n atomic_count \<Rightarrow> ('r, 'f, 'v, 'e, 'x) io_ops \<Rightarrow> ('n, 'r, 'x) io_waker \<Rightarrow> 'f TokioGuardedIoFuture
   \<Rightarrow> ('n, 'r, 'x) io_world
   \<Rightarrow> (('v, 'e) TaskResult Poll option \<times> ('r, 'f) io_task \<times> ('n, 'r, 'x) io_world) option" where
  "poll_future_waking ac tk waker future w =
     (let (polled, w) = io_on_outside (guarded_poll tk future) w
      in do {
        w \<leftarrow> waker w;
        if polled = Some Pending then Some (polled, AwaitFuture future, w)
        else do {
          w \<leftarrow> guarded_drop_waking ac tk waker future w;
          Some (polled, TaskReturned, w)
        }
      })"

definition poll_task_waking ::
  "'n atomic_count \<Rightarrow> ('r, 'f, 'v, 'e, 'x) io_ops \<Rightarrow> ('n, 'r, 'x) io_waker \<Rightarrow> ('r, 'f) io_task
   \<Rightarrow> ('n, 'r, 'x) io_world
   \<Rightarrow> (('v, 'e) TaskResult Poll option \<times> ('r, 'f) io_task \<times> ('n, 'r, 'x) io_world) option" where
  "poll_task_waking ac tk waker task w =
     (case task of
        AwaitReceiver receiver \<Rightarrow>
          (let (received, w) = io_on_outside (recv_poll tk receiver) w
           in case received of
                Pending \<Rightarrow> Some (Some Pending, AwaitReceiver receiver, w)
              | Ready (Some future) \<Rightarrow> poll_future_waking ac tk waker future w
              | Ready None \<Rightarrow> Some (Some (Ready (Inl Cancelled)), TaskReturned, w))
      | AwaitFuture future \<Rightarrow> poll_future_waking ac tk waker future w
      | TaskReturned \<Rightarrow> None)"

definition drop_task_waking ::
  "'n atomic_count \<Rightarrow> ('r, 'f, 'v, 'e, 'x) io_ops \<Rightarrow> ('n, 'r, 'x) io_waker \<Rightarrow> ('r, 'f) io_task
   \<Rightarrow> ('n, 'r, 'x) io_world \<Rightarrow> ('n, 'r, 'x) io_world option" where
  "drop_task_waking ac tk waker task w =
     (case task of
        AwaitReceiver receiver \<Rightarrow>
          (let (undelivered, w) = io_on_outside (receiver_drop tk receiver) w
           in case undelivered of Some future \<Rightarrow> guarded_drop_waking ac tk waker future w | None \<Rightarrow> Some w)
      | AwaitFuture future \<Rightarrow> guarded_drop_waking ac tk waker future w
      | TaskReturned \<Rightarrow> Some w)"

definition deliver_waking ::
  "'n atomic_count \<Rightarrow> ('r, 'f, 'v, 'e, 'x) io_ops \<Rightarrow> ('n, 'r, 'x) io_waker \<Rightarrow> ('r, 'f) TokioIoSpawnHandoff
   \<Rightarrow> ('n, 'r, 'x) io_world \<Rightarrow> ('r TokioTaskHandle \<times> ('n, 'r, 'x) io_world) option" where
  "deliver_waking ac tk waker self w = do {
     let payload = guarded_new (handoff_future self) (handoff_guard self);
     let (sent, w) = io_on_outside (io_send tk (handoff_sender self) payload) w;
     w \<leftarrow> (if sent then Some w else guarded_drop_waking ac tk waker payload w);
     Some (task_handle_new (handoff_handle self), w)
   }"

definition try_spawn_waking ::
  "bool \<Rightarrow> 'n atomic_count \<Rightarrow> ('r, 'f, 'v, 'e, 'x) io_ops \<Rightarrow> ('n, 'r, 'x) io_waker \<Rightarrow> usize \<Rightarrow> 'f
   \<Rightarrow> ('n, 'r, 'x) io_world \<Rightarrow> (('f RejectedTask + 'r TokioTaskHandle) \<times> ('n, 'r, 'x) io_world) option" where
  "try_spawn_waking dbg ac tk waker addr future w = do {
     (prepared, w) \<leftarrow> prepare_spawn dbg ac tk addr future w;
     case prepared of
       Inl (why, future) \<Rightarrow> Some (Inl (rejected_new why future), w)
     | Inr handoff \<Rightarrow> do {
         (h, w) \<leftarrow> deliver_waking ac tk waker handoff w;
         Some (Inr h, w)
       }
   }"

definition io_shutdown_waking :: "('n, 'r, 'x) io_waker \<Rightarrow> ('n, 'r, 'x) io_world \<Rightarrow> ('n, 'r, 'x) io_world option" where
  "io_shutdown_waking waker w = do {
     s \<leftarrow> io_lock_submission (io_state w);
     let w = w\<lparr>io_state := io_unlock_submission (io_state_shutdown s)\<rparr>;
     w \<leftarrow> io_publish_waking waker w;
     io_notify_waking waker w
   }"

definition io_stop_waking ::
  "bool \<Rightarrow> 'n atomic_count \<Rightarrow> ('r, 'f, 'v, 'e, 'x) io_ops
   \<Rightarrow> ((usize \<rightharpoonup> 'r IoTrackedAbortHandle) \<Rightarrow> (usize \<times> 'r IoTrackedAbortHandle) list)
   \<Rightarrow> ('n, 'r, 'x) io_waker \<Rightarrow> ('n, 'r, 'x) io_world \<Rightarrow> (StopReport \<times> ('n, 'r, 'x) io_world) option" where
  "io_stop_waking dbg ac tk iter waker w = do {
     s \<leftarrow> io_lock_submission (io_state w);
     let s = io_state_stop s;
     let running = ac_get ac (active_tasks s);
     let w = w\<lparr>io_state := io_unlock_submission s\<rparr>;
     (cancellation_count, w) \<leftarrow> io_abort_tracked_tasks dbg iter (io_handle_is_finished tk) (io_abort tk) w;
     w \<leftarrow> io_publish_waking waker w;
     w \<leftarrow> io_notify_waking waker w;
     Some (\<lparr>report_queued = 0, report_running = running, report_cancelled = cancellation_count\<rparr>, w)
   }"

section \<open>Without wakers, the operations are the plain ones\<close>

lemma io_publish_quiet [simp]: "io_publish_waking Some w = Some (io_map_state io_notify_capacity_changed w)"
  by (simp add: io_publish_waking_def)

lemma io_notify_quiet [simp]: "io_notify_waking Some w = Some (io_map_state io_notify_termination_waiters w)"
  by (simp add: io_notify_waking_def)

lemma io_guard_drop_quiet: "io_guard_drop_waking ac Some k w = io_guard_drop ac k w"
  by (simp add: io_guard_drop_waking_def io_guard_drop_def Let_def)

lemma guarded_drop_quiet: "guarded_drop_waking ac tk Some = guarded_drop ac tk"
  by (intro ext) (simp add: guarded_drop_waking_def guarded_drop_def io_guard_drop_quiet)

lemma poll_future_quiet: "poll_future_waking ac tk Some future w = poll_future ac tk future w"
  by (simp add: poll_future_waking_def poll_future_def guarded_drop_quiet split_beta Let_def)

lemma task_quiet:
  "poll_task_waking ac tk Some task w = poll_task ac tk task w"
  "drop_task_waking ac tk Some task w = drop_task ac tk task w"
proof -
  have "poll_future_waking ac tk Some = poll_future ac tk" by (intro ext) (rule poll_future_quiet)
  then show "poll_task_waking ac tk Some task w = poll_task ac tk task w"
    "drop_task_waking ac tk Some task w = drop_task ac tk task w"
    by (simp_all only: poll_task_waking_def poll_task_def drop_task_waking_def drop_task_def guarded_drop_quiet)
qed

lemma try_spawn_quiet: "try_spawn_waking dbg ac tk Some addr future w = try_spawn dbg ac tk addr future w"
proof -
  have "deliver_waking ac tk Some = deliver ac tk"
    by (intro ext) (simp only: deliver_waking_def deliver_def guarded_drop_quiet)
  then show ?thesis unfolding try_spawn_waking_def try_spawn_def by (rule ssubst) (rule refl)
qed

lemma io_shutdown_quiet: "io_shutdown_waking Some w = io_shutdown w"
  by (cases "io_lock_submission (io_state w)")
    (simp_all add: io_shutdown_waking_def io_shutdown_def io_map_state_def Let_def)

lemma io_stop_quiet: "io_stop_waking dbg ac tk iter Some w = io_stop dbg ac tk iter w"
  by (simp add: io_stop_waking_def io_stop_def Let_def)

end
