(* ===== verification/Io_Exits.thy ===== *)
theory Io_Exits
  imports Io_Reentrant_Wakers
begin

text \<open>
  Every exit of an accepted future, in the order in which it happens. The code that an exit
  runs on its way (the poll, the destructor, the wakers of the freed slot) watches the slot.
\<close>

section \<open>A watch on the slot\<close>

text \<open>
  Code that insists, whenever it runs, that the slot \<open>k\<close> is taken or its future destroyed.
\<close>

definition slot_watch :: "usize \<Rightarrow> ('x \<Rightarrow> bool) \<Rightarrow> ('n, 'r, 'x) io_waker" where
  "slot_watch k destroyed w = (if k \<in> open_registrations w \<or> destroyed (io_outside w) then Some w else None)"

lemma slot_watch_passes:
  "k \<in> open_registrations w \<Longrightarrow> slot_watch k destroyed w = Some w"
  "destroyed (io_outside w) \<Longrightarrow> slot_watch k destroyed w = Some w"
  by (simp_all add: slot_watch_def)

lemma guard_drop_watched:
  assumes "destroyed (io_outside w)"
  shows "io_guard_drop_waking ac (slot_watch k destroyed) j w = io_guard_drop ac j w"
proof -
  have "io_outside v = io_outside w" if "io_remove_abort_handle j w = Some v" for v
    using that by (auto simp: io_remove_abort_handle_def split: bind_splits)
  with assms show ?thesis
    by (cases "io_remove_abort_handle j w")
      (simp_all add: io_guard_drop_waking_def io_guard_drop_def io_publish_waking_def io_notify_waking_def
        io_map_state_def slot_watch_passes Let_def)
qed

lemma guarded_drop_watched:
  assumes "\<forall>x. destroyed (future_drop tk (user_future g) x)"
  shows "guarded_drop_waking ac tk (slot_watch k destroyed) g w = guarded_drop ac tk g w"
  using assms by (simp add: guarded_drop_waking_def guarded_drop_def slot_watch_passes guard_drop_watched io_at_outside_def)

lemma poll_future_watched:
  assumes "\<forall>x. destroyed (future_drop tk (user_future g) x)" and "k \<in> open_registrations w"
  shows "poll_future_waking ac tk (slot_watch k destroyed) g w = poll_future ac tk g w"
proof -
  have "open_registrations (w\<lparr>io_outside := x\<rparr>) = open_registrations w" for x
    by (simp add: open_registrations_def)
  with assms(2) show ?thesis
    by (simp add: poll_future_waking_def poll_future_def guarded_drop_watched [OF assms(1)] io_on_outside_eq
        slot_watch_passes Let_def)
qed

section \<open>The property\<close>

text \<open>
  C33: Every exit of an accepted future. A task that polls its future, received just now or
  before, keeps it and its slot while the poll is pending; a value, an error (wrapped as
  \<^verbatim>\<open>Failed\<close>) and an unwinding panic end it. The drop of a task that holds the future, or whose
  receiver still does, ends it too. Each end destroys the user's future and releases exactly
  its registration, once, and in that order: code that watches the slot from the poll, from the
  destructor and from every waker never sees it free while the future is alive. A task whose
  sender is gone reports a cancellation and releases nothing, nor does one that waits, drops an
  empty receiver or has returned.
\<close>
theorem guarded_future_releases_once:
  assumes "counts_atomically ac" and "io_accounted ac w" and "future_guard g \<in> open_registrations w"
    and "\<forall>x. destroyed (future_drop tk (user_future g) x)"
  shows "(\<forall>task y polled x.
      (task = AwaitFuture g \<and> y = io_outside w \<or>
        (\<exists>r. task = AwaitReceiver r \<and> recv_poll tk r (io_outside w) = (Ready (Some g), y))) \<and>
      future_poll tk (user_future g) y = (polled, x) \<longrightarrow>
      (\<exists>task' w'. poll_task_waking ac tk (slot_watch (future_guard g) destroyed) task w =
          Some (map_option (map_Poll (map_sum Failed id)) polled, task', w') \<and> io_accounted ac w' \<and>
        (if polled = Some Pending then task' = AwaitFuture g \<and> w' = w\<lparr>io_outside := x\<rparr>
         else task' = TaskReturned \<and>
           io_released (future_guard g) (w\<lparr>io_outside := future_drop tk (user_future g) x\<rparr>) w'))) \<and>
    (\<forall>task y.
      task = AwaitFuture g \<and> y = io_outside w \<or>
        (\<exists>r. task = AwaitReceiver r \<and> receiver_drop tk r (io_outside w) = (Some g, y)) \<longrightarrow>
      (\<exists>w'. drop_task_waking ac tk (slot_watch (future_guard g) destroyed) task w = Some w' \<and> io_accounted ac w' \<and>
        io_released (future_guard g) (w\<lparr>io_outside := future_drop tk (user_future g) y\<rparr>) w')) \<and>
    (\<forall>r y.
      (recv_poll tk r (io_outside w) = (Ready None, y) \<longrightarrow>
        poll_task_waking ac tk f (AwaitReceiver r) w =
          Some (Some (Ready (Inl Cancelled)), TaskReturned, w\<lparr>io_outside := y\<rparr>)) \<and>
      (recv_poll tk r (io_outside w) = (Pending, y) \<longrightarrow>
        poll_task_waking ac tk f (AwaitReceiver r) w = Some (Some Pending, AwaitReceiver r, w\<lparr>io_outside := y\<rparr>)) \<and>
      (receiver_drop tk r (io_outside w) = (None, y) \<longrightarrow>
        drop_task_waking ac tk f (AwaitReceiver r) w = Some (w\<lparr>io_outside := y\<rparr>))) \<and>
    drop_task_waking ac tk f TaskReturned w = Some w"
  (is "?polled \<and> ?dropped \<and> _")
proof (intro conjI)
  let ?f = "slot_watch (future_guard g) destroyed"
  have w: "io_accounted ac (w\<lparr>io_outside := y\<rparr>)" "future_guard g \<in> open_registrations (w\<lparr>io_outside := y\<rparr>)" for y
    using assms(2,3) by simp_all
  show ?polled
  proof (intro allI impI, elim conjE)
    fix task y polled x
    assume task: "task = AwaitFuture g \<and> y = io_outside w \<or>
        (\<exists>r. task = AwaitReceiver r \<and> recv_poll tk r (io_outside w) = (Ready (Some g), y))"
      and polled: "future_poll tk (user_future g) y = (polled, x)"
    from task have "poll_task_waking ac tk ?f task w = poll_future ac tk g (w\<lparr>io_outside := y\<rparr>)"
      using poll_future_watched [OF assms(4) w(2), of ac y]
      by (auto simp: poll_task_waking_def io_on_outside_def)
    moreover have "future_poll tk (user_future g) (io_outside (w\<lparr>io_outside := y\<rparr>)) = (polled, x)" using polled by simp
    note poll_future_exits [OF assms(1) w this, unfolded map_err_def]
    moreover have "w\<lparr>io_outside := y, io_outside := z\<rparr> = w\<lparr>io_outside := z\<rparr>" for z by simp
    ultimately show "\<exists>task' w'. poll_task_waking ac tk ?f task w =
          Some (map_option (map_Poll (map_sum Failed id)) polled, task', w') \<and> io_accounted ac w' \<and>
        (if polled = Some Pending then task' = AwaitFuture g \<and> w' = w\<lparr>io_outside := x\<rparr>
         else task' = TaskReturned \<and>
           io_released (future_guard g) (w\<lparr>io_outside := future_drop tk (user_future g) x\<rparr>) w')"
      by (simp only:)
  qed
  show ?dropped
  proof (intro allI impI)
    fix task y
    assume "task = AwaitFuture g \<and> y = io_outside w \<or>
        (\<exists>r. task = AwaitReceiver r \<and> receiver_drop tk r (io_outside w) = (Some g, y))"
    then have "drop_task_waking ac tk ?f task w = guarded_drop ac tk g (w\<lparr>io_outside := y\<rparr>)"
      using guarded_drop_watched [OF assms(4)] by (auto simp: drop_task_waking_def io_on_outside_def)
    with guarded_drop_releases [OF assms(1) w, of tk y]
    show "\<exists>w'. drop_task_waking ac tk ?f task w = Some w' \<and> io_accounted ac w' \<and>
        io_released (future_guard g) (w\<lparr>io_outside := future_drop tk (user_future g) y\<rparr>) w'" by auto
  qed
qed (auto simp: poll_task_waking_def drop_task_waking_def io_on_outside_def)

theorem guarded_future_releases_once_witness:
  "\<exists>w'. poll_task_waking word_count demo_io_ops (slot_watch 16 (\<lambda>x. 1 \<in> set (snd x)))
       (AwaitFuture \<lparr>user_future = 1, future_guard = 16\<rparr>) demo_io_held = Some (Some (Ready (Inr 7)), TaskReturned, w') \<and>
     io_released 16 (demo_io_held\<lparr>io_outside := future_drop demo_io_ops 1 (io_outside demo_io_held)\<rparr>) w'"
proof -
  let ?g = "\<lparr>user_future = 1, future_guard = 16\<rparr> :: nat TokioGuardedIoFuture"
  have "future_poll demo_io_ops (user_future ?g) (io_outside demo_io_held) =
      (Some (Ready (Inr 7)), io_outside demo_io_held)" by (simp add: demo_io_ops_def)
  moreover have "future_guard ?g \<in> open_registrations demo_io_held" by (simp add: demo_io_held_facts(2))
  moreover have "\<forall>x. (\<lambda>x. 1 \<in> set (snd x)) (future_drop demo_io_ops (user_future ?g) x)" by (simp add: demo_io_ops_def)
  ultimately show ?thesis
    using guarded_future_releases_once [OF word_count_ok io_ready_open(1) [OF demo_io_held_facts(1)],
        of ?g "\<lambda>x. 1 \<in> set (snd x)" demo_io_ops, THEN conjunct1, rule_format, of "AwaitFuture ?g"]
    by auto
qed

end
