(* ===== verification/Task_Handle.thy ===== *)
theory Task_Handle
  imports Io_Calls Blocking_Handle
begin

text \<open>
  \<^verbatim>\<open>src/tokio_task_handle.rs\<close>: the handle of an accepted future. The \<^verbatim>\<open>JoinHandle\<close> inside
  is Tokio's: whether its task has finished and what an abort does are the operations
  \<open>io_handle_is_finished\<close> and \<open>io_abort\<close> of \<open>io_ops\<close>; polling it and asking a
  \<^verbatim>\<open>JoinError\<close> whether it is a cancellation are arguments.
\<close>

definition task_handle_is_done ::
  "('r, 'f, 'v, 'e, 'x) io_ops \<Rightarrow> 'r TokioTaskHandle \<Rightarrow> ('n, 'r, 'x) io_world \<Rightarrow> bool" where
  "task_handle_is_done tk self w = io_handle_is_finished tk (join_handle self) (io_outside w)"

definition task_handle_cancel ::
  "('r, 'f, 'v, 'e, 'x) io_ops \<Rightarrow> 'r TokioTaskHandle \<Rightarrow> ('n, 'r, 'x) io_world
   \<Rightarrow> CancelResult \<times> ('n, 'r, 'x) io_world" where
  "task_handle_cancel tk self w =
     (if io_handle_is_finished tk (join_handle self) (io_outside w) then (AlreadyFinished, w)
      else (CancelResult.Cancelled, io_at_outside (io_abort tk (join_handle self)) w))"

definition join_error_to_task_error :: "('j \<Rightarrow> bool) \<Rightarrow> 'j \<Rightarrow> 'e TaskExecutionError" where
  "join_error_to_task_error is_cancelled error =
     (if is_cancelled error then TaskExecutionError.Cancelled else Panicked)"

definition task_handle_poll ::
  "('r \<Rightarrow> 'x \<Rightarrow> ('j + ('v, 'e) TaskResult) Poll \<times> 'x) \<Rightarrow> ('j \<Rightarrow> bool) \<Rightarrow> 'r TokioTaskHandle
   \<Rightarrow> ('n, 'r, 'x) io_world \<Rightarrow> ('v, 'e) TaskResult Poll \<times> ('n, 'r, 'x) io_world" where
  "task_handle_poll join_poll is_cancelled self w =
     (let (polled, w) = io_on_outside (join_poll (join_handle self)) w
      in (case polled of
            Ready (Inr result) \<Rightarrow> Ready result
          | Ready (Inl error) \<Rightarrow> Ready (Inl (join_error_to_task_error is_cancelled error))
          | Pending \<Rightarrow> Pending, w))"

text \<open>
  A cancellation request touches nothing of the service: the slot and the tracked handle stay
  with the future until Tokio destroys it, and that destruction releases them once.
\<close>

lemma task_handle_cancel_frame:
  assumes "task_handle_cancel tk h w = (result, v)"
  shows "io_state v = io_state w" "io_registrations v = io_registrations w" "io_ready ac v = io_ready ac w"
    "result = CancelResult.Cancelled \<longleftrightarrow> \<not> task_handle_is_done tk h w"
  using assms by (auto simp: task_handle_cancel_def task_handle_is_done_def io_at_outside_def
      io_ready_def io_accounted_def open_registrations_def split: if_splits)

lemma cancelled_future_releases_slot:
  assumes "counts_atomically ac" and "io_ready ac w" and "k \<in> open_registrations w"
    and "task_handle_cancel tk h w = (result, v)"
  obtains u where "drop_task ac tk (AwaitFuture (guarded_new f k)) v = Some u"
    "open_registrations u = open_registrations w - {k}" "io_accounted ac u"
proof -
  note frame = task_handle_cancel_frame [OF assms(4)]
  have v: "io_accounted ac v" "open_registrations v = open_registrations w"
    using frame assms(2) by (simp_all add: io_ready_def open_registrations_def)
  have k: "future_guard (guarded_new f k) \<in> open_registrations v"
    using v(2) assms(3) by (simp add: guarded_new_def)
  obtain u where "guarded_drop ac tk (guarded_new f k) v = Some u" "io_accounted ac u"
    "io_released (future_guard (guarded_new f k))
       (v\<lparr>io_outside := future_drop tk (user_future (guarded_new f k)) (io_outside v)\<rparr>) u"
    by (rule guarded_drop_releases [OF assms(1) v(1) k])
  then show thesis using that [of u] v(2)
    by (simp add: drop_task_def io_released_def guarded_new_def open_registrations_def)
qed

text \<open>Every completed join is a task result: no join error gets past the handle.\<close>

lemma task_handle_poll_ready:
  "join_poll (join_handle h) (io_outside w) = (Ready (Inr result), x) \<Longrightarrow>
   task_handle_poll join_poll is_cancelled h w = (Ready result, w\<lparr>io_outside := x\<rparr>)"
  "join_poll (join_handle h) (io_outside w) = (Ready (Inl error), x) \<Longrightarrow>
   task_handle_poll join_poll is_cancelled h w =
     (Ready (Inl (if is_cancelled error then TaskExecutionError.Cancelled else Panicked)), w\<lparr>io_outside := x\<rparr>)"
  by (simp_all add: task_handle_poll_def io_on_outside_def join_error_to_task_error_def)

end
