(* ===== verification/Io_Handoff.thy ===== *)
theory Io_Handoff
  imports Task_Handle
begin

text \<open>
  \<^verbatim>\<open>src/tests/tokio_io_executor_service_handoff_tests.rs\<close>: a stop of the IO service that comes
  between the registration of a future and its delivery. The test is a definition over the
  operations it calls, every assertion a branch, and passes for every runtime, future and
  capacity.
\<close>

section \<open>The test\<close>

text \<open>
  \<^verbatim>\<open>runtime.block_on(handle)\<close> on a runtime of one thread. The spawned task has not been polled
  before: Tokio drops it if its abort has been requested (\<open>aborted\<close>), and polls it otherwise;
  then the handle is polled. What Tokio stores for a \<^verbatim>\<open>JoinHandle\<close> is \<open>join_poll\<close>.
\<close>

definition block_on_handle ::
  "'n atomic_count \<Rightarrow> ('r, 'f, 'v, 'e, 'x) io_ops \<Rightarrow> ('r \<Rightarrow> 'x \<Rightarrow> bool)
   \<Rightarrow> ('r \<Rightarrow> 'x \<Rightarrow> ('j + ('v, 'e) TaskResult) Poll \<times> 'x) \<Rightarrow> ('j \<Rightarrow> bool) \<Rightarrow> 'r \<Rightarrow> 'r TokioTaskHandle
   \<Rightarrow> ('n, 'r, 'x) io_world \<Rightarrow> (('v, 'e) TaskResult Poll \<times> ('n, 'r, 'x) io_world) option" where
  "block_on_handle ac tk aborted join_poll is_cancelled receiver h w = do {
     w \<leftarrow> (if aborted (join_handle h) (io_outside w) then drop_task ac tk (AwaitReceiver receiver) w
           else map_option (snd \<circ> snd) (poll_task ac tk (AwaitReceiver receiver) w));
     Some (task_handle_poll join_poll is_cancelled h w)
   }"

text \<open>
  \<open>None\<close> is a failed assertion, or a wait for a termination that has not come. \<open>drops\<close> reads
  the probe that counts the destructions of the future.
\<close>

definition io_stop_during_handoff ::
  "bool \<Rightarrow> 'n atomic_count \<Rightarrow> ('r, 'f, 'v, 'e, 'x) io_ops
   \<Rightarrow> ((usize \<rightharpoonup> 'r IoTrackedAbortHandle) \<Rightarrow> (usize \<times> 'r IoTrackedAbortHandle) list)
   \<Rightarrow> ('r \<Rightarrow> 'x \<Rightarrow> bool) \<Rightarrow> ('r \<Rightarrow> 'x \<Rightarrow> ('j + ('v, 'e) TaskResult) Poll \<times> 'x) \<Rightarrow> ('j \<Rightarrow> bool)
   \<Rightarrow> ('x \<Rightarrow> nat) \<Rightarrow> usize \<Rightarrow> usize \<Rightarrow> 'f \<Rightarrow> 'x \<Rightarrow> ('n, 'r, 'x) io_world option" where
  "io_stop_during_handoff dbg ac tk iter aborted join_poll is_cancelled drops capacity addr future x = do {
     let receiver = snd (fst (io_channel tk x));
     (prepared, w) \<leftarrow> prepare_spawn dbg ac tk addr future (io_new ac capacity x);
     case prepared of
       Inl _ \<Rightarrow> None
     | Inr pending \<Rightarrow>
         if accepted_unfinished (io_stats ac w) \<noteq> 1 then None
         else do {
           (report, w) \<leftarrow> io_stop dbg ac tk iter w;
           if report_cancelled report \<noteq> 1 then None
           else if accepted_unfinished (io_stats ac w) \<noteq> 1 then None
           else if drops (io_outside w) \<noteq> drops x then None
           else do {
             (h, w) \<leftarrow> deliver ac tk pending w;
             (outcome, w) \<leftarrow> block_on_handle ac tk aborted join_poll is_cancelled receiver h w;
             case outcome of
               Ready (Inl TaskExecutionError.Cancelled) \<Rightarrow>
                 if drops (io_outside w) \<noteq> drops x + 1 then None
                 else if accepted_unfinished (io_stats ac w) \<noteq> 0 then None
                 else if \<not> io_is_terminated ac w then None
                 else Some w
             | _ \<Rightarrow> None
           }
         }
   }"

section \<open>What the test relies on\<close>

text \<open>
  The channel: a payload it took is handed out when the receiver is dropped, one it refused is
  not. The probe: only the destructor of the future counts.
\<close>

definition hands_over :: "('r, 'f, 'v, 'e, 'x) io_ops \<Rightarrow> 'r \<Rightarrow> 'r \<Rightarrow> bool" where
  "hands_over tk sender receiver \<longleftrightarrow> (\<forall>p x. let (sent, x) = io_send tk sender p x in
     fst (receiver_drop tk receiver (if sent then x else future_drop tk (user_future p) x)) =
       (if sent then Some p else None))"

definition counts_drops ::
  "('r, 'f, 'v, 'e, 'x) io_ops \<Rightarrow> ('r \<Rightarrow> 'x \<Rightarrow> 'a \<times> 'x) \<Rightarrow> 'f \<Rightarrow> ('x \<Rightarrow> nat) \<Rightarrow> bool" where
  "counts_drops tk join_poll future drops \<longleftrightarrow>
     (\<forall>x. drops (future_drop tk future x) = drops x + 1) \<and> (\<forall>x. drops (snd (io_channel tk x)) = drops x) \<and>
     (\<forall>r x. drops (snd (io_spawn tk r x)) = drops x) \<and> (\<forall>h x. drops (io_abort tk h x) = drops x) \<and>
     (\<forall>r p x. drops (snd (io_send tk r p x)) = drops x) \<and> (\<forall>r x. drops (snd (receiver_drop tk r x)) = drops x) \<and>
     (\<forall>h x. drops (snd (join_poll h x)) = drops x)"

text \<open>
  The task \<open>h\<close> just spawned (at \<open>x\<close>): it waits for its payload, so it is not finished, and no
  abort has been requested. A request through its abort handle stays in force, whatever is sent
  or dropped; and when a task with such a request has been dropped, which drops its receiver and
  a payload in it, its handle joins with an error that is a cancellation.
\<close>

definition aborts_on_request ::
  "('r, 'f, 'v, 'e, 'x) io_ops \<Rightarrow> ('r \<Rightarrow> 'x \<Rightarrow> bool) \<Rightarrow> ('r \<Rightarrow> 'x \<Rightarrow> ('j + 'a) Poll \<times> 'x) \<Rightarrow> ('j \<Rightarrow> bool)
   \<Rightarrow> 'f \<Rightarrow> 'r \<Rightarrow> 'r \<Rightarrow> 'x \<Rightarrow> bool" where
  "aborts_on_request tk aborted join_poll is_cancelled future receiver h x \<longleftrightarrow>
     \<not> io_handle_is_finished tk (io_abort_handle_of tk h) x \<and> \<not> aborted h x \<and>
     (\<forall>x. aborted h (io_abort tk (io_abort_handle_of tk h) x)) \<and>
     (\<forall>x. aborted h x \<longrightarrow> aborted h (future_drop tk future x) \<and> (\<forall>r p. aborted h (snd (io_send tk r p x))) \<and>
       (let y = snd (receiver_drop tk receiver x) in
        \<forall>z \<in> {y, future_drop tk future y}. \<exists>e. fst (join_poll h z) = Ready (Inl e) \<and> is_cancelled e))"

section \<open>One future alone\<close>

lemma registered_alone:
  fixes tk :: "('r, 'f, 'v, 'e, 'x) io_ops" and x :: 'x and ac :: "'n atomic_count"
  assumes ac: "counts_atomically ac" and cap: "0 < capacity"
    and y: "io_channel tk x = ((sender, receiver), y)" and z: "io_spawn tk receiver y = (h, z)"
    and alive: "\<not> io_handle_is_finished tk (io_abort_handle_of tk h) z"
  obtains w where "prepare_spawn dbg ac tk addr future (io_new ac capacity x) =
      Some (Inr (handoff_new future h sender addr), w)" "io_ready ac w"
    "open_registrations w = {addr}" "io_outside w = z"
    "io_abort_handles (io_state w) = [addr \<mapsto> \<lparr>io_tracked_marker = addr, io_handle = io_abort_handle_of tk h\<rparr>]"
proof -
  let ?w = "io_new ac capacity x :: ('n, 'r, 'x) io_world"
  have zero: "ac_get ac (ac_default ac) = 0" using counts_atomicallyD(1) [OF ac] .
  have "\<not> capacity \<le> 0" using cap by simp
  have new: "io_admission_error ac ?w = None" "io_registrations ?w addr = None" "open_registrations ?w = {}"
    using zero \<open>\<not> capacity \<le> 0\<close>
    by (simp_all add: io_new_def io_admission_error_def io_state_with_task_capacity_def io_is_not_running_def
        open_registrations_def)
  obtain handoff w where w: "prepare_spawn dbg ac tk addr future ?w = Some (Inr handoff, w)"
    "handoff_guard handoff = addr" "io_admitted addr ?w w" "io_ready ac w"
    by (rule prepare_spawn_accepts [OF ac io_ready_new [OF ac] new(1,2), of dbg tk future])
  have "handoff = handoff_new future h sender addr \<and> io_outside w = z \<and> io_abort_handles (io_state w) =
      [addr \<mapsto> \<lparr>io_tracked_marker = addr, io_handle = io_abort_handle_of tk h\<rparr>]"
    using w(1) y z alive \<open>\<not> capacity \<le> 0\<close> zero
    by (auto simp: prepare_spawn_def io_new_def io_state_with_task_capacity_def io_lock_submission_def
        io_is_not_running_def io_try_accept_task_def io_on_outside_def io_guard_new_def io_map_state_def
        io_unlock_submission_def io_register_abort_handle_def registration_new_def is_finished_def key_def Let_def
        split: bind_splits if_splits)
  moreover have "open_registrations w = {addr}" using w(3) new(3) by (simp add: io_admitted_def)
  ultimately show ?thesis using that w(1,4) by simp
qed

text \<open>The stop sends the one request there is to send.\<close>

lemma sends_to_one:
  assumes "sends_to fin abort sent {(k, a)} x" and "\<not> fin (io_handle a) x"
  shows "sent = [(k, a)]"
proof -
  have sub: "set sent \<subseteq> {(k, a)}" and dist: "distinct (map fst sent)"
    and left: "\<forall>(j, b) \<in> {(k, a)} - set sent. \<exists>i \<le> List.length sent. fin (io_handle b) (requests abort (take i sent) x)"
    using assms(1) by (auto simp: sends_to_def)
  have "sent \<noteq> []" using left assms(2) by (auto simp: requests_def)
  then obtain e es where sent: "sent = e # es" by (cases sent) auto
  with sub have "e = (k, a)" "set es \<subseteq> {(k, a)}" by simp_all
  moreover from this dist sent have "es = []" by (cases es) auto
  ultimately show ?thesis using sent by simp
qed

lemma stop_aborts_alone:
  assumes "io_ready ac w" and "iterates iter"
    and "io_abort_handles (io_state w) = [addr \<mapsto> \<lparr>io_tracked_marker = addr, io_handle = a\<rparr>]"
    and "\<not> io_handle_is_finished tk a (io_outside w)"
  obtains rep v where "io_stop dbg ac tk iter w = Some (rep, v)" "io_ready ac v" "report_cancelled rep = 1"
    "io_registrations v = io_registrations w" "io_is_not_running (io_state v)"
    "io_outside v = io_abort tk a (io_outside w)"
proof -
  let ?a = "\<lparr>io_tracked_marker = addr, io_handle = a\<rparr>"
  obtain rep v sent where v: "io_stop dbg ac tk iter w = Some (rep, v)" "io_ready ac v"
    "io_registrations v = io_registrations w" "io_is_not_running (io_state v)"
    and sent: "sends_to (io_handle_is_finished tk) (io_abort tk) sent (Map.graph (io_abort_handles (io_state w))) (io_outside w)"
    "unat (report_cancelled rep) = List.length sent" "io_outside v = requests (io_abort tk) sent (io_outside w)"
    using io_stop_spec [OF assms(1,2), of dbg tk] by blast
  have "Map.graph (io_abort_handles (io_state w)) = {(addr, ?a)}"
    unfolding assms(3) by (auto simp: Map.graph_def split: if_splits)
  with sends_to_one sent(1) assms(4) have s: "sent = [(addr, ?a)]" by force
  then have "unat (report_cancelled rep) = 1" using sent(2) by simp
  then have "report_cancelled rep = 1" by (simp add: word_unat_eq_iff)
  moreover have "io_outside v = io_abort tk a (io_outside w)" using sent(3) s by (simp add: requests_def)
  ultimately show ?thesis using that v by blast
qed

lemma alone_unfinished:
  assumes "io_ready ac w"
  shows "unat (accepted_unfinished (io_stats ac w)) = card (open_registrations w)"
  using io_accountedD(2) assms by (auto simp: io_ready_def io_stats_def io_state_stats_def)

text \<open>
  The delivery of the future to the aborted task and the drop of that task: in one of the two
  the future is destroyed, and its slot comes back.
\<close>

lemma handoff_ends:
  assumes ac: "counts_atomically ac" and v: "io_ready ac v" "open_registrations v = {addr}"
    and channel: "hands_over tk sender receiver"
  obtains sent x d y z where "io_send tk sender (guarded_new future addr) (io_outside v) = (sent, x)"
    "deliver ac tk (handoff_new future h sender addr) v = Some (task_handle_new h, d)"
    "io_outside d = (if sent then x else future_drop tk future x)"
    "y = snd (receiver_drop tk receiver (io_outside d))"
    "drop_task ac tk (AwaitReceiver receiver) d = Some z" "io_ready ac z" "open_registrations z = {}"
    "io_lifecycle_byte (io_state z) = io_lifecycle_byte (io_state v)"
    "io_outside z = (if sent then future_drop tk future y else y)"
proof -
  define p where "p = guarded_new future addr"
  obtain sent x where x: "io_send tk sender p (io_outside v) = (sent, x)" by force
  let ?x = "if sent then x else future_drop tk future x"
  obtain y where y: "receiver_drop tk receiver ?x = (if sent then Some p else None, y)"
    using channel [unfolded hands_over_def, rule_format, of p "io_outside v"] x
    by (cases "receiver_drop tk receiver ?x") (simp add: p_def guarded_new_def split: if_splits)
  let ?start = "v\<lparr>io_outside := if sent then y else x\<rparr>"
  have start: "io_accounted ac ?start" "future_guard p \<in> open_registrations ?start"
    using v by (simp_all add: io_ready_def p_def guarded_new_def)
  obtain w where w: "guarded_drop ac tk p ?start = Some w" "io_accounted ac w"
    "io_released (future_guard p) (?start\<lparr>io_outside := future_drop tk (user_future p) (io_outside ?start)\<rparr>) w"
    by (rule guarded_drop_releases [OF ac start])
  let ?z = "if sent then w else w\<lparr>io_outside := y\<rparr>" and ?d = "if sent then v\<lparr>io_outside := x\<rparr> else w"
  note rel = io_releasedD [OF w(3)]
  have out: "io_outside w = future_drop tk future (if sent then y else x)"
    using rel(2) by (simp add: p_def guarded_new_def)
  have d: "deliver ac tk (handoff_new future h sender addr) v = Some (task_handle_new h, ?d)" "io_outside ?d = ?x"
    using x w(1) out by (cases sent; simp add: deliver_def handoff_new_def io_on_outside_def Let_def flip: p_def)+
  moreover have "drop_task ac tk (AwaitReceiver receiver) ?d = Some ?z"
    using y w(1) out by (cases sent) (simp_all add: drop_task_def io_on_outside_def)
  moreover have "io_ready ac ?z" "open_registrations ?z = {}"
    "io_lifecycle_byte (io_state ?z) = io_lifecycle_byte (io_state v)"
    "io_outside ?z = (if sent then future_drop tk future y else y)"
    using w(2) rel v out by (simp_all add: io_ready_def p_def guarded_new_def)
  moreover have "y = snd (receiver_drop tk receiver (io_outside ?d))" using y d(2) by simp
  ultimately show ?thesis using x by (intro that) (simp_all only: p_def)
qed

section \<open>Properties\<close>

text \<open>
  C29: A stop between registration and delivery of a future. On a new IO service of any
  capacity, on any runtime where the task just spawned waits for its payload and an abort does
  what Tokio documents, the crate's handoff test passes: the stop finds the registered future,
  aborts its task and leaves its slot taken and the future alive; when it is delivered, its
  handle reports the cancellation, the future is destroyed exactly once, the slot is free and
  the service has terminated.
\<close>
theorem io_stop_during_handoff_passes:
  assumes "counts_atomically ac" and "iterates iter" and "0 < capacity"
    and "io_channel tk x = ((sender, receiver), y)" and "io_spawn tk receiver y = (h, z)"
    and "aborts_on_request tk aborted join_poll is_cancelled future receiver h z"
    and "hands_over tk sender receiver" and "counts_drops tk join_poll future drops"
  shows "\<exists>v. io_stop_during_handoff dbg ac tk iter aborted join_poll is_cancelled drops capacity addr future x = Some v \<and>
    io_ready ac v \<and> io_is_terminated ac v"
proof -
  note runtime = assms(6) [unfolded aborts_on_request_def Let_def]
  have alive: "\<not> io_handle_is_finished tk (io_abort_handle_of tk h) z" using runtime by blast
  obtain w where w: "prepare_spawn dbg ac tk addr future (io_new ac capacity x) =
      Some (Inr (handoff_new future h sender addr), w)" "io_ready ac w" "open_registrations w = {addr}" "io_outside w = z"
    "io_abort_handles (io_state w) = [addr \<mapsto> \<lparr>io_tracked_marker = addr, io_handle = io_abort_handle_of tk h\<rparr>]"
    by (rule registered_alone [OF assms(1,3,4,5) alive])
  obtain rep v where v: "io_stop dbg ac tk iter w = Some (rep, v)" "io_ready ac v" "report_cancelled rep = 1"
    "io_registrations v = io_registrations w" "io_is_not_running (io_state v)"
    "io_outside v = io_abort tk (io_abort_handle_of tk h) z"
    by (rule stop_aborts_alone [OF w(2) assms(2) w(5), of tk dbg]) (use alive w(4) in auto)
  have open_v: "open_registrations v = {addr}" using v(4) w(3) by (simp add: open_registrations_def)
  obtain sent x' d y' u where u: "io_send tk sender (guarded_new future addr) (io_outside v) = (sent, x')"
    "deliver ac tk (handoff_new future h sender addr) v = Some (task_handle_new h, d)"
    "io_outside d = (if sent then x' else future_drop tk future x')"
    "y' = snd (receiver_drop tk receiver (io_outside d))"
    "drop_task ac tk (AwaitReceiver receiver) d = Some u" "io_ready ac u" "open_registrations u = {}"
    "io_lifecycle_byte (io_state u) = io_lifecycle_byte (io_state v)"
    "io_outside u = (if sent then future_drop tk future y' else y')"
    by (rule handoff_ends [OF assms(1) v(2) open_v assms(7), of future h])
  have "aborted h (io_outside v)" using runtime v(6) by simp
  with runtime u(1) have "aborted h x'" by (metis snd_conv)
  with runtime u(3) have ab: "aborted h (io_outside d)" by simp
  have "io_outside u \<in> {y', future_drop tk future y'}" using u(9) by simp
  with runtime ab u(4) obtain e where e: "fst (join_poll h (io_outside u)) = Ready (Inl e)" "is_cancelled e" by blast
  let ?z = "u\<lparr>io_outside := snd (join_poll h (io_outside u))\<rparr>"
  have wait: "block_on_handle ac tk aborted join_poll is_cancelled receiver (task_handle_new h) d =
      Some (Ready (Inl TaskExecutionError.Cancelled), ?z)"
    using ab u(5) e by (cases "join_poll h (io_outside u)") (simp add: block_on_handle_def task_handle_new_def
        task_handle_poll_def io_on_outside_def join_error_to_task_error_def)
  note probe = assms(8) [unfolded counts_drops_def]
  have drops: "drops (io_outside v) = drops x" "drops (io_outside ?z) = drops x + 1"
  proof -
    have "drops y = drops x" "drops z = drops y" using probe assms(4,5) by (metis snd_conv)+
    then show v_drops: "drops (io_outside v) = drops x" using probe v(6) by simp
    moreover have "drops x' = drops (io_outside v)" using probe u(1) by (metis snd_conv)
    ultimately show "drops (io_outside ?z) = drops x + 1" using probe u(3,4,9) by simp
  qed
  have "unat (accepted_unfinished (io_stats ac w)) = 1" "unat (accepted_unfinished (io_stats ac v)) = 1"
    "unat (accepted_unfinished (io_stats ac ?z)) = 0" "io_ready ac ?z"
    using alone_unfinished [OF w(2)] alone_unfinished [OF v(2)] alone_unfinished [OF u(6)] w(3) open_v u(6,7)
    by (simp_all add: io_stats_def)
  then have unfinished: "accepted_unfinished (io_stats ac w) = 1" "accepted_unfinished (io_stats ac v) = 1"
    "accepted_unfinished (io_stats ac ?z) = 0"
    by (simp_all only: word_unat_eq_iff unsigned_1 unsigned_0)
  then have "ac_is_zero ac (active_tasks (io_state ?z))"
    using counts_atomicallyD(2) [OF assms(1)] by (simp add: io_stats_def io_state_stats_def)
  then have terminated: "io_is_terminated ac ?z"
    using v(5) u(8) by (simp add: io_is_terminated_def io_lifecycle_def io_state_lifecycle_def io_is_not_running_def)
  have "io_stop_during_handoff dbg ac tk iter aborted join_poll is_cancelled drops capacity addr future x = Some ?z"
    using w(1) v(1,3) u(2) wait unfinished drops terminated assms(4)
    by (simp add: io_stop_during_handoff_def Let_def)
  with terminated \<open>io_ready ac ?z\<close> show ?thesis by blast
qed

text \<open>
  A runtime whose channel takes the payload and whose handles do finish, on a service of one
  slot. Its state adds to the demonstration's whether the task is aborted and whether it has
  been dropped.
\<close>

definition abort_ops :: "(nat, nat, nat, nat, bool \<times> bool \<times> demo_io) io_ops" where
  "abort_ops = \<lparr>io_channel = (\<lambda>x. ((0, 0), x)), io_spawn = (\<lambda>r x. (r, x)), io_abort_handle_of = id,
     io_send = (\<lambda>r p (b, d, c, l). (True, (b, d, Some p, l))), sender_drop = (\<lambda>r x. x),
     recv_poll = (\<lambda>r (b, d, c, l). (if c = None then Pending else Ready c, (b, d, None, l))),
     receiver_drop = (\<lambda>r (b, d, c, l). (c, (b, True, None, l))),
     future_poll = (\<lambda>f x. (Some (Ready (Inr 42)), x)), future_drop = (\<lambda>f (b, d, c, l). (b, d, c, f # l)),
     io_handle_is_finished = (\<lambda>h (b, d, c, l). d), io_abort = (\<lambda>h (b, d, c, l). (True, d, c, l))\<rparr>"

definition abort_join :: "nat \<Rightarrow> bool \<times> bool \<times> demo_io \<Rightarrow> (bool + (nat, nat) TaskResult) Poll \<times> (bool \<times> bool \<times> demo_io)" where
  "abort_join h x = (if \<not> fst (snd x) then Pending else Ready (Inl (fst x)), x)"

theorem io_stop_during_handoff_passes_witness:
  "\<exists>v. io_stop_during_handoff True word_count abort_ops sorted_iter (\<lambda>h. fst) abort_join id
     (\<lambda>x. List.length (snd (snd (snd x)))) 1 16 1 (False, False, None, []) = Some v \<and> io_is_terminated word_count v"
proof -
  have "io_channel abort_ops (False, False, None, []) = ((0, 0), (False, False, None, []))"
    "io_spawn abort_ops 0 (False, False, None, []) = (0, (False, False, None, []))"
    "hands_over abort_ops 0 0" "counts_drops abort_ops abort_join 1 (\<lambda>x. List.length (snd (snd (snd x))))"
    "aborts_on_request abort_ops (\<lambda>h. fst) abort_join id 1 0 0 (False, False, None, [])"
    by (auto simp: abort_ops_def abort_join_def hands_over_def counts_drops_def aborts_on_request_def)
  with io_stop_during_handoff_passes [OF word_count_ok iterates_sorted_iter, of 1 abort_ops
      "(False, False, None, [])" 0 0 "(False, False, None, [])" 0 "(False, False, None, [])"
      "\<lambda>h. fst" abort_join id 1 "\<lambda>x. List.length (snd (snd (snd x)))" True 16]
  show ?thesis by auto
qed

end
