(* ===== verification/Io_Interleaving.thy ===== *)
theory Io_Interleaving
  imports Io_Service
begin

text \<open>
  The IO service under concurrency: the calls of \<^verbatim>\<open>src/tokio_io_executor_service.rs\<close>, the life
  of each accepted future up to the drop of its guard
  (\<^verbatim>\<open>src/tokio_io_service_task_guard.rs\<close>), and the asynchronous waiters, taken apart into the
  atomic steps of their threads, which interleave in any order. A step is one atomic access
  (of the counter, of the lifecycle byte, of a marker's flag), one critical section of the
  abort handles, or one notification; the updates are the operations of \<open>Io_State\<close>. Unlike
  the blocking service this one has no monitor: admission reads the counter and increments
  it in two steps under the submission lock, and guards decrement it without the lock.
\<close>

type_synonym 'n isvc = "('n, unit) TokioIoExecutorServiceState"

section \<open>Program counters\<close>

text \<open>
  The user's future with its guard: with the submitter under the submission lock, with the
  submitter in the handoff, in the channel, in the spawned task; then the destructor of the
  user's future, and the five steps of the guard's drop.
\<close>

datatype future_pc = FutureAdmitted | FutureHeld | FutureSent | FuturePolled | FutureDrop
  | GuardMark | GuardRemove | GuardCount | GuardCapacity | GuardNotify | GuardDone

record itask =
  i_registration :: TokioTaskRegistration
  i_future :: future_pc

datatype iholder_pc = IUnlocked
  | ISubmitCheck | ISubmitGet | ISubmitInc | ISubmitCreate | ISubmitRegister usize | ISubmitUnlock usize
  | IShutdownStore | IShutdownUnlock
  | IStopStore | IStopGet | IStopUnlock usize

text \<open>
  The other threads: a stop or shutdown after the submission lock (with the report it will
  return), a waiter in \<^verbatim>\<open>await_termination\<close> (with the flag of its \<^verbatim>\<open>Notified\<close> future), and a
  producer (with the flag of its capacity receiver).
\<close>

datatype ithread_pc =
    IStopTake usize | IStopLoop usize "usize list" usize | IStopCount usize "usize list" usize
  | ICloseCapacity "StopReport option" | ICloseNotify "StopReport option" | IClosed "StopReport option"
  | IAwaitEnable bool | IAwaitLoad bool | IAwaitZero bool ExecutorServiceLifecycle
  | IAwaitParked bool | IAwaitReturned
  | IProduceTry bool | IProduceWait bool

record 'n isys =
  isvc :: "'n isvc"
  itasks :: "usize \<rightharpoonup> itask"
  iholder :: iholder_pc
  ithreads :: "nat \<rightharpoonup> ithread_pc"

definition iinit :: "'n atomic_count \<Rightarrow> usize \<Rightarrow> 'n isys" where
  "iinit ac capacity = \<lparr>isvc = io_state_with_task_capacity ac capacity, itasks = Map.empty,
     iholder = IUnlocked, ithreads = Map.empty\<rparr>"

abbreviation iput_task :: "usize \<Rightarrow> itask \<Rightarrow> 'n isys \<Rightarrow> 'n isys" where
  "iput_task k t s \<equiv> s\<lparr>itasks := (itasks s)(k \<mapsto> t)\<rparr>"

abbreviation iput_thread :: "nat \<Rightarrow> ithread_pc \<Rightarrow> 'n isys \<Rightarrow> 'n isys" where
  "iput_thread i pc s \<equiv> s\<lparr>ithreads := (ithreads s)(i \<mapsto> pc)\<rparr>"

abbreviation ihandles :: "'n isys \<Rightarrow> usize \<rightharpoonup> unit IoTrackedAbortHandle" where
  "ihandles s \<equiv> io_abort_handles (isvc s)"

section \<open>Notifications\<close>

fun iwake_notified :: "ithread_pc \<Rightarrow> ithread_pc" where
  "iwake_notified (IAwaitEnable n) = IAwaitEnable True"
| "iwake_notified (IAwaitLoad n) = IAwaitLoad True"
| "iwake_notified (IAwaitZero n l) = IAwaitZero True l"
| "iwake_notified (IAwaitParked n) = IAwaitParked True"
| "iwake_notified pc = pc"

fun iwake_producer :: "ithread_pc \<Rightarrow> ithread_pc" where
  "iwake_producer (IProduceTry n) = IProduceTry True"
| "iwake_producer (IProduceWait n) = IProduceWait True"
| "iwake_producer pc = pc"

definition iwake_all :: "(ithread_pc \<Rightarrow> ithread_pc) \<Rightarrow> 'n isys \<Rightarrow> 'n isys" where
  "iwake_all f s = s\<lparr>ithreads := (\<lambda>i. map_option f (ithreads s i))\<rparr>"

definition isignal_capacity :: "'n isys \<Rightarrow> 'n isys" where
  "isignal_capacity s = iwake_all iwake_producer (s\<lparr>isvc := io_notify_capacity_changed (isvc s)\<rparr>)"

definition isignal_notify :: "'n isys \<Rightarrow> 'n isys" where
  "isignal_notify s = iwake_all iwake_notified (s\<lparr>isvc := io_notify_termination_waiters (isvc s)\<rparr>)"

section \<open>The life of an accepted future\<close>

text \<open>
  A handoff is delivered, or its payload comes back or is dropped undelivered; the spawned
  task receives it, or is dropped with the payload in its channel; a received future returns,
  fails, unwinds or is dropped with its task. Each way leads to its destructor, then to the
  drop of the guard. Tokio may drop a task at any time (an abort, or the runtime's shutdown).
\<close>

inductive future_step :: "'n atomic_count \<Rightarrow> usize \<Rightarrow> 'n isys \<Rightarrow> 'n isys \<Rightarrow> bool" for ac k where
  future_sent: "itasks s k = Some t \<Longrightarrow> i_future t = FutureHeld \<Longrightarrow>
    future_step ac k s (iput_task k (t\<lparr>i_future := FutureSent\<rparr>) s)"
| future_unsent: "itasks s k = Some t \<Longrightarrow> i_future t = FutureHeld \<Longrightarrow>
    future_step ac k s (iput_task k (t\<lparr>i_future := FutureDrop\<rparr>) s)"
| future_received: "itasks s k = Some t \<Longrightarrow> i_future t = FutureSent \<Longrightarrow>
    future_step ac k s (iput_task k (t\<lparr>i_future := FuturePolled\<rparr>) s)"
| future_unreceived: "itasks s k = Some t \<Longrightarrow> i_future t = FutureSent \<Longrightarrow>
    future_step ac k s (iput_task k (t\<lparr>i_future := FutureDrop\<rparr>) s)"
| future_finished: "itasks s k = Some t \<Longrightarrow> i_future t = FuturePolled \<Longrightarrow>
    future_step ac k s (iput_task k (t\<lparr>i_future := FutureDrop\<rparr>) s)"
| future_dropped: "itasks s k = Some t \<Longrightarrow> i_future t = FutureDrop \<Longrightarrow>
    future_step ac k s (iput_task k (t\<lparr>i_future := GuardMark\<rparr>) s)"
| guard_mark: "itasks s k = Some t \<Longrightarrow> i_future t = GuardMark \<Longrightarrow>
    future_step ac k s (iput_task k (t\<lparr>i_registration := finish (i_registration t), i_future := GuardRemove\<rparr>) s)"
| guard_remove: "itasks s k = Some t \<Longrightarrow> i_future t = GuardRemove \<Longrightarrow>
    future_step ac k s (iput_task k (t\<lparr>i_future := GuardCount\<rparr>)
      (s\<lparr>isvc := (isvc s)\<lparr>io_abort_handles := (ihandles s)(key k := None)\<rparr>\<rparr>))"
| guard_count: "itasks s k = Some t \<Longrightarrow> i_future t = GuardCount \<Longrightarrow>
    ac_dec ac (active_tasks (isvc s)) = Some n \<Longrightarrow>
    future_step ac k s (iput_task k (t\<lparr>i_future := GuardCapacity\<rparr>) (s\<lparr>isvc := (isvc s)\<lparr>active_tasks := n\<rparr>\<rparr>))"
| guard_capacity: "itasks s k = Some t \<Longrightarrow> i_future t = GuardCapacity \<Longrightarrow>
    future_step ac k s (iput_task k (t\<lparr>i_future := GuardNotify\<rparr>) (isignal_capacity s))"
| guard_notify: "itasks s k = Some t \<Longrightarrow> i_future t = GuardNotify \<Longrightarrow>
    future_step ac k s (iput_task k (t\<lparr>i_future := GuardDone\<rparr>) (isignal_notify s))"

section \<open>Steps under the submission lock\<close>

inductive iholder_step :: "bool \<Rightarrow> 'n atomic_count \<Rightarrow> 'n isys \<Rightarrow> 'n isys \<Rightarrow> bool" for dbg ac where
  ilock: "io_lock_submission (isvc s) = Some v \<Longrightarrow> h \<in> {ISubmitCheck, IShutdownStore, IStopStore} \<Longrightarrow>
    iholder_step dbg ac s (s\<lparr>isvc := v, iholder := h\<rparr>)"
| isubmit_open: "iholder s = ISubmitCheck \<Longrightarrow> \<not> io_is_not_running (isvc s) \<Longrightarrow>
    iholder_step dbg ac s (s\<lparr>iholder := ISubmitGet\<rparr>)"
| isubmit_shutdown: "iholder s = ISubmitCheck \<Longrightarrow> io_is_not_running (isvc s) \<Longrightarrow>
    iholder_step dbg ac s (s\<lparr>isvc := io_unlock_submission (isvc s), iholder := IUnlocked\<rparr>)"
| isubmit_room: "iholder s = ISubmitGet \<Longrightarrow>
    \<not> ac_get ac (active_tasks (isvc s)) \<ge> io_task_capacity (isvc s) \<Longrightarrow>
    iholder_step dbg ac s (s\<lparr>iholder := ISubmitInc\<rparr>)"
| isubmit_saturated: "iholder s = ISubmitGet \<Longrightarrow>
    ac_get ac (active_tasks (isvc s)) \<ge> io_task_capacity (isvc s) \<Longrightarrow>
    iholder_step dbg ac s (s\<lparr>isvc := io_unlock_submission (isvc s), iholder := IUnlocked\<rparr>)"
| iproducer_saturated: "iholder s = ISubmitGet \<Longrightarrow>
    ac_get ac (active_tasks (isvc s)) \<ge> io_task_capacity (isvc s) \<Longrightarrow> ithreads s i = Some (IProduceTry n) \<Longrightarrow>
    iholder_step dbg ac s (iput_thread i (IProduceWait n)
      (s\<lparr>isvc := io_unlock_submission (isvc s), iholder := IUnlocked\<rparr>))"
| isubmit_inc: "iholder s = ISubmitInc \<Longrightarrow> ac_inc ac (active_tasks (isvc s)) = Some n \<Longrightarrow>
    iholder_step dbg ac s (s\<lparr>isvc := (isvc s)\<lparr>active_tasks := n\<rparr>, iholder := ISubmitCreate\<rparr>)"
| isubmit_create: "iholder s = ISubmitCreate \<Longrightarrow> itasks s k = None \<Longrightarrow>
    iholder_step dbg ac s (iput_task k \<lparr>i_registration = registration_new, i_future = FutureAdmitted\<rparr>
      (s\<lparr>iholder := ISubmitRegister k\<rparr>))"
| isubmit_register: "iholder s = ISubmitRegister k \<Longrightarrow> itasks s k = Some t \<Longrightarrow>
    \<not> is_finished (i_registration t) \<Longrightarrow>
    debug_assert dbg (ihandles s (key k) = None) = Some () \<Longrightarrow>
    iholder_step dbg ac s (s\<lparr>isvc := (isvc s)\<lparr>io_abort_handles := (ihandles s)
      (key k \<mapsto> \<lparr>io_tracked_marker = k, io_handle = ()\<rparr>)\<rparr>, iholder := ISubmitUnlock k\<rparr>)"
| isubmit_register_finished: "iholder s = ISubmitRegister k \<Longrightarrow>
    iholder_step dbg ac s (s\<lparr>iholder := ISubmitUnlock k\<rparr>)"
| isubmit_unlock: "iholder s = ISubmitUnlock k \<Longrightarrow> itasks s k = Some t \<Longrightarrow>
    iholder_step dbg ac s (iput_task k (t\<lparr>i_future := FutureHeld\<rparr>)
      (s\<lparr>isvc := io_unlock_submission (isvc s), iholder := IUnlocked\<rparr>))"
| ishutdown_store: "iholder s = IShutdownStore \<Longrightarrow>
    iholder_step dbg ac s (s\<lparr>isvc := io_state_shutdown (isvc s), iholder := IShutdownUnlock\<rparr>)"
| ishutdown_unlock: "iholder s = IShutdownUnlock \<Longrightarrow> ithreads s i = None \<Longrightarrow>
    iholder_step dbg ac s (iput_thread i (ICloseCapacity None)
      (s\<lparr>isvc := io_unlock_submission (isvc s), iholder := IUnlocked\<rparr>))"
| istop_store: "iholder s = IStopStore \<Longrightarrow>
    iholder_step dbg ac s (s\<lparr>isvc := io_state_stop (isvc s), iholder := IStopGet\<rparr>)"
| istop_get: "iholder s = IStopGet \<Longrightarrow>
    iholder_step dbg ac s (s\<lparr>iholder := IStopUnlock (ac_get ac (active_tasks (isvc s)))\<rparr>)"
| istop_unlock: "iholder s = IStopUnlock r \<Longrightarrow> ithreads s i = None \<Longrightarrow>
    iholder_step dbg ac s (iput_thread i (IStopTake r)
      (s\<lparr>isvc := io_unlock_submission (isvc s), iholder := IUnlocked\<rparr>))"

section \<open>Steps of the other threads\<close>

text \<open>
  \<^verbatim>\<open>is_finished\<close> of an abort handle may answer either way; the taken handles are visited in
  any order.
\<close>

definition iclose_report :: "usize \<Rightarrow> usize \<Rightarrow> StopReport option" where
  "iclose_report r n = Some \<lparr>report_queued = 0, report_running = r, report_cancelled = n\<rparr>"

inductive icloser_step :: "bool \<Rightarrow> 'n isys \<Rightarrow> 'n isys \<Rightarrow> bool" for dbg where
  istop_take: "ithreads s i = Some (IStopTake r) \<Longrightarrow> distinct ks \<Longrightarrow> set ks = dom (ihandles s) \<Longrightarrow>
    icloser_step dbg s (iput_thread i (IStopLoop r ks 0)
      (s\<lparr>isvc := (isvc s)\<lparr>io_abort_handles := Map.empty\<rparr>\<rparr>))"
| istop_skip: "ithreads s i = Some (IStopLoop r (k # ks) n) \<Longrightarrow>
    icloser_step dbg s (iput_thread i (IStopLoop r ks n) s)"
| istop_abort: "ithreads s i = Some (IStopLoop r (k # ks) n) \<Longrightarrow>
    icloser_step dbg s (iput_thread i (IStopCount r ks n) s)"
| istop_count: "ithreads s i = Some (IStopCount r ks n) \<Longrightarrow> add_assign dbg n 1 = Some m \<Longrightarrow>
    icloser_step dbg s (iput_thread i (IStopLoop r ks m) s)"
| istop_loop_end: "ithreads s i = Some (IStopLoop r [] n) \<Longrightarrow>
    icloser_step dbg s (iput_thread i (ICloseCapacity (iclose_report r n)) s)"
| iclose_capacity: "ithreads s i = Some (ICloseCapacity rep) \<Longrightarrow>
    icloser_step dbg s (iput_thread i (ICloseNotify rep) (isignal_capacity s))"
| iclose_notify: "ithreads s i = Some (ICloseNotify rep) \<Longrightarrow>
    icloser_step dbg s (iput_thread i (IClosed rep) (isignal_notify s))"

text \<open>
  \<^verbatim>\<open>await_termination\<close>: the \<^verbatim>\<open>Notified\<close> future exists before each look at the lifecycle, which
  is a load of the byte and then \<^verbatim>\<open>is_zero\<close> of the counter (read only when the byte is not
  running, which changes nothing).
\<close>

definition iterminated_view ::
  "'n atomic_count \<Rightarrow> ExecutorServiceLifecycle \<Rightarrow> 'n isvc \<Rightarrow> ExecutorServiceLifecycle" where
  "iterminated_view ac l v = (if l \<noteq> Running \<and> ac_is_zero ac (active_tasks v) then Terminated else l)"

inductive iwaiter_step :: "'n atomic_count \<Rightarrow> 'n isys \<Rightarrow> 'n isys \<Rightarrow> bool" for ac where
  iawait_start: "ithreads s i = None \<Longrightarrow> iwaiter_step ac s (iput_thread i (IAwaitEnable False) s)"
| iawait_enable: "ithreads s i = Some (IAwaitEnable n) \<Longrightarrow> iwaiter_step ac s (iput_thread i (IAwaitLoad n) s)"
| iawait_load: "ithreads s i = Some (IAwaitLoad n) \<Longrightarrow>
    iwaiter_step ac s (iput_thread i (IAwaitZero n (load (io_lifecycle_byte (isvc s)))) s)"
| iawait_ready: "ithreads s i = Some (IAwaitZero n l) \<Longrightarrow> iterminated_view ac l (isvc s) = Terminated \<Longrightarrow>
    iwaiter_step ac s (iput_thread i IAwaitReturned s)"
| iawait_park: "ithreads s i = Some (IAwaitZero n l) \<Longrightarrow> iterminated_view ac l (isvc s) \<noteq> Terminated \<Longrightarrow>
    iwaiter_step ac s (iput_thread i (IAwaitParked n) s)"
| iawait_wake: "ithreads s i = Some (IAwaitParked True) \<Longrightarrow>
    iwaiter_step ac s (iput_thread i (IAwaitEnable False) s)"
| iproduce_start: "ithreads s i = None \<Longrightarrow> iwaiter_step ac s (iput_thread i (IProduceTry False) s)"
| iproduce_changed: "ithreads s i = Some (IProduceWait True) \<Longrightarrow>
    iwaiter_step ac s (iput_thread i (IProduceTry False) s)"

section \<open>The whole system\<close>

text \<open>
  \<open>ireclaim\<close>: the marker of a released registration that no tracked handle and no stopping
  thread refers to is freed, and its address may be used again.
\<close>

fun imentions :: "ithread_pc \<Rightarrow> usize set" where
  "imentions (IStopLoop r ks n) = set ks"
| "imentions (IStopCount r ks n) = set ks"
| "imentions pc = {}"

inductive ireclaim_step :: "'n isys \<Rightarrow> 'n isys \<Rightarrow> bool" where
  ireclaim: "itasks s k = Some t \<Longrightarrow> i_future t = GuardDone \<Longrightarrow> ihandles s (key k) = None \<Longrightarrow>
    (\<And>i pc. ithreads s i = Some pc \<Longrightarrow> k \<notin> imentions pc) \<Longrightarrow>
    ireclaim_step s (s\<lparr>itasks := (itasks s)(k := None)\<rparr>)"
| ithread_exit: "ithreads s i = Some pc \<Longrightarrow> pc = IAwaitReturned \<or> (\<exists>rep. pc = IClosed rep) \<Longrightarrow>
    ireclaim_step s (s\<lparr>ithreads := (ithreads s)(i := None)\<rparr>)"

inductive istep :: "bool \<Rightarrow> 'n atomic_count \<Rightarrow> 'n isys \<Rightarrow> 'n isys \<Rightarrow> bool" for dbg ac where
  iby_future: "future_step ac k s s' \<Longrightarrow> istep dbg ac s s'"
| iby_holder: "iholder_step dbg ac s s' \<Longrightarrow> istep dbg ac s s'"
| iby_closer: "icloser_step dbg s s' \<Longrightarrow> istep dbg ac s s'"
| iby_waiter: "iwaiter_step ac s s' \<Longrightarrow> istep dbg ac s s'"
| iby_reclaim: "ireclaim_step s s' \<Longrightarrow> istep dbg ac s s'"

inductive ireach :: "bool \<Rightarrow> 'n atomic_count \<Rightarrow> usize \<Rightarrow> 'n isys \<Rightarrow> bool" for dbg ac capacity where
  ireach_init: "ireach dbg ac capacity (iinit ac capacity)"
| ireach_step: "ireach dbg ac capacity s \<Longrightarrow> istep dbg ac s s' \<Longrightarrow> ireach dbg ac capacity s'"

text \<open>A thread is about to panic: the operation its counter stands at has no result.\<close>

definition iabout_to_panic :: "bool \<Rightarrow> 'n atomic_count \<Rightarrow> 'n isys \<Rightarrow> bool" where
  "iabout_to_panic dbg ac s \<longleftrightarrow>
     (iholder s = ISubmitInc \<and> ac_inc ac (active_tasks (isvc s)) = None) \<or>
     (\<exists>k. iholder s = ISubmitRegister k \<and> dbg \<and> ihandles s (key k) \<noteq> None) \<or>
     (\<exists>k t. itasks s k = Some t \<and> i_future t = GuardCount \<and> ac_dec ac (active_tasks (isvc s)) = None) \<or>
     (\<exists>i r ks n. ithreads s i = Some (IStopCount r ks n) \<and> add_assign dbg n 1 = None)"

inductive_cases future_stepE: "future_step ac k s s'"
inductive_cases iholder_stepE: "iholder_step dbg ac s s'"
inductive_cases icloser_stepE: "icloser_step dbg s s'"
inductive_cases iwaiter_stepE: "iwaiter_step ac s s'"
inductive_cases ireclaim_stepE: "ireclaim_step s s'"
inductive_cases istepE: "istep dbg ac s s'"

lemmas istep_elims = istepE future_stepE iholder_stepE icloser_stepE iwaiter_stepE ireclaim_stepE

end
