(* ===== verification/Io_Invariants.thy ===== *)
theory Io_Invariants
  imports Io_Interleaving
begin

text \<open>
  The invariants of the interleaved IO service: the submission lock and the lifecycle it
  guards, where each future and its guard are, the counter against the futures, the tracked
  abort handles, and the tally of a stop. Each is preserved by every step.
\<close>

section \<open>What notifications leave alone\<close>

lemma isignal_frame [simp]:
  "itasks (isignal_capacity s) = itasks s" "iholder (isignal_capacity s) = iholder s"
  "itasks (isignal_notify s) = itasks s" "iholder (isignal_notify s) = iholder s"
  "ithreads (isignal_capacity s) i = map_option iwake_producer (ithreads s i)"
  "ithreads (isignal_notify s) i = map_option iwake_notified (ithreads s i)"
  by (simp_all add: isignal_capacity_def isignal_notify_def iwake_all_def)

lemma isignal_svc [simp]:
  "active_tasks (isvc (isignal_capacity s)) = active_tasks (isvc s)"
  "active_tasks (isvc (isignal_notify s)) = active_tasks (isvc s)"
  "ihandles (isignal_capacity s) = ihandles s" "ihandles (isignal_notify s) = ihandles s"
  "io_task_capacity (isvc (isignal_capacity s)) = io_task_capacity (isvc s)"
  "io_task_capacity (isvc (isignal_notify s)) = io_task_capacity (isvc s)"
  "io_lifecycle_byte (isvc (isignal_capacity s)) = io_lifecycle_byte (isvc s)"
  "io_lifecycle_byte (isvc (isignal_notify s)) = io_lifecycle_byte (isvc s)"
  "io_submission_lock (isvc (isignal_capacity s)) = io_submission_lock (isvc s)"
  "io_submission_lock (isvc (isignal_notify s)) = io_submission_lock (isvc s)"
  by (simp_all add: isignal_capacity_def isignal_notify_def iwake_all_def
      io_notify_capacity_changed_def io_notify_termination_waiters_def)

lemma io_state_updates [simp]:
  "io_lifecycle_byte (io_unlock_submission v) = io_lifecycle_byte v"
  "active_tasks (io_unlock_submission v) = active_tasks v"
  "io_abort_handles (io_unlock_submission v) = io_abort_handles v"
  "io_task_capacity (io_unlock_submission v) = io_task_capacity v"
  "\<not> io_submission_lock (io_unlock_submission v)"
  "active_tasks (io_state_shutdown v) = active_tasks v" "active_tasks (io_state_stop v) = active_tasks v"
  "io_abort_handles (io_state_shutdown v) = io_abort_handles v"
  "io_abort_handles (io_state_stop v) = io_abort_handles v"
  "io_task_capacity (io_state_shutdown v) = io_task_capacity v"
  "io_task_capacity (io_state_stop v) = io_task_capacity v"
  "io_submission_lock (io_state_shutdown v) = io_submission_lock v"
  "io_submission_lock (io_state_stop v) = io_submission_lock v"
  by (simp_all add: io_unlock_submission_def io_state_shutdown_def io_state_stop_def)

lemma io_lock_submission_Some:
  "io_lock_submission v = Some v' \<longleftrightarrow> \<not> io_submission_lock v \<and> v' = v\<lparr>io_submission_lock := True\<rparr>"
  by (auto simp: io_lock_submission_def)

abbreviation iclosed :: "'n isys \<Rightarrow> bool" where
  "iclosed s \<equiv> load (io_lifecycle_byte (isvc s)) \<noteq> Running"

lemma io_closes [simp]:
  "load (io_lifecycle_byte (io_state_shutdown v)) \<noteq> Running"
  "load (io_lifecycle_byte (io_state_stop v)) \<noteq> Running"
  using is_not_running_updates(6,7) [of "state_with_task_capacity 0\<lparr>lifecycle_byte := io_lifecycle_byte v\<rparr>"]
  by (simp_all add: is_not_running_def io_state_shutdown_def io_state_stop_def state_shutdown_def
      state_stop_def del: load_Running_iff)

lemma iwake_imentions [simp]:
  "imentions (iwake_producer pc) = imentions pc" "imentions (iwake_notified pc) = imentions pc"
  by (cases pc; simp)+

declare load_Running_iff [simp del]

section \<open>The submission lock\<close>

fun isubmitting :: "iholder_pc \<Rightarrow> bool" where
  "isubmitting ISubmitGet = True"
| "isubmitting ISubmitInc = True"
| "isubmitting ISubmitCreate = True"
| "isubmitting (ISubmitRegister k) = True"
| "isubmitting (ISubmitUnlock k) = True"
| "isubmitting h = False"

fun iclosing :: "iholder_pc \<Rightarrow> bool" where
  "iclosing IShutdownUnlock = True"
| "iclosing IStopGet = True"
| "iclosing (IStopUnlock r) = True"
| "iclosing h = False"

definition iinv_lock :: "'n isys \<Rightarrow> bool" where
  "iinv_lock s \<longleftrightarrow> io_submission_lock (isvc s) = (iholder s \<noteq> IUnlocked) \<and>
     (isubmitting (iholder s) \<longrightarrow> \<not> iclosed s) \<and> (iclosing (iholder s) \<longrightarrow> iclosed s)"

lemma future_step_frame:
  assumes "future_step ac k s s'"
  shows "iholder s' = iholder s" "io_lifecycle_byte (isvc s') = io_lifecycle_byte (isvc s)"
    "io_submission_lock (isvc s') = io_submission_lock (isvc s)"
    "io_task_capacity (isvc s') = io_task_capacity (isvc s)"
  using assms by (elim future_stepE; simp)+

lemma icloser_step_frame:
  assumes "icloser_step dbg s s'"
  shows "iholder s' = iholder s" "io_lifecycle_byte (isvc s') = io_lifecycle_byte (isvc s)"
    "io_submission_lock (isvc s') = io_submission_lock (isvc s)"
    "io_task_capacity (isvc s') = io_task_capacity (isvc s)"
    "itasks s' = itasks s" "active_tasks (isvc s') = active_tasks (isvc s)"
    "ihandles s' = ihandles s \<or> ihandles s' = Map.empty"
  using assms by (elim icloser_stepE; simp)+

lemma iwaiter_step_frame:
  assumes "iwaiter_step ac s s'"
  shows "iholder s' = iholder s" "isvc s' = isvc s" "itasks s' = itasks s"
  using assms by (elim iwaiter_stepE; simp)+

lemma ireclaim_step_frame:
  assumes "ireclaim_step s s'"
  shows "iholder s' = iholder s" "isvc s' = isvc s"
  using assms by (elim ireclaim_stepE; simp)+

lemmas istep_frames = future_step_frame icloser_step_frame iwaiter_step_frame ireclaim_step_frame

lemma iinv_lock_holder: "iholder_step dbg ac s s' \<Longrightarrow> iinv_lock s \<Longrightarrow> iinv_lock s'"
  by (elim iholder_stepE) (auto simp: iinv_lock_def io_lock_submission_Some io_is_not_running_def)

lemma iinv_lock_frame:
  "iinv_lock s \<Longrightarrow> io_submission_lock (isvc s') = io_submission_lock (isvc s) \<Longrightarrow>
   iholder s' = iholder s \<Longrightarrow> io_lifecycle_byte (isvc s') = io_lifecycle_byte (isvc s) \<Longrightarrow> iinv_lock s'"
  by (simp add: iinv_lock_def)

lemma iinv_lock_step: "istep dbg ac s s' \<Longrightarrow> iinv_lock s \<Longrightarrow> iinv_lock s'"
  by (elim istepE) (simp_all add: iinv_lock_holder iinv_lock_frame [of s s'] istep_frames)

text \<open>A close is never undone, and only the holder of the lock closes.\<close>

lemma iholder_step_close: "iholder_step dbg ac s s' \<Longrightarrow> iclosed s \<Longrightarrow> iclosed s'"
  by (elim iholder_stepE) (simp_all add: io_lock_submission_Some)

lemma iclosed_step: "istep dbg ac s s' \<Longrightarrow> iclosed s \<Longrightarrow> iclosed s'"
  by (elim istepE) (simp_all add: iholder_step_close istep_frames)

lemma iholder_step_closes:
  "iholder_step dbg ac s s' \<Longrightarrow> iclosed s' \<Longrightarrow> \<not> iclosed s \<Longrightarrow> iclosing (iholder s')"
  by (elim iholder_stepE) (simp_all add: io_lock_submission_Some)

lemma istep_closes:
  "istep dbg ac s s' \<Longrightarrow> iclosed s' \<Longrightarrow> \<not> iclosed s \<Longrightarrow> iclosing (iholder s')"
  by (elim istepE) (simp_all add: iholder_step_closes istep_frames)

lemma icapacity_constant: "istep dbg ac s s' \<Longrightarrow> io_task_capacity (isvc s') = io_task_capacity (isvc s)"
  by (elim istepE iholder_stepE) (simp_all add: istep_frames io_lock_submission_Some)

section \<open>Futures and their guards\<close>

definition past_mark :: "future_pc \<Rightarrow> bool" where
  "past_mark p \<longleftrightarrow> p \<in> {GuardRemove, GuardCount, GuardCapacity, GuardNotify, GuardDone}"

definition past_remove :: "future_pc \<Rightarrow> bool" where
  "past_remove p \<longleftrightarrow> p \<in> {GuardCount, GuardCapacity, GuardNotify, GuardDone}"

definition future_alive :: "future_pc \<Rightarrow> bool" where
  "future_alive p \<longleftrightarrow> p \<in> {FutureAdmitted, FutureHeld, FutureSent, FuturePolled, FutureDrop}"

definition is_counted :: "future_pc \<Rightarrow> bool" where
  "is_counted p \<longleftrightarrow> p \<notin> {GuardCapacity, GuardNotify, GuardDone}"

lemmas phase_defs = past_mark_def past_remove_def future_alive_def is_counted_def

definition iinv_tasks :: "'n isys \<Rightarrow> bool" where
  "iinv_tasks s \<longleftrightarrow> finite (dom (itasks s)) \<and>
     (\<forall>k t. itasks s k = Some t \<longrightarrow> is_finished (i_registration t) = past_mark (i_future t) \<and>
        (i_future t = FutureAdmitted \<longleftrightarrow> iholder s \<in> {ISubmitRegister k, ISubmitUnlock k})) \<and>
     (\<forall>k. iholder s \<in> {ISubmitRegister k, ISubmitUnlock k} \<longrightarrow> itasks s k \<noteq> None)"

lemma iinv_tasksD:
  assumes "iinv_tasks s"
  shows "finite (dom (itasks s))"
    "itasks s k = Some t \<Longrightarrow> is_finished (i_registration t) = past_mark (i_future t)"
    "itasks s k = Some t \<Longrightarrow> i_future t = FutureAdmitted \<longleftrightarrow> iholder s \<in> {ISubmitRegister k, ISubmitUnlock k}"
    "iholder s \<in> {ISubmitRegister k, ISubmitUnlock k} \<Longrightarrow> itasks s k \<noteq> None"
  using assms unfolding iinv_tasks_def by blast+

lemma finished_simps [simp]: "\<not> is_finished registration_new" "is_finished (finish r)"
  by (simp_all add: registration_new_def finish_def is_finished_def)

lemma iinv_tasks_put:
  assumes "iinv_tasks s" and "itasks s k = Some t" and "itasks s' = (itasks s)(k \<mapsto> t')"
    and "iholder s' = iholder s" and "i_future t \<noteq> FutureAdmitted" and "i_future t' \<noteq> FutureAdmitted"
    and "is_finished (i_registration t') = past_mark (i_future t')"
  shows "iinv_tasks s'"
  using assms(1,2) iinv_tasksD(3) [OF assms(1,2)] assms(3-) unfolding iinv_tasks_def by auto

text \<open>A future's step changes only its own entry, and never back to admission.\<close>

definition future_change :: "itask \<Rightarrow> itask \<Rightarrow> bool" where
  "future_change t t' \<longleftrightarrow> i_future t \<noteq> FutureAdmitted \<and> i_future t' \<noteq> FutureAdmitted \<and>
     (is_finished (i_registration t) = past_mark (i_future t) \<longrightarrow>
        is_finished (i_registration t') = past_mark (i_future t')) \<and>
     (past_remove (i_future t) \<longrightarrow> past_remove (i_future t')) \<and>
     (is_counted (i_future t') \<longrightarrow> is_counted (i_future t))"

lemma future_step_task:
  assumes "future_step ac k s s'"
  shows "\<exists>t t'. itasks s k = Some t \<and> itasks s' = (itasks s)(k \<mapsto> t') \<and> future_change t t'"
proof -
  have "itasks s k \<noteq> None" using assms by (elim future_stepE) simp_all
  then obtain t where t: "itasks s k = Some t" by blast
  then have "itasks s' = (itasks s)(k \<mapsto> the (itasks s' k)) \<and> future_change t (the (itasks s' k))"
    using assms by (elim future_stepE) (simp_all add: future_change_def phase_defs)
  with t show ?thesis by blast
qed

lemma iinv_tasks_frame:
  "iinv_tasks s \<Longrightarrow> itasks s' = itasks s \<Longrightarrow> iholder s' = iholder s \<Longrightarrow> iinv_tasks s'"
  by (simp add: iinv_tasks_def)

lemma iinv_tasks_future:
  assumes "future_step ac k s s'" and "iinv_tasks s"
  shows "iinv_tasks s'"
proof -
  obtain t t' where t: "itasks s k = Some t" "itasks s' = (itasks s)(k \<mapsto> t')" "future_change t t'"
    using future_step_task [OF assms(1)] by blast
  with iinv_tasksD(2) [OF assms(2) t(1)] show ?thesis
    by (intro iinv_tasks_put [OF assms(2) t(1,2) future_step_frame(1) [OF assms(1)]])
      (simp_all add: future_change_def)
qed

lemma past_mark_simps [simp]: "\<not> past_mark FutureAdmitted" "\<not> past_mark FutureHeld"
  by (simp_all add: past_mark_def)

lemma past_mark_admitted: "past_mark p \<Longrightarrow> p \<noteq> FutureAdmitted"
  by (auto simp: past_mark_def)

lemma iinv_tasks_holder: "iholder_step dbg ac s s' \<Longrightarrow> iinv_lock s \<Longrightarrow> iinv_tasks s \<Longrightarrow> iinv_tasks s'"
  by (elim iholder_stepE)
    (auto simp: iinv_tasks_def iinv_lock_def io_lock_submission_Some dest!: past_mark_admitted)

lemma iinv_tasks_step:
  assumes "istep dbg ac s s'" and "iinv_tasks s" and "iinv_lock s"
  shows "iinv_tasks s'"
  using assms(1)
proof (cases rule: istep.cases)
  case iby_reclaim
  then show ?thesis using assms(2)
  proof (elim ireclaim_stepE)
    fix k t assume "itasks s k = Some t" "i_future t = GuardDone" "s' = s\<lparr>itasks := (itasks s)(k := None)\<rparr>"
    moreover from this have "iholder s \<notin> {ISubmitRegister k, ISubmitUnlock k}"
      using iinv_tasksD(3) [OF assms(2)] by fastforce
    ultimately show ?thesis using assms(2) unfolding iinv_tasks_def by auto
  qed (simp add: iinv_tasks_def)
qed (use assms(2,3) in \<open>simp_all add: iinv_tasks_future iinv_tasks_holder iinv_tasks_frame [of s s'] istep_frames\<close>)

section \<open>The counter\<close>

text \<open>
  A future counts until its guard has decremented; between the increment and the creation of
  the guard the slot is the submitter's.
\<close>

definition counted_total :: "'n isys \<Rightarrow> nat" where
  "counted_total s = msum (\<lambda>t. of_bool (is_counted (i_future t))) (itasks s) +
     of_bool (iholder s = ISubmitCreate)"

definition iinv_count :: "'n atomic_count \<Rightarrow> 'n isys \<Rightarrow> bool" where
  "iinv_count ac s \<longleftrightarrow> unat (ac_get ac (active_tasks (isvc s))) = counted_total s \<and>
     counted_total s \<le> unat (io_task_capacity (isvc s)) \<and>
     (iholder s = ISubmitInc \<longrightarrow> counted_total s < unat (io_task_capacity (isvc s)))"

lemma iinv_countD:
  assumes "iinv_count ac s"
  shows "unat (ac_get ac (active_tasks (isvc s))) = counted_total s"
    "counted_total s \<le> unat (io_task_capacity (isvc s))"
    "iholder s = ISubmitInc \<Longrightarrow> counted_total s < unat (io_task_capacity (isvc s))"
  using assms by (simp_all add: iinv_count_def)

lemma counted_member:
  "iinv_tasks s \<Longrightarrow> itasks s k = Some t \<Longrightarrow> is_counted (i_future t) \<Longrightarrow> 0 < counted_total s"
  using msum_member_le [of "itasks s" k t "\<lambda>t. of_bool (is_counted (i_future t))"]
  by (simp add: counted_total_def iinv_tasks_def)

lemma counted_total_put:
  assumes "iinv_tasks s" and "itasks s k = Some t" and "itasks s' = (itasks s)(k \<mapsto> t')" and "iholder s' = iholder s"
  shows "counted_total s' + of_bool (is_counted (i_future t)) = counted_total s + of_bool (is_counted (i_future t'))"
  using msum_upd [OF iinv_tasksD(1) [OF assms(1)] assms(2), of "\<lambda>t. of_bool (is_counted (i_future t))" t']
    assms(3,4) by (simp add: counted_total_def)

text \<open>A step of a future either leaves the counter alone, or is the decrement of its guard.\<close>

lemma future_step_count:
  assumes step: "future_step ac k s s'" and inv: "iinv_tasks s"
  shows "counted_total s' = counted_total s \<and> active_tasks (isvc s') = active_tasks (isvc s) \<or>
    Suc (counted_total s') = counted_total s \<and>
      ac_dec ac (active_tasks (isvc s)) = Some (active_tasks (isvc s')) \<and>
      map_option i_future (itasks s' k) = Some GuardCapacity \<and> ithreads s' = ithreads s"
proof -
  obtain t where t: "itasks s k = Some t" "itasks s' = (itasks s)(k \<mapsto> the (itasks s' k))"
    using future_step_task [OF step] by fastforce
  note put = counted_total_put [OF inv t future_step_frame(1) [OF step]]
  show ?thesis using step
    by (cases rule: future_step.cases) (use put t(1) in \<open>simp_all add: is_counted_def\<close>)
qed

lemma iinv_count_future:
  assumes ac: "counts_atomically ac" and step: "future_step ac k s s'"
    and inv: "iinv_tasks s" "iinv_count ac s"
  shows "iinv_count ac s'"
proof -
  note fr = future_step_frame [OF step]
  from future_step_count [OF step inv(1)] show ?thesis
  proof (elim disjE conjE)
    assume "Suc (counted_total s') = counted_total s"
      and dec: "ac_dec ac (active_tasks (isvc s)) = Some (active_tasks (isvc s'))"
    moreover from this have "0 < unat (ac_get ac (active_tasks (isvc s)))" using iinv_countD(1) [OF inv(2)] by simp
    then obtain c where "ac_dec ac (active_tasks (isvc s)) = Some c"
      "unat (ac_get ac c) = unat (ac_get ac (active_tasks (isvc s))) - 1" using ac_dec_spec [OF ac] by blast
    ultimately show ?thesis using inv(2) fr by (auto simp: iinv_count_def)
  qed (use inv(2) fr in \<open>simp add: iinv_count_def\<close>)
qed

lemma iinv_count_holder:
  assumes ac: "counts_atomically ac" and step: "iholder_step dbg ac s s'"
    and inv: "iinv_lock s" "iinv_tasks s" "iinv_count ac s"
  shows "iinv_count ac s'"
  using step
proof (cases rule: iholder_step.cases)
  case (isubmit_inc n)
  have "unat (ac_get ac (active_tasks (isvc s))) + 1 < 2 ^ 64"
    using iinv_countD(1,3) [OF inv(3)] isubmit_inc(2) unat_usize_less [of "io_task_capacity (isvc s)"] by linarith
  then obtain c where "ac_inc ac (active_tasks (isvc s)) = Some c"
    "unat (ac_get ac c) = unat (ac_get ac (active_tasks (isvc s))) + 1" using ac_inc_spec [OF ac] by blast
  then show ?thesis using isubmit_inc inv(3) by (auto simp: iinv_count_def counted_total_def)
next
  case (isubmit_create k)
  have "msum (\<lambda>t. of_bool (is_counted (i_future t))) (itasks s') =
      msum (\<lambda>t. of_bool (is_counted (i_future t))) (itasks s) + 1"
    using isubmit_create msum_upd_new [OF iinv_tasksD(1) [OF inv(2)] isubmit_create(3)]
    by (simp add: is_counted_def)
  then show ?thesis using isubmit_create inv(3) by (simp add: iinv_count_def counted_total_def)
next
  case (isubmit_unlock k t)
  then have "i_future t = FutureAdmitted" using iinv_tasksD(3) [OF inv(2)] by fastforce
  then have "msum (\<lambda>t. of_bool (is_counted (i_future t))) (itasks s') =
      msum (\<lambda>t. of_bool (is_counted (i_future t))) (itasks s)"
    using isubmit_unlock msum_upd_same [OF iinv_tasksD(1) [OF inv(2)] isubmit_unlock(3)]
    by (simp add: is_counted_def)
  then show ?thesis using isubmit_unlock inv(3) by (simp add: iinv_count_def counted_total_def)
next
  case isubmit_room
  then show ?thesis using inv(3) by (simp add: iinv_count_def counted_total_def word_le_nat_alt)
next
  case (ilock v h)
  then show ?thesis using inv(1,3)
    by (auto simp: iinv_count_def counted_total_def io_lock_submission_Some iinv_lock_def)
qed (use inv(3) in \<open>simp_all add: iinv_count_def counted_total_def\<close>)

lemma iinv_count_step:
  assumes ac: "counts_atomically ac" and step: "istep dbg ac s s'"
    and inv: "iinv_lock s" "iinv_tasks s" "iinv_count ac s"
  shows "iinv_count ac s'"
  using step
proof (cases rule: istep.cases)
  case iby_reclaim
  then show ?thesis
  proof (cases rule: ireclaim_step.cases)
    case (ireclaim k t)
    then have "msum (\<lambda>t. of_bool (is_counted (i_future t))) (itasks s') =
        msum (\<lambda>t. of_bool (is_counted (i_future t))) (itasks s)"
      using msum_remove [OF iinv_tasksD(1) [OF inv(2)] ireclaim(2), of "\<lambda>t. of_bool (is_counted (i_future t))"]
      by (simp add: is_counted_def)
    then show ?thesis using ireclaim(1) inv(3) by (simp add: iinv_count_def counted_total_def)
  qed (use inv(3) in \<open>simp add: iinv_count_def counted_total_def\<close>)
qed (use inv ac in \<open>simp_all add: iinv_count_future iinv_count_holder\<close>,
    use inv(3) in \<open>simp_all add: iinv_count_def counted_total_def istep_frames\<close>)

section \<open>Abort tracking\<close>

definition iinv_handles :: "'n isys \<Rightarrow> bool" where
  "iinv_handles s \<longleftrightarrow>
     (\<forall>k a. ihandles s k = Some a \<longrightarrow> key (io_tracked_marker a) = k \<and>
        (\<exists>t. itasks s k = Some t \<and> \<not> past_remove (i_future t))) \<and>
     (\<forall>k. iholder s = ISubmitRegister k \<longrightarrow> ihandles s k = None)"

lemma iinv_handlesD:
  assumes "iinv_handles s" and "ihandles s k = Some a"
  shows "key (io_tracked_marker a) = k" "\<exists>t. itasks s k = Some t \<and> \<not> past_remove (i_future t)"
  using assms unfolding iinv_handles_def by blast+

lemma iinv_handles_future:
  assumes step: "future_step ac k s s'" and inv: "iinv_handles s" "iinv_tasks s"
  shows "iinv_handles s'"
proof -
  obtain t t' where t: "itasks s k = Some t" "itasks s' = (itasks s)(k \<mapsto> t')" "future_change t t'"
    using future_step_task [OF step] by blast
  have sub: "ihandles s' j = ihandles s j \<or> ihandles s' j = None" for j
    using step by (cases rule: future_step.cases) (simp_all add: key_def)
  have mine: "ihandles s' k = None \<or> \<not> past_remove (i_future t')"
  proof (cases "past_remove (i_future t)")
    case True
    then have "ihandles s k = None" using iinv_handlesD(2) [OF inv(1)] t(1) by (cases "ihandles s k") fastforce+
    with sub [of k] show ?thesis by auto
  next
    case False
    have "map_option i_future (itasks s' k) = Some (i_future t')" using t(2) by simp
    with step t(1) False show ?thesis
      by (cases rule: future_step.cases) (auto simp: past_remove_def key_def)
  qed
  show ?thesis unfolding iinv_handles_def
  proof (intro conjI allI impI)
    fix j a assume a: "ihandles s' j = Some a"
    with sub [of j] have old: "ihandles s j = Some a" by auto
    show "key (io_tracked_marker a) = j" by (rule iinv_handlesD(1) [OF inv(1) old])
    show "\<exists>t. itasks s' j = Some t \<and> \<not> past_remove (i_future t)"
      using iinv_handlesD(2) [OF inv(1) old] mine a t(2) by (cases "j = k") auto
  next
    fix j assume "iholder s' = ISubmitRegister j"
    then have "ihandles s j = None" using inv(1) future_step_frame(1) [OF step] by (simp add: iinv_handles_def)
    with sub [of j] show "ihandles s' j = None" by auto
  qed
qed

lemma past_remove_simps [simp]: "\<not> past_remove FutureAdmitted" "\<not> past_remove FutureHeld"
  by (simp_all add: past_remove_def)

lemma iinv_handles_holder:
  assumes step: "iholder_step dbg ac s s'" and inv: "iinv_handles s" "iinv_tasks s"
  shows "iinv_handles s'"
  using step
proof (cases rule: iholder_step.cases)
  case (isubmit_create k)
  then have "ihandles s k = None" using iinv_handlesD(2) [OF inv(1)] by (cases "ihandles s k") fastforce+
  moreover have "ihandles s j = Some a \<Longrightarrow> j \<noteq> k" for j a using \<open>ihandles s k = None\<close> by auto
  ultimately show ?thesis using isubmit_create(1) inv(1) by (fastforce simp: iinv_handles_def)
next
  case (isubmit_register k t)
  then have "i_future t = FutureAdmitted" using iinv_tasksD(3) [OF inv(2)] by fastforce
  then show ?thesis using isubmit_register inv(1) by (auto simp: iinv_handles_def key_def)
next
  case (isubmit_unlock k t)
  then show ?thesis using inv(1) by (fastforce simp: iinv_handles_def)
qed (use inv(1) in \<open>auto simp: iinv_handles_def io_lock_submission_Some\<close>)

lemma iinv_handles_closer:
  assumes "icloser_step dbg s s'" and "iinv_handles s"
  shows "iinv_handles s'"
  using icloser_step_frame(1,5,7) [OF assms(1)] assms(2) by (auto simp: iinv_handles_def)

lemma iinv_handles_reclaim:
  assumes "ireclaim_step s s'" and "iinv_handles s"
  shows "iinv_handles s'"
  using assms(1)
proof (cases rule: ireclaim_step.cases)
  case (ireclaim k t)
  then have "j \<noteq> k" if "ihandles s j = Some a" for j a using that by (auto simp: key_def)
  then show ?thesis using ireclaim(1) assms(2) by (fastforce simp: iinv_handles_def)
qed (use assms(2) in \<open>simp add: iinv_handles_def\<close>)

lemma iinv_handles_frame:
  "iinv_handles s \<Longrightarrow> itasks s' = itasks s \<Longrightarrow> iholder s' = iholder s \<Longrightarrow> isvc s' = isvc s \<Longrightarrow> iinv_handles s'"
  by (simp add: iinv_handles_def)

lemma iinv_handles_step: "istep dbg ac s s' \<Longrightarrow> iinv_tasks s \<Longrightarrow> iinv_handles s \<Longrightarrow> iinv_handles s'"
  by (elim istepE) (simp_all add: iinv_handles_future iinv_handles_holder iinv_handles_closer
      iinv_handles_reclaim iinv_handles_frame [of s s'] istep_frames)

text \<open>The futures that count, and those still alive or tracked among them.\<close>

definition counted_futures :: "'n isys \<Rightarrow> usize set" where
  "counted_futures s = {k. \<exists>t. itasks s k = Some t \<and> is_counted (i_future t)}"

definition live_futures :: "'n isys \<Rightarrow> usize set" where
  "live_futures s = {k. \<exists>t. itasks s k = Some t \<and> future_alive (i_future t)}"

lemma counted_futures_card:
  assumes "iinv_tasks s"
  shows "finite (counted_futures s)" "card (counted_futures s) \<le> counted_total s"
proof -
  have sub: "counted_futures s \<subseteq> dom (itasks s)" by (auto simp: counted_futures_def)
  with iinv_tasksD(1) [OF assms] show "finite (counted_futures s)" by (rule finite_subset [rotated])
  have "counted_futures s = {k \<in> dom (itasks s). is_counted (i_future (the (itasks s k)))}"
    by (auto simp: counted_futures_def)
  then have "card (counted_futures s) = msum (\<lambda>t. of_bool (is_counted (i_future t))) (itasks s)"
    using iinv_tasksD(1) [OF assms] by (simp add: msum_def sum_of_bool_eq Int_def)
  then show "card (counted_futures s) \<le> counted_total s" by (simp add: counted_total_def)
qed

lemma live_futures_card:
  assumes "iinv_tasks s"
  shows "card (live_futures s) \<le> counted_total s"
proof -
  have "live_futures s \<subseteq> counted_futures s"
    by (auto simp: live_futures_def counted_futures_def phase_defs)
  from card_mono [OF counted_futures_card(1) [OF assms] this] counted_futures_card(2) [OF assms]
  show ?thesis by simp
qed

lemma handles_card:
  assumes "iinv_tasks s" and "iinv_handles s"
  shows "finite (dom (ihandles s))" "card (dom (ihandles s)) \<le> counted_total s"
proof -
  have sub: "dom (ihandles s) \<subseteq> counted_futures s"
    using iinv_handlesD(2) [OF assms(2)] by (fastforce simp: counted_futures_def phase_defs)
  with counted_futures_card(1) [OF assms(1)] show "finite (dom (ihandles s))" by (rule finite_subset [rotated])
  from card_mono [OF counted_futures_card(1) [OF assms(1)] sub] counted_futures_card(2) [OF assms(1)]
  show "card (dom (ihandles s)) \<le> counted_total s" by simp
qed

text \<open>Once the service is closed no handle is added, and the counter only falls.\<close>

lemma iclosed_handles:
  assumes "istep dbg ac s s'" and "iclosed s" and "iinv_lock s"
  shows "dom (ihandles s') \<subseteq> dom (ihandles s)"
  using assms(1)
proof (cases rule: istep.cases)
  case (iby_future k)
  then show ?thesis by (cases rule: future_step.cases) auto
next
  case iby_holder
  then show ?thesis using assms(2,3)
    by (cases rule: iholder_step.cases) (auto simp: iinv_lock_def io_lock_submission_Some)
next
  case iby_closer
  from icloser_step_frame(7) [OF this] show ?thesis by auto
qed (simp_all add: istep_frames)

lemma iclosed_total:
  assumes step: "istep dbg ac s s'" and "iclosed s" and inv: "iinv_lock s" "iinv_tasks s"
  shows "counted_total s' \<le> counted_total s"
  using step
proof (cases rule: istep.cases)
  case (iby_future k)
  from future_step_count [OF this inv(2)] show ?thesis by auto
next
  case iby_holder
  then show ?thesis
  proof (cases rule: iholder_step.cases)
    case (isubmit_unlock k t)
    then show ?thesis using assms(2) inv(1) by (simp add: iinv_lock_def)
  qed (use assms(2) inv(1) in \<open>auto simp: counted_total_def iinv_lock_def io_lock_submission_Some\<close>)
next
  case iby_reclaim
  then show ?thesis
  proof (cases rule: ireclaim_step.cases)
    case (ireclaim k t)
    then show ?thesis
      using msum_remove [OF iinv_tasksD(1) [OF inv(2)] ireclaim(2), of "\<lambda>t. of_bool (is_counted (i_future t))"]
      by (simp add: counted_total_def)
  qed (simp add: counted_total_def)
qed (simp_all add: counted_total_def istep_frames)

lemma iclosed_tasks:
  assumes step: "istep dbg ac s s'" and "iclosed s" and inv: "iinv_lock s" "iinv_tasks s"
  shows "dom (itasks s') \<subseteq> dom (itasks s)"
  using step
proof (cases rule: istep.cases)
  case (iby_future k)
  from future_step_task [OF this] show ?thesis by (auto split: if_splits)
next
  case iby_holder
  then show ?thesis using assms(2) inv(1) by (cases rule: iholder_step.cases) (auto simp: iinv_lock_def)
next
  case iby_reclaim
  then show ?thesis by (cases rule: ireclaim_step.cases) auto
qed (simp_all add: istep_frames)

section \<open>The tally of a stop\<close>

text \<open>
  The report of a stop counts at most the futures it read as running: the handles it takes
  were tracked, hence counted, when it read the counter.
\<close>

fun stop_ok :: "'n isys \<Rightarrow> ithread_pc \<Rightarrow> bool" where
  "stop_ok s (IStopTake r) \<longleftrightarrow> iclosed s \<and> card (dom (ihandles s)) \<le> unat r"
| "stop_ok s (IStopLoop r ks n) \<longleftrightarrow> iclosed s \<and> List.length ks + unat n \<le> unat r"
| "stop_ok s (IStopCount r ks n) \<longleftrightarrow> iclosed s \<and> List.length ks + unat n + 1 \<le> unat r"
| "stop_ok s (ICloseCapacity rep) \<longleftrightarrow> iclosed s \<and> (\<forall>r. rep = Some r \<longrightarrow> report_cancelled r \<le> report_running r)"
| "stop_ok s (ICloseNotify rep) \<longleftrightarrow> iclosed s \<and> (\<forall>r. rep = Some r \<longrightarrow> report_cancelled r \<le> report_running r)"
| "stop_ok s (IClosed rep) \<longleftrightarrow> iclosed s \<and> (\<forall>r. rep = Some r \<longrightarrow> report_cancelled r \<le> report_running r)"
| "stop_ok s pc \<longleftrightarrow> True"

definition iinv_stop :: "'n isys \<Rightarrow> bool" where
  "iinv_stop s \<longleftrightarrow> (\<forall>i pc. ithreads s i = Some pc \<longrightarrow> stop_ok s pc) \<and>
     (\<forall>r. iholder s = IStopUnlock r \<longrightarrow> card (dom (ihandles s)) \<le> unat r)"

lemma iinv_stopD: "iinv_stop s \<Longrightarrow> ithreads s i = Some pc \<Longrightarrow> stop_ok s pc"
  by (simp add: iinv_stop_def)

lemma stop_ok_wake [simp]:
  "stop_ok s (iwake_producer pc) = stop_ok s pc" "stop_ok s (iwake_notified pc) = stop_ok s pc"
  by (cases pc; simp)+

lemma stop_ok_step:
  assumes step: "istep dbg ac s s'" and inv: "iinv_lock s" "iinv_tasks s" "iinv_handles s" and ok: "stop_ok s pc"
  shows "stop_ok s' pc"
proof -
  have "card (dom (ihandles s')) \<le> card (dom (ihandles s))" if "iclosed s"
    using card_mono [OF handles_card(1) [OF inv(2,3)] iclosed_handles [OF step that inv(1)]] .
  then show ?thesis using ok iclosed_step [OF step] by (cases pc) fastforce+
qed

text \<open>Whatever a thread moves to is already right in the state it moves from.\<close>

lemma future_step_thread:
  assumes "future_step ac k s s'" and "ithreads s' i = Some pc'"
  obtains pc where "ithreads s i = Some pc" "pc' = pc \<or> pc' = iwake_producer pc \<or> pc' = iwake_notified pc"
  using assms by (cases rule: future_step.cases) auto

lemma closer_moves_ok:
  assumes step: "icloser_step dbg s s'" and inv: "iinv_stop s" and i: "ithreads s' i = Some pc'"
  shows "stop_ok s pc'"
  using step
proof (cases rule: icloser_step.cases)
  case (istop_take j r ks)
  then have "List.length ks = card (dom (ihandles s))" by (simp add: distinct_card flip: istop_take(4))
  then show ?thesis using istop_take(1) i iinv_stopD [OF inv istop_take(2)] iinv_stopD [OF inv]
    by (auto split: if_splits)
next
  case (istop_count j r ks n m)
  have ok: "List.length ks + unat n + 1 \<le> unat r" "iclosed s" using iinv_stopD [OF inv istop_count(2)] by simp_all
  moreover from this have "unat n + unat (1 :: usize) < 2 ^ 64" using unat_usize_less [of r] by simp
  then have "m = n + 1" "unat (n + 1) = unat n + 1"
    using istop_count(3) add_assign_fits [of n 1 dbg] unat_usize_add [of n 1] by simp_all
  ultimately show ?thesis using istop_count(1) i iinv_stopD [OF inv] by (auto split: if_splits)
next
  case (istop_loop_end j r n)
  then show ?thesis using i iinv_stopD [OF inv istop_loop_end(2)] iinv_stopD [OF inv]
    by (auto simp: iclose_report_def word_le_nat_alt split: if_splits)
next
  case (istop_skip j r k ks n)
  then show ?thesis using i iinv_stopD [OF inv istop_skip(2)] iinv_stopD [OF inv] by (auto split: if_splits)
next
  case (istop_abort j r k ks n)
  then show ?thesis using i iinv_stopD [OF inv istop_abort(2)] iinv_stopD [OF inv] by (auto split: if_splits)
next
  case (iclose_capacity j rep)
  then show ?thesis using i iinv_stopD [OF inv iclose_capacity(2)] iinv_stopD [OF inv] by (auto split: if_splits)
next
  case (iclose_notify j rep)
  then show ?thesis using i iinv_stopD [OF inv iclose_notify(2)] iinv_stopD [OF inv] by (auto split: if_splits)
qed

lemma moves_ok:
  assumes step: "istep dbg ac s s'" and inv: "iinv_lock s" "iinv_stop s" and i: "ithreads s' i = Some pc'"
  shows "stop_ok s pc'"
  using step
proof (cases rule: istep.cases)
  case (iby_future k)
  obtain pc where "ithreads s i = Some pc" "pc' = pc \<or> pc' = iwake_producer pc \<or> pc' = iwake_notified pc"
    by (rule future_step_thread [OF iby_future i])
  then show ?thesis using iinv_stopD [OF inv(2)] by auto
next
  case iby_holder
  have old: "ithreads s i = Some pc' \<Longrightarrow> stop_ok s pc'" by (rule iinv_stopD [OF inv(2)])
  have closing: "iclosing (iholder s) \<Longrightarrow> iclosed s" using inv(1) by (simp add: iinv_lock_def)
  have tally: "iholder s = IStopUnlock r \<Longrightarrow> card (dom (ihandles s)) \<le> unat r" for r
    using inv(2) by (simp add: iinv_stop_def)
  show ?thesis using iby_holder
  proof (cases rule: iholder_step.cases)
    case (iproducer_saturated j n)
    then show ?thesis using i old by (cases "j = i") auto
  next
    case (ishutdown_unlock j)
    then show ?thesis using i old closing by (cases "j = i") auto
  next
    case (istop_unlock r j)
    then show ?thesis using i old closing tally by (cases "j = i") auto
  qed (use i old in simp_all)
next
  case iby_closer
  from closer_moves_ok [OF this inv(2) i] show ?thesis .
next
  case iby_waiter
  then show ?thesis using i iinv_stopD [OF inv(2)]
    by (cases rule: iwaiter_step.cases) (auto split: if_splits)
next
  case iby_reclaim
  then show ?thesis using i iinv_stopD [OF inv(2)]
    by (cases rule: ireclaim_step.cases) (auto split: if_splits)
qed

lemma iinv_stop_step:
  assumes step: "istep dbg ac s s'"
    and inv: "iinv_lock s" "iinv_tasks s" "iinv_count ac s" "iinv_handles s" "iinv_stop s"
  shows "iinv_stop s'"
  unfolding iinv_stop_def
proof (intro conjI allI impI)
  fix i pc assume "ithreads s' i = Some pc"
  from moves_ok [OF step inv(1,5) this] show "stop_ok s' pc" by (rule stop_ok_step [OF step inv(1,2,4)])
next
  fix r assume r: "iholder s' = IStopUnlock r"
  have old: "card (dom (ihandles s')) \<le> unat r" if "iholder s = IStopUnlock r"
  proof -
    have "iclosed s" using that inv(1) by (simp add: iinv_lock_def)
    from card_mono [OF handles_card(1) [OF inv(2,4)] iclosed_handles [OF step this inv(1)]]
    also have "card (dom (ihandles s)) \<le> unat r" using that inv(5) by (simp add: iinv_stop_def)
    finally show ?thesis .
  qed
  show "card (dom (ihandles s')) \<le> unat r" using step
  proof (cases rule: istep.cases)
    case iby_holder
    then show ?thesis
    proof (cases rule: iholder_step.cases)
      case istop_get
      then show ?thesis using r handles_card(2) [OF inv(2,4)] iinv_countD(1) [OF inv(3)] by simp
    qed (use r in auto)
  qed (use r old in \<open>simp_all add: istep_frames\<close>)
qed

end
