(* ===== verification/Io_Waiters.thy ===== *)
theory Io_Waiters
  imports Io_Invariants
begin

text \<open>
  Who is owed a wake-up in the interleaved IO service. A waiter that has seen the service
  not terminated, or a producer that was refused for saturation, is owed the notification of
  whoever changes that: the guard that frees the last slot, or the thread that closes. The
  invariants say that this notification is still pending.
\<close>

section \<open>The stored lifecycle\<close>

text \<open>The byte is one the transitions can store: termination is derived, never stored.\<close>

definition iinv_byte :: "'n isys \<Rightarrow> bool" where
  "iinv_byte s \<longleftrightarrow> load (io_lifecycle_byte (isvc s)) \<noteq> Terminated"

lemma istep_byte:
  assumes "istep dbg ac s s'"
  shows "io_lifecycle_byte (isvc s') \<in> {io_lifecycle_byte (isvc s),
    shutdown_bits (io_lifecycle_byte (isvc s)), stop_bits (io_lifecycle_byte (isvc s))}"
  using assms
proof (cases rule: istep.cases)
  case iby_holder
  then show ?thesis
    by (cases rule: iholder_step.cases)
      (simp_all add: io_lock_submission_Some io_state_shutdown_def io_state_stop_def)
qed (simp_all add: istep_frames)

lemma iinv_byte_step: "istep dbg ac s s' \<Longrightarrow> iinv_byte s \<Longrightarrow> iinv_byte s'"
  using istep_byte [of dbg ac s s'] by (auto simp: iinv_byte_def load_shutdown_bits split: if_splits)

lemma istep_load_le:
  assumes "istep dbg ac s s'" and "iinv_byte s"
  shows "load (io_lifecycle_byte (isvc s)) \<le> load (io_lifecycle_byte (isvc s'))"
proof -
  let ?l = "load (io_lifecycle_byte (isvc s))"
  have "?l \<le> Stopping" "?l \<le> (if ?l = Running then ShuttingDown else ?l)"
    using assms(2) by (cases ?l; simp add: iinv_byte_def less_eq_ExecutorServiceLifecycle_def)+
  then show ?thesis using istep_byte [OF assms(1)] by (auto simp: load_shutdown_bits)
qed

section \<open>Pending notifications\<close>

definition some_thread :: "(ithread_pc \<Rightarrow> bool) \<Rightarrow> 'n isys \<Rightarrow> bool" where
  "some_thread P s \<longleftrightarrow> (\<exists>i pc. ithreads s i = Some pc \<and> P pc)"

definition some_future :: "(future_pc \<Rightarrow> bool) \<Rightarrow> 'n isys \<Rightarrow> bool" where
  "some_future P s \<longleftrightarrow> (\<exists>k t. itasks s k = Some t \<and> P (i_future t))"

fun before_close_capacity :: "ithread_pc \<Rightarrow> bool" where
  "before_close_capacity (IStopTake r) = True"
| "before_close_capacity (IStopLoop r ks n) = True"
| "before_close_capacity (IStopCount r ks n) = True"
| "before_close_capacity (ICloseCapacity rep) = True"
| "before_close_capacity pc = False"

fun before_close_notify :: "ithread_pc \<Rightarrow> bool" where
  "before_close_notify (ICloseNotify rep) = True"
| "before_close_notify pc = before_close_capacity pc"

definition before_guard_notify :: "future_pc \<Rightarrow> bool" where
  "before_guard_notify p \<longleftrightarrow> p \<in> {GuardCapacity, GuardNotify}"

definition pend_notify :: "'n isys \<Rightarrow> bool" where
  "pend_notify s \<longleftrightarrow> some_future before_guard_notify s \<or> some_thread before_close_notify s \<or> iclosing (iholder s)"

definition pend_close_notify :: "'n isys \<Rightarrow> bool" where
  "pend_close_notify s \<longleftrightarrow> some_thread before_close_notify s \<or> iclosing (iholder s)"

definition pend_close_capacity_io :: "'n isys \<Rightarrow> bool" where
  "pend_close_capacity_io s \<longleftrightarrow> some_thread before_close_capacity s \<or> iclosing (iholder s)"

definition pend_guard_capacity :: "'n isys \<Rightarrow> bool" where
  "pend_guard_capacity s \<longleftrightarrow> some_future (\<lambda>p. p = GuardCapacity) s"

lemmas pend_defs = pend_notify_def pend_close_notify_def pend_close_capacity_io_def pend_guard_capacity_def

text \<open>What a waiting thread relies on.\<close>

fun iwait_ok :: "'n isys \<Rightarrow> ithread_pc \<Rightarrow> bool" where
  "iwait_ok s (IAwaitZero n l) \<longleftrightarrow> l \<noteq> Terminated \<and> (l \<noteq> Running \<longrightarrow> iclosed s) \<and>
     (\<not> n \<and> l = Running \<and> iclosed s \<longrightarrow> pend_close_notify s)"
| "iwait_ok s (IAwaitParked n) \<longleftrightarrow> (\<not> n \<and> iclosed s \<and> counted_total s = 0 \<longrightarrow> pend_notify s)"
| "iwait_ok s IAwaitReturned \<longleftrightarrow> iclosed s \<and> counted_total s = 0"
| "iwait_ok s (IProduceWait n) \<longleftrightarrow>
     (\<not> n \<and> counted_total s < unat (io_task_capacity (isvc s)) \<longrightarrow> pend_guard_capacity s) \<and>
     (\<not> n \<and> iclosed s \<longrightarrow> pend_close_capacity_io s)"
| "iwait_ok s pc \<longleftrightarrow> True"

definition iinv_wait :: "'n isys \<Rightarrow> bool" where
  "iinv_wait s \<longleftrightarrow> (\<forall>i pc. ithreads s i = Some pc \<longrightarrow> iwait_ok s pc)"

section \<open>Pending notifications stay pending until they are sent\<close>

lemma some_threadI: "ithreads s i = Some pc \<Longrightarrow> P pc \<Longrightarrow> some_thread P s"
  by (auto simp: some_thread_def)

lemma some_thread_same: "ithreads s' = ithreads s \<Longrightarrow> some_thread P s' = some_thread P s"
  by (simp add: some_thread_def)

lemma some_thread_mono:
  assumes "some_thread P s"
    and "\<And>i pc. ithreads s i = Some pc \<Longrightarrow> P pc \<Longrightarrow> pred_option P (ithreads s' i) \<and> ithreads s' i \<noteq> None"
  shows "some_thread P s'"
proof -
  obtain i pc where "ithreads s i = Some pc" "P pc" using assms(1) by (auto simp: some_thread_def)
  from assms(2) [OF this] show ?thesis by (auto intro: some_threadI)
qed

lemma some_future_mono:
  assumes "some_future P s"
    and "\<And>k t. itasks s k = Some t \<Longrightarrow> P (i_future t) \<Longrightarrow>
      pred_option (\<lambda>t. P (i_future t)) (itasks s' k) \<and> itasks s' k \<noteq> None"
  shows "some_future P s'"
proof -
  obtain k t where "itasks s k = Some t" "P (i_future t)" using assms(1) by (auto simp: some_future_def)
  from assms(2) [OF this] show ?thesis unfolding some_future_def by fastforce
qed

lemma some_future_same: "itasks s' = itasks s \<Longrightarrow> some_future P s' = some_future P s"
  by (simp add: some_future_def)

lemma before_close_wake [simp]:
  "before_close_capacity (iwake_producer pc) = before_close_capacity pc"
  "before_close_capacity (iwake_notified pc) = before_close_capacity pc"
  "before_close_notify (iwake_producer pc) = before_close_notify pc"
  "before_close_notify (iwake_notified pc) = before_close_notify pc"
  by (cases pc; simp)+

lemma some_thread_wake:
  assumes "\<And>pc. P (f pc) = P pc" and "\<And>i. ithreads s' i = map_option f (ithreads s i)"
  shows "some_thread P s' = some_thread P s"
proof
  assume "some_thread P s'"
  then obtain i pc where "map_option f (ithreads s i) = Some pc" "P pc"
    using assms(2) by (auto simp: some_thread_def)
  then show "some_thread P s" using assms(1) by (auto intro: some_threadI)
next
  assume "some_thread P s"
  then obtain i pc where i: "ithreads s i = Some pc" "P pc" by (auto simp: some_thread_def)
  show "some_thread P s'" by (rule some_threadI [of s' i "f pc"]) (simp_all add: i assms)
qed

lemma some_thread_signal [simp]:
  "some_thread before_close_capacity (isignal_capacity s) = some_thread before_close_capacity s"
  "some_thread before_close_capacity (isignal_notify s) = some_thread before_close_capacity s"
  "some_thread before_close_notify (isignal_capacity s) = some_thread before_close_notify s"
  "some_thread before_close_notify (isignal_notify s) = some_thread before_close_notify s"
  by (rule some_thread_wake; simp)+

text \<open>Nobody left who has not been told.\<close>

definition producers_told :: "'n isys \<Rightarrow> bool" where
  "producers_told s \<longleftrightarrow> (\<forall>i. ithreads s i \<noteq> Some (IProduceWait False))"

definition waiters_told :: "'n isys \<Rightarrow> bool" where
  "waiters_told s \<longleftrightarrow> (\<forall>i l. ithreads s i \<noteq> Some (IAwaitParked False) \<and> ithreads s i \<noteq> Some (IAwaitZero False l))"

lemma iwake_never [simp]:
  "iwake_producer pc \<noteq> IProduceWait False" "iwake_notified pc \<noteq> IAwaitParked False"
  "iwake_notified pc \<noteq> IAwaitZero False l"
  by (cases pc; simp)+

lemma signals_tell:
  "(\<And>j. j \<noteq> i \<Longrightarrow> ithreads s' j = ithreads (isignal_capacity s) j) \<Longrightarrow>
     ithreads s' i \<noteq> Some (IProduceWait False) \<Longrightarrow> producers_told s'"
  "(\<And>j. j \<noteq> i \<Longrightarrow> ithreads s' j = ithreads (isignal_notify s) j) \<Longrightarrow>
     (\<And>l. ithreads s' i \<notin> {Some (IAwaitParked False), Some (IAwaitZero False l)}) \<Longrightarrow> waiters_told s'"
proof -
  assume same: "\<And>j. j \<noteq> i \<Longrightarrow> ithreads s' j = ithreads (isignal_capacity s) j"
    and i: "ithreads s' i \<noteq> Some (IProduceWait False)"
  have "ithreads s' j \<noteq> Some (IProduceWait False)" for j
    using same [of j] i by (cases "j = i") auto
  then show "producers_told s'" by (simp add: producers_told_def)
next
  assume same: "\<And>j. j \<noteq> i \<Longrightarrow> ithreads s' j = ithreads (isignal_notify s) j"
    and i: "\<And>l. ithreads s' i \<notin> {Some (IAwaitParked False), Some (IAwaitZero False l)}"
  have "ithreads s' j \<noteq> Some (IAwaitParked False) \<and> ithreads s' j \<noteq> Some (IAwaitZero False l)" for j l
    using same [of j] i [of l] by (cases "j = i") auto
  then show "waiters_told s'" by (simp add: waiters_told_def)
qed

section \<open>Pending notifications stay pending until they are sent\<close>

text \<open>The guard's two notifications.\<close>

lemma future_step_notifies:
  assumes "future_step ac k s s'"
  shows "\<exists>t t'. itasks s k = Some t \<and> itasks s' = (itasks s)(k \<mapsto> t') \<and>
    (i_future t = GuardCapacity \<longrightarrow> i_future t' = GuardNotify \<and> ithreads s' = ithreads (isignal_capacity s)) \<and>
    (i_future t = GuardNotify \<longrightarrow> ithreads s' = ithreads (isignal_notify s))"
proof -
  obtain t t' where t: "itasks s k = Some t" "itasks s' = (itasks s)(k \<mapsto> t')"
    using future_step_task [OF assms] by blast
  then have "itasks s' k = Some t'" by simp
  with assms t(1) have "(i_future t = GuardCapacity \<longrightarrow> i_future t' = GuardNotify \<and> ithreads s' = ithreads (isignal_capacity s)) \<and>
    (i_future t = GuardNotify \<longrightarrow> ithreads s' = ithreads (isignal_notify s))"
    by (cases rule: future_step.cases) auto
  with t show ?thesis by blast
qed

lemma signalled_told:
  "ithreads s' = ithreads (isignal_capacity s) \<Longrightarrow> producers_told s'"
  "ithreads s' = ithreads (isignal_notify s) \<Longrightarrow> waiters_told s'"
  by (simp_all add: producers_told_def waiters_told_def)

lemma future_step_pend:
  assumes step: "future_step ac k s s'"
  shows "some_future (\<lambda>p. p = GuardCapacity) s \<Longrightarrow> some_future (\<lambda>p. p = GuardCapacity) s' \<or> producers_told s'"
    "some_future before_guard_notify s \<Longrightarrow> some_future before_guard_notify s' \<or> waiters_told s'"
proof -
  obtain t t' where t: "itasks s k = Some t" "itasks s' = (itasks s)(k \<mapsto> t')"
    "i_future t = GuardCapacity \<Longrightarrow> i_future t' = GuardNotify \<and> ithreads s' = ithreads (isignal_capacity s)"
    "i_future t = GuardNotify \<Longrightarrow> ithreads s' = ithreads (isignal_notify s)"
    using future_step_notifies [OF step] by blast
  have keep: "some_future P s'" if "some_future P s" "P (i_future t) \<Longrightarrow> P (i_future t')" for P
    by (rule some_future_mono [OF that(1)]) (use that(2) t(1,2) in auto)
  show "some_future (\<lambda>p. p = GuardCapacity) s' \<or> producers_told s'" if "some_future (\<lambda>p. p = GuardCapacity) s"
    using keep [OF that] t(3) signalled_told(1) by blast
  show "some_future before_guard_notify s' \<or> waiters_told s'" if "some_future before_guard_notify s"
    using keep [OF that] t(3,4) signalled_told(2) by (auto simp: before_guard_notify_def)
qed

text \<open>The two kinds of thread that still owe a closing notification.\<close>

definition closing_kind :: "(ithread_pc \<Rightarrow> bool) \<Rightarrow> bool" where
  "closing_kind P \<longleftrightarrow> P = before_close_capacity \<or> P = before_close_notify"

lemma closing_kinds [simp]: "closing_kind before_close_capacity" "closing_kind before_close_notify"
  by (simp_all add: closing_kind_def)

lemma future_step_closers:
  assumes "future_step ac k s s'" and "closing_kind P"
  shows "some_thread P s' = some_thread P s"
proof -
  have "ithreads s' = ithreads s \<or> ithreads s' = ithreads (isignal_capacity s) \<or> ithreads s' = ithreads (isignal_notify s)"
    using assms(1) by (cases rule: future_step.cases) simp_all
  then have "some_thread P s' = some_thread P s \<or> some_thread P s' = some_thread P (isignal_capacity s) \<or>
      some_thread P s' = some_thread P (isignal_notify s)"
    using some_thread_same by blast
  then show ?thesis using assms(2) by (auto simp: closing_kind_def)
qed

lemma iholder_step_closers:
  assumes "iholder_step dbg ac s s'" and "closing_kind P" and "some_thread P s"
  shows "some_thread P s'"
  using assms(1)
  by (cases rule: iholder_step.cases; intro some_thread_mono [OF assms(3)])
    (use assms(2) in \<open>auto simp: closing_kind_def\<close>)

lemma iwaiter_step_closers:
  assumes "iwaiter_step ac s s'" and "closing_kind P" and "some_thread P s"
  shows "some_thread P s'"
  using assms(1)
  by (cases rule: iwaiter_step.cases; intro some_thread_mono [OF assms(3)])
    (use assms(2) in \<open>auto simp: closing_kind_def\<close>)

lemma ireclaim_step_closers:
  assumes "ireclaim_step s s'" and "closing_kind P" and "some_thread P s"
  shows "some_thread P s'"
  using assms(1)
proof (cases rule: ireclaim_step.cases)
  case (ithread_exit i pc)
  then have "\<not> P pc" using assms(2) by (auto simp: closing_kind_def)
  obtain j pc' where j: "ithreads s j = Some pc'" "P pc'" using assms(3) by (auto simp: some_thread_def)
  with ithread_exit \<open>\<not> P pc\<close> show ?thesis by (intro some_threadI [of s' j pc']) auto
qed (use assms(3) in \<open>simp add: some_thread_def\<close>)

lemma icloser_step_capacity:
  assumes "icloser_step dbg s s'" and "some_thread before_close_capacity s"
  shows "some_thread before_close_capacity s' \<or> producers_told s'"
  using assms(1)
proof (cases rule: icloser_step.cases)
  case (iclose_capacity i rep)
  then show ?thesis by (intro disjI2 signals_tell(1) [of i s' s]) auto
next
  case (iclose_notify i rep)
  have "some_thread before_close_capacity (isignal_notify s)" using assms(2) by simp
  then have "some_thread before_close_capacity s'"
    by (rule some_thread_mono) (use iclose_notify in \<open>auto split: if_splits\<close>)
  then show ?thesis by simp
qed (intro disjI1 some_thread_mono [OF assms(2)], auto)+

lemma icloser_step_notify:
  assumes "icloser_step dbg s s'" and "some_thread before_close_notify s"
  shows "some_thread before_close_notify s' \<or> waiters_told s'"
  using assms(1)
proof (cases rule: icloser_step.cases)
  case (iclose_capacity i rep)
  have "some_thread before_close_notify (isignal_capacity s)" using assms(2) by simp
  then have "some_thread before_close_notify s'"
    by (rule some_thread_mono) (use iclose_capacity in \<open>auto split: if_splits\<close>)
  then show ?thesis by simp
next
  case (iclose_notify i rep)
  then show ?thesis by (intro disjI2 signals_tell(2) [of i s' s]) auto
qed (intro disjI1 some_thread_mono [OF assms(2)], auto)+

text \<open>The holder of the lock that has closed hands its duty to the thread that continues.\<close>

lemma iclosing_hands_over:
  assumes "iholder_step dbg ac s s'" and "iclosing (iholder s)" and "closing_kind P" and "iinv_lock s"
  shows "some_thread P s' \<or> iclosing (iholder s')"
  using assms(1)
proof (cases rule: iholder_step.cases)
  case (ishutdown_unlock i)
  then show ?thesis using assms(3) by (intro disjI1 some_threadI [of s' i "ICloseCapacity None"]) (auto simp: closing_kind_def)
next
  case (istop_unlock r i)
  then show ?thesis using assms(3) by (intro disjI1 some_threadI [of s' i "IStopTake r"]) (auto simp: closing_kind_def)
next
  case (ilock v h)
  then show ?thesis using assms(2,4) by (auto simp: iinv_lock_def io_lock_submission_Some)
qed (use assms(2) in simp_all)

lemma pend_close_step:
  assumes step: "istep dbg ac s s'" and P: "closing_kind P" and inv: "iinv_lock s"
    and pend: "some_thread P s \<or> iclosing (iholder s)"
  shows "some_thread P s' \<or> iclosing (iholder s') \<or>
    (if P = before_close_capacity then producers_told s' else waiters_told s')"
  using step
proof (cases rule: istep.cases)
  case (iby_future k)
  then show ?thesis using pend future_step_closers [OF iby_future P] future_step_frame(1) [OF iby_future] by auto
next
  case iby_holder
  then show ?thesis using pend iholder_step_closers [OF iby_holder P] iclosing_hands_over [OF iby_holder _ P inv] by blast
next
  case iby_closer
  then show ?thesis using pend P icloser_step_capacity [OF iby_closer] icloser_step_notify [OF iby_closer]
    icloser_step_frame(1) [OF iby_closer] by (auto simp: closing_kind_def)
next
  case iby_waiter
  then show ?thesis using pend iwaiter_step_closers [OF iby_waiter P] by (auto simp: istep_frames)
next
  case iby_reclaim
  then show ?thesis using pend ireclaim_step_closers [OF iby_reclaim P] by (auto simp: istep_frames)
qed

lemma kinds_differ [simp]: "before_close_notify \<noteq> before_close_capacity"
proof
  assume "before_close_notify = before_close_capacity"
  then have "before_close_notify (ICloseNotify None) = before_close_capacity (ICloseNotify None)" by simp
  then show False by simp
qed

lemma pend_close_capacity_kept:
  "istep dbg ac s s' \<Longrightarrow> iinv_lock s \<Longrightarrow> pend_close_capacity_io s \<Longrightarrow> pend_close_capacity_io s' \<or> producers_told s'"
  using pend_close_step [of dbg ac s s' before_close_capacity] by (auto simp: pend_defs)

lemma pend_close_notify_kept:
  "istep dbg ac s s' \<Longrightarrow> iinv_lock s \<Longrightarrow> pend_close_notify s \<Longrightarrow> pend_close_notify s' \<or> waiters_told s'"
  using pend_close_step [of dbg ac s s' before_close_notify] by (auto simp: pend_defs)

text \<open>A pending guard stays pending under every other thread's step.\<close>

lemma others_keep_future:
  assumes step: "istep dbg ac s s'" and inv: "iinv_tasks s" and not_future: "\<And>k. \<not> future_step ac k s s'"
    and P: "\<And>p. P p \<Longrightarrow> p \<in> {GuardCapacity, GuardNotify}" and pend: "some_future P s"
  shows "some_future P s'"
  using step
proof (cases rule: istep.cases)
  case iby_holder
  then show ?thesis
  proof (cases rule: iholder_step.cases)
    case (isubmit_create k)
    obtain j t where j: "itasks s j = Some t" "P (i_future t)" using pend by (auto simp: some_future_def)
    with isubmit_create have "itasks s' j = Some t" by auto
    with j show ?thesis by (auto simp: some_future_def)
  next
    case (isubmit_unlock k t)
    then have "i_future t = FutureAdmitted" using iinv_tasksD(3) [OF inv] by fastforce
    then have "\<not> P (i_future t)" using P by fastforce
    then show ?thesis using isubmit_unlock by (intro some_future_mono [OF pend]) auto
  qed (intro some_future_mono [OF pend], simp)+
next
  case iby_reclaim
  then show ?thesis
  proof (cases rule: ireclaim_step.cases)
    case (ireclaim k t)
    obtain j u where j: "itasks s j = Some u" "P (i_future u)" using pend by (auto simp: some_future_def)
    then have "j \<noteq> k" using ireclaim P by fastforce
    with j ireclaim(1) have "itasks s' j = Some u" by simp
    with j(2) show ?thesis by (auto simp: some_future_def)
  qed (use pend in \<open>simp add: some_future_def\<close>)
qed (use not_future pend some_future_same [of s' s P] in \<open>simp_all add: istep_frames\<close>)

lemma pend_guard_capacity_kept:
  assumes "istep dbg ac s s'" and "iinv_tasks s" and "pend_guard_capacity s"
  shows "pend_guard_capacity s' \<or> producers_told s'"
proof (cases "\<exists>k. future_step ac k s s'")
  case False
  then show ?thesis using others_keep_future [OF assms(1,2), of "\<lambda>p. p = GuardCapacity"] assms(3)
    by (auto simp: pend_guard_capacity_def)
qed (use future_step_pend(1) assms(3) in \<open>unfold pend_guard_capacity_def, blast\<close>)

lemma pend_notify_kept:
  assumes "istep dbg ac s s'" and "iinv_tasks s" and "iinv_lock s" and "pend_notify s"
  shows "pend_notify s' \<or> waiters_told s'"
proof -
  have "some_future before_guard_notify s' \<or> waiters_told s'" if "some_future before_guard_notify s"
  proof (cases "\<exists>k. future_step ac k s s'")
    case False
    then show ?thesis using others_keep_future [OF assms(1,2) _ _ that] by (auto simp: before_guard_notify_def)
  qed (use future_step_pend(2) [OF _ that] in blast)
  then show ?thesis using pend_close_notify_kept [OF assms(1,3)] assms(4) by (auto simp: pend_defs)
qed

section \<open>Where waiting threads come from\<close>

lemma iwake_eq_iff [simp]:
  "iwake_producer pc = IAwaitZero n l \<longleftrightarrow> pc = IAwaitZero n l"
  "iwake_producer pc = IAwaitParked n \<longleftrightarrow> pc = IAwaitParked n"
  "iwake_producer pc = IAwaitReturned \<longleftrightarrow> pc = IAwaitReturned"
  "iwake_notified pc = IAwaitReturned \<longleftrightarrow> pc = IAwaitReturned"
  "iwake_notified pc = IProduceWait n \<longleftrightarrow> pc = IProduceWait n"
  "iwake_notified pc = IAwaitZero n l \<longleftrightarrow> n \<and> (\<exists>m. pc = IAwaitZero m l)"
  by (cases pc; simp; fail)+

text \<open>A flag is only ever raised; a look at the lifecycle is at the present byte.\<close>

lemma zero_origin:
  assumes "istep dbg ac s s'" and "ithreads s' i = Some (IAwaitZero n l)"
  shows "(\<exists>m. ithreads s i = Some (IAwaitZero m l) \<and> (m \<longrightarrow> n)) \<or>
    l = load (io_lifecycle_byte (isvc s)) \<and> isvc s' = isvc s"
  using assms by (elim istep_elims) (auto split: if_splits)

lemma parked_origin:
  assumes "istep dbg ac s s'" and "ithreads s' i = Some (IAwaitParked False)"
  shows "ithreads s i = Some (IAwaitParked False) \<or>
    (\<exists>l. ithreads s i = Some (IAwaitZero False l) \<and> iterminated_view ac l (isvc s) \<noteq> Terminated)"
  using assms by (elim istep_elims) (auto split: if_splits)

lemma returned_origin:
  assumes "istep dbg ac s s'" and "ithreads s' i = Some IAwaitReturned"
  shows "ithreads s i = Some IAwaitReturned \<or>
    (\<exists>n l. ithreads s i = Some (IAwaitZero n l) \<and> iterminated_view ac l (isvc s) = Terminated)"
  using assms by (elim istep_elims) (auto split: if_splits)

lemma produce_origin:
  assumes "istep dbg ac s s'" and "ithreads s' i = Some (IProduceWait False)"
  shows "ithreads s i = Some (IProduceWait False) \<or>
    iholder s = ISubmitGet \<and> isvc s' = io_unlock_submission (isvc s) \<and> itasks s' = itasks s \<and>
    iholder s' = IUnlocked \<and> io_task_capacity (isvc s) \<le> ac_get ac (active_tasks (isvc s))"
  using assms by (elim istep_elims) (auto split: if_splits)

section \<open>The wait invariants\<close>

text \<open>The counter only falls through the decrement of a guard, whose notifications then pend.\<close>

lemma istep_total_falls:
  assumes "istep dbg ac s s'" and "iinv_tasks s" and "iinv_lock s" and "counted_total s' < counted_total s"
  shows "pend_guard_capacity s' \<and> pend_notify s'"
  using assms(1)
proof (cases rule: istep.cases)
  case (iby_future k)
  from future_step_count [OF this assms(2)] assms(4) obtain t where
    "itasks s' k = Some t" "i_future t = GuardCapacity" by auto
  then show ?thesis unfolding pend_defs some_future_def before_guard_notify_def by blast
next
  case iby_holder
  then show ?thesis
  proof (cases rule: iholder_step.cases)
    case (isubmit_create k)
    then show ?thesis using assms(4) msum_upd_new [OF iinv_tasksD(1) [OF assms(2)] isubmit_create(3)]
      by (simp add: counted_total_def is_counted_def)
  next
    case (isubmit_unlock k t)
    then have "i_future t = FutureAdmitted" using iinv_tasksD(3) [OF assms(2)] by fastforce
    then show ?thesis using isubmit_unlock assms(4) msum_upd_same [OF iinv_tasksD(1) [OF assms(2)] isubmit_unlock(3)]
      by (simp add: counted_total_def is_counted_def)
  next
    case (ilock v h)
    then show ?thesis using assms(3,4)
      by (auto simp: counted_total_def io_lock_submission_Some iinv_lock_def)
  qed (use assms(4) in \<open>simp_all add: counted_total_def\<close>)
next
  case iby_reclaim
  then show ?thesis
  proof (cases rule: ireclaim_step.cases)
    case (ireclaim k t)
    then show ?thesis using assms(4)
        msum_remove [OF iinv_tasksD(1) [OF assms(2)] ireclaim(2), of "\<lambda>t. of_bool (is_counted (i_future t))"]
      by (simp add: counted_total_def is_counted_def)
  qed (use assms(4) in \<open>simp add: counted_total_def\<close>)
qed (use assms(4) in \<open>simp_all add: counted_total_def istep_frames\<close>)

lemma istep_closes_pending:
  assumes "istep dbg ac s s'" and "iclosed s'" and "\<not> iclosed s"
  shows "pend_close_notify s'" "pend_notify s'" "pend_close_capacity_io s'"
  using istep_closes [OF assms] by (simp_all add: pend_defs)

lemma iinv_waitD: "iinv_wait s \<Longrightarrow> ithreads s i = Some pc \<Longrightarrow> iwait_ok s pc"
  by (simp add: iinv_wait_def)

lemma izero_iff:
  "counts_atomically ac \<Longrightarrow> iinv_count ac s \<Longrightarrow> ac_is_zero ac (active_tasks (isvc s)) \<longleftrightarrow> counted_total s = 0"
  by (metis counts_atomicallyD(2) iinv_countD(1) unat_eq_zero)

lemma iwait_parked_step:
  assumes ac: "counts_atomically ac" and step: "istep dbg ac s s'"
    and inv: "iinv_lock s" "iinv_tasks s" "iinv_count ac s" "iinv_wait s"
    and i: "ithreads s' i = Some (IAwaitParked False)" and over: "iclosed s'" "counted_total s' = 0"
  shows "pend_notify s'"
proof (rule ccontr)
  assume no: "\<not> pend_notify s'"
  have closed: "iclosed s" using istep_closes_pending(2) [OF step over(1)] no by blast
  have zero: "counted_total s = 0" using istep_total_falls [OF step inv(2,1)] no over(2) by fastforce
  have told: "\<not> waiters_told s'" using i by (auto simp: waiters_told_def)
  from parked_origin [OF step i] show False
  proof (elim disjE exE conjE)
    assume "ithreads s i = Some (IAwaitParked False)"
    from iinv_waitD [OF inv(4) this] closed zero have "pend_notify s" by simp
    from pend_notify_kept [OF step inv(2,1) this] no told show False by blast
  next
    fix l assume l: "ithreads s i = Some (IAwaitZero False l)" "iterminated_view ac l (isvc s) \<noteq> Terminated"
    from l(2) zero izero_iff [OF ac inv(3)] have "l = Running" by (auto simp: iterminated_view_def split: if_splits)
    with iinv_waitD [OF inv(4) l(1)] closed have "pend_close_notify s" by simp
    from pend_close_notify_kept [OF step inv(1) this] no told show False by (auto simp: pend_defs)
  qed
qed

lemma iwait_zero_step:
  assumes step: "istep dbg ac s s'" and inv: "iinv_lock s" "iinv_byte s" "iinv_wait s"
    and i: "ithreads s' i = Some (IAwaitZero n l)"
  shows "iwait_ok s' (IAwaitZero n l)"
proof -
  from zero_origin [OF step i] show ?thesis
  proof (elim disjE exE conjE)
    fix m assume m: "ithreads s i = Some (IAwaitZero m l)" "m \<longrightarrow> n"
    have "pend_close_notify s'" if "\<not> n" "l = Running" "iclosed s'"
    proof (cases "iclosed s")
      case True
      with that m iinv_waitD [OF inv(3) m(1)] have "pend_close_notify s" by auto
      moreover have "\<not> waiters_told s'" using i that(1) by (auto simp: waiters_told_def)
      ultimately show ?thesis using pend_close_notify_kept [OF step inv(1)] by blast
    qed (rule istep_closes_pending(1) [OF step that(3)])
    then show ?thesis using iinv_waitD [OF inv(3) m(1)] iclosed_step [OF step] by auto
  next
    assume "l = load (io_lifecycle_byte (isvc s))" "isvc s' = isvc s"
    then show ?thesis using inv(2) by (auto simp: iinv_byte_def)
  qed
qed

lemma iwait_returned_step:
  assumes ac: "counts_atomically ac" and step: "istep dbg ac s s'"
    and inv: "iinv_lock s" "iinv_tasks s" "iinv_count ac s" "iinv_wait s"
    and i: "ithreads s' i = Some IAwaitReturned"
  shows "iclosed s' \<and> counted_total s' = 0"
proof -
  have "iclosed s \<and> counted_total s = 0"
    using returned_origin [OF step i]
  proof (elim disjE exE conjE)
    fix n l assume l: "ithreads s i = Some (IAwaitZero n l)" "iterminated_view ac l (isvc s) = Terminated"
    with iinv_waitD [OF inv(4) l(1)] show ?thesis
      using izero_iff [OF ac inv(3)] by (auto simp: iterminated_view_def split: if_splits)
  qed (use iinv_waitD [OF inv(4)] in fastforce)
  then show ?thesis using iclosed_step [OF step] iclosed_total [OF step _ inv(1,2)] by auto
qed

lemma iwait_produce_step:
  assumes step: "istep dbg ac s s'" and inv: "iinv_lock s" "iinv_tasks s" "iinv_count ac s" "iinv_wait s"
    and i: "ithreads s' i = Some (IProduceWait False)"
  shows "iwait_ok s' (IProduceWait False)"
proof -
  have told: "\<not> producers_told s'" using i by (auto simp: producers_told_def)
  note cap = icapacity_constant [OF step]
  from produce_origin [OF step i] show ?thesis
  proof (elim disjE conjE)
    assume old: "ithreads s i = Some (IProduceWait False)"
    have "pend_guard_capacity s'" if "counted_total s' < unat (io_task_capacity (isvc s'))"
    proof (cases "counted_total s < unat (io_task_capacity (isvc s))")
      case True
      with iinv_waitD [OF inv(4) old] have "pend_guard_capacity s" by simp
      from pend_guard_capacity_kept [OF step inv(2) this] told show ?thesis by blast
    next
      case False
      with that cap have "counted_total s' < counted_total s" by simp
      from istep_total_falls [OF step inv(2,1) this] show ?thesis by blast
    qed
    moreover have "pend_close_capacity_io s'" if "iclosed s'"
    proof (cases "iclosed s")
      case True
      with iinv_waitD [OF inv(4) old] have "pend_close_capacity_io s" by simp
      from pend_close_capacity_kept [OF step inv(1) this] told show ?thesis by blast
    qed (rule istep_closes_pending(3) [OF step that])
    ultimately show ?thesis by simp
  next
    assume "iholder s = ISubmitGet" "isvc s' = io_unlock_submission (isvc s)" "itasks s' = itasks s"
      "iholder s' = IUnlocked" "io_task_capacity (isvc s) \<le> ac_get ac (active_tasks (isvc s))"
    moreover from this have "\<not> iclosed s" using inv(1) by (simp add: iinv_lock_def)
    ultimately show ?thesis using iinv_countD(1) [OF inv(3)]
      by (simp add: counted_total_def word_le_nat_alt)
  qed
qed

lemma iinv_wait_step:
  assumes ac: "counts_atomically ac" and step: "istep dbg ac s s'"
    and inv: "iinv_lock s" "iinv_tasks s" "iinv_count ac s" "iinv_byte s" "iinv_wait s"
  shows "iinv_wait s'"
  unfolding iinv_wait_def
proof (intro allI impI)
  fix i pc assume i: "ithreads s' i = Some pc"
  show "iwait_ok s' pc"
  proof (cases pc)
    case (IAwaitParked n)
    then show ?thesis using iwait_parked_step [OF ac step inv(1-3,5)] i by auto
  next
    case (IAwaitZero n l)
    then show ?thesis using iwait_zero_step [OF step inv(1,4,5)] i by blast
  next
    case IAwaitReturned
    then show ?thesis using iwait_returned_step [OF ac step inv(1-3,5)] i by simp
  next
    case (IProduceWait n)
    then show ?thesis using iwait_produce_step [OF step inv(1-3,5)] i by (cases n) auto
  qed simp_all
qed

section \<open>All invariants of the interleaved IO service\<close>

definition iinv :: "'n atomic_count \<Rightarrow> 'n isys \<Rightarrow> bool" where
  "iinv ac s \<longleftrightarrow> counts_atomically ac \<and> iinv_lock s \<and> iinv_tasks s \<and> iinv_count ac s \<and>
     iinv_handles s \<and> iinv_stop s \<and> iinv_byte s \<and> iinv_wait s"

lemma iinvD:
  assumes "iinv ac s"
  shows "counts_atomically ac" "iinv_lock s" "iinv_tasks s" "iinv_count ac s" "iinv_handles s"
    "iinv_stop s" "iinv_byte s" "iinv_wait s"
  using assms by (simp_all add: iinv_def)

lemma iinv_init: "counts_atomically ac \<Longrightarrow> iinv ac (iinit ac capacity)"
  by (simp add: iinv_def iinit_def iinv_lock_def iinv_tasks_def iinv_count_def iinv_handles_def iinv_stop_def
      iinv_byte_def iinv_wait_def io_state_with_task_capacity_def counted_total_def counts_atomicallyD(1))

lemma iinv_step: "istep dbg ac s s' \<Longrightarrow> iinv ac s \<Longrightarrow> iinv ac s'"
  by (simp add: iinv_def iinv_lock_step iinv_tasks_step iinv_count_step iinv_handles_step iinv_stop_step
      iinv_byte_step iinv_wait_step [of ac dbg s s'])

lemma ireach_iinv:
  assumes "ireach dbg ac capacity s" and "counts_atomically ac"
  shows "iinv ac s \<and> io_task_capacity (isvc s) = capacity"
  using assms(1)
proof (induction rule: ireach.induct)
  case ireach_init
  show ?case using iinv_init [OF assms(2)] by (simp add: iinit_def io_state_with_task_capacity_def)
next
  case (ireach_step s s')
  then show ?case using iinv_step icapacity_constant by auto
qed

end
