(* ===== verification/Io_Demo.thy ===== *)
theory Io_Demo
  imports Io_Interleaving
begin

text \<open>
  A few concrete runs of the interleaved IO service with a 64-bit counter, step by step, for
  the witnesses of its properties: each lemma adds one step to the run before it.
\<close>

lemmas io_by_F = ireach_step [OF _ iby_future]
lemmas io_by_H = ireach_step [OF _ iby_holder]
lemmas io_by_C = ireach_step [OF _ iby_closer]
lemmas io_by_W = ireach_step [OF _ iby_waiter]

lemma word_count_simps:
  "ac_get word_count c = c" "ac_is_zero word_count c = (c = 0)"
  "ac_inc word_count c = (if c = - 1 then None else Some (c + 1))"
  "ac_dec word_count c = (if c = 0 then None else Some (c - 1))"
  by (simp_all add: word_count_def)

lemmas io_run_simps = io_lock_submission_def io_unlock_submission_def io_is_not_running_def word_count_simps
  registration_new_def is_finished_def finish_def key_def io_state_shutdown_def io_state_stop_def
  shutdown_bits_def fetch_update_def stop_bits_def load_def add_assign_def iclose_report_def
  iterminated_view_def isignal_capacity_def isignal_notify_def iwake_all_def io_notify_capacity_changed_def
  io_notify_termination_waiters_def wrapping_add_def

lemma io_run_0: "ireach True word_count 1 \<lparr>isvc = \<lparr>io_lifecycle_byte = 0, active_tasks = 0, io_task_capacity = 1,
    io_submission_lock = False, io_abort_handles = Map.empty, termination_notify = 0, io_capacity_tx = 0\<rparr>,
    itasks = Map.empty, iholder = IUnlocked, ithreads = Map.empty\<rparr>"
  using ireach_init [of True word_count 1]
  by (simp add: iinit_def io_state_with_task_capacity_def) (simp add: word_count_def)

text \<open>
  The common beginning: a service of capacity 1 registers the future at address 16, its
  submitter delivers it, and the spawned task polls it.
\<close>

lemmas i1 =
  io_by_H [OF io_run_0 ilock [where h = ISubmitCheck], simplified io_run_simps, simplified, OF refl]
lemmas i2 =
  io_by_H [OF i1 isubmit_open, simplified io_run_simps, simplified]
lemmas i3 =
  io_by_H [OF i2 isubmit_room, simplified io_run_simps, simplified]
lemmas i4 =
  io_by_H [OF i3 isubmit_inc, simplified io_run_simps, simplified, OF refl]
lemmas i5 =
  io_by_H [OF i4 isubmit_create [where k = 16], simplified io_run_simps, simplified]
lemmas i6 =
  io_by_H [OF i5 isubmit_register [where k = 16], simplified io_run_simps, simplified, OF refl, simplified]
lemmas io_run_held =
  io_by_H [OF i6 isubmit_unlock [where k = 16], simplified io_run_simps, simplified, OF refl, simplified]
lemmas i8 =
  io_by_F [OF io_run_held future_sent [where k = 16], simplified io_run_simps, simplified, OF refl, simplified]
lemmas io_run_polled =
  io_by_F [OF i8 future_received [where k = 16], simplified io_run_simps, simplified, OF refl, simplified]

text \<open>
  A producer (thread 3) is refused for saturation and waits on the channel; then the
  guard frees the slot.
\<close>

lemmas ip1 =
  io_by_W [OF io_run_polled iproduce_start [where i = 3], simplified io_run_simps, simplified, simplified]
lemmas ip2 =
  io_by_H [OF ip1 ilock [where h = ISubmitCheck], simplified io_run_simps, simplified, OF refl, simplified]
lemmas ip3 =
  io_by_H [OF ip2 isubmit_open, simplified io_run_simps, simplified]
lemmas io_run_saturated =
  io_by_H [OF ip3 iproducer_saturated [where i = 3 and n = False], simplified io_run_simps, simplified, simplified]
lemmas iq1 =
  io_by_F [OF io_run_saturated future_finished [where k = 16], simplified io_run_simps, simplified, OF refl, simplified]
lemmas iq2 =
  io_by_F [OF iq1 future_dropped [where k = 16], simplified io_run_simps, simplified, OF refl, simplified]
lemmas iq3 =
  io_by_F [OF iq2 guard_mark [where k = 16], simplified io_run_simps, simplified, OF refl, simplified]
lemmas iq4 =
  io_by_F [OF iq3 guard_remove [where k = 16], simplified io_run_simps, simplified, OF refl, simplified]
lemmas io_run_freed =
  io_by_F [OF iq4 guard_count [where k = 16], simplified io_run_simps, simplified, OF refl, simplified, OF refl, simplified]

text \<open>
  A waiter (thread 2) parks while the future runs, the service is shut down (thread 1),
  and the guard frees the last slot; then the waiter is woken and returns.
\<close>

lemmas iw1 =
  io_by_W [OF io_run_polled iawait_start [where i = 2], simplified io_run_simps, simplified, simplified]
lemmas iw2 =
  io_by_W [OF iw1 iawait_enable [where i = 2 and n = False], simplified io_run_simps, simplified, simplified]
lemmas iw3 =
  io_by_W [OF iw2 iawait_load [where i = 2 and n = False], simplified io_run_simps, simplified, simplified]
lemmas io_run_waiting =
  io_by_W [OF iw3 iawait_park [where i = 2 and n = False and l = Running], simplified io_run_simps, simplified, simplified]
lemmas is1 =
  io_by_H [OF io_run_waiting ilock [where h = IShutdownStore], simplified io_run_simps, simplified, OF refl, simplified]
lemmas is2 =
  io_by_H [OF is1 ishutdown_store, simplified io_run_simps, simplified]
lemmas is3 =
  io_by_H [OF is2 ishutdown_unlock [where i = 1], simplified io_run_simps, simplified]
lemmas is4 =
  io_by_C [OF is3 iclose_capacity [where i = 1], simplified io_run_simps, simplified, OF refl, simplified]
lemmas it1 =
  io_by_F [OF is4 future_finished [where k = 16], simplified io_run_simps, simplified, OF refl, simplified]
lemmas it2 =
  io_by_F [OF it1 future_dropped [where k = 16], simplified io_run_simps, simplified, OF refl, simplified]
lemmas it3 =
  io_by_F [OF it2 guard_mark [where k = 16], simplified io_run_simps, simplified, OF refl, simplified]
lemmas it4 =
  io_by_F [OF it3 guard_remove [where k = 16], simplified io_run_simps, simplified, OF refl, simplified]
lemmas io_run_terminated =
  io_by_F [OF it4 guard_count [where k = 16], simplified io_run_simps, simplified, OF refl, simplified, OF refl, simplified]
lemmas iu1 =
  io_by_F [OF io_run_terminated guard_capacity [where k = 16], simplified io_run_simps, simplified, OF refl, simplified]
lemmas iu2 =
  io_by_F [OF iu1 guard_notify [where k = 16], simplified io_run_simps, simplified, OF refl, simplified]
lemmas iu3 =
  io_by_W [OF iu2 iawait_wake [where i = 2], simplified io_run_simps, simplified, simplified]
lemmas iu4 =
  io_by_W [OF iu3 iawait_enable [where i = 2 and n = False], simplified io_run_simps, simplified, simplified]
lemmas iu5 =
  io_by_W [OF iu4 iawait_load [where i = 2 and n = False], simplified io_run_simps, simplified, simplified]
lemmas io_run_returned =
  io_by_W [OF iu5 iawait_ready [where i = 2 and n = False and l = ShuttingDown], simplified io_run_simps, simplified, simplified]

text \<open>
  A stop (thread 5) finds the future registered and runs to its end.
\<close>

lemmas ix1 =
  io_by_H [OF io_run_held ilock [where h = IStopStore], simplified io_run_simps, simplified, OF refl]
lemmas ix2 =
  io_by_H [OF ix1 istop_store, simplified io_run_simps, simplified]
lemmas ix3 =
  io_by_H [OF ix2 istop_get, simplified io_run_simps, simplified]
lemmas ix4 =
  io_by_H [OF ix3 istop_unlock [where i = 5 and r = 1], simplified io_run_simps, simplified, simplified]
lemmas ix5 =
  io_by_C [OF ix4 istop_take [where i = 5 and r = 1 and ks = "[16]"], simplified io_run_simps, simplified, simplified]
lemmas ix6 =
  io_by_C [OF ix5 istop_abort [where i = 5 and r = 1 and k = 16 and ks = "[]" and n = 0], simplified io_run_simps, simplified, simplified]
lemmas ix7 =
  io_by_C [OF ix6 istop_count [where i = 5 and r = 1 and ks = "[]" and n = 0], simplified io_run_simps, simplified, OF refl, simplified]
lemmas ix8 =
  io_by_C [OF ix7 istop_loop_end [where i = 5 and r = 1 and n = 1], simplified io_run_simps, simplified, simplified]
lemmas ix9 =
  io_by_C [OF ix8 iclose_capacity [where i = 5], simplified io_run_simps, simplified, OF refl, simplified]
lemmas io_run_stopped =
  io_by_C [OF ix9 iclose_notify [where i = 5], simplified io_run_simps, simplified, OF refl, simplified]

end
