(* ===== verification/Io_Claims.thy ===== *)
theory Io_Claims
  imports Io_Waiters Io_Demo Bounded_Service
begin

text \<open>
  What holds of the IO service under every interleaving of its threads: it is an instance of
  the services of \<open>Bounded_Service\<close>, and the properties below follow from the invariants of
  the theories \<open>Io_Invariants\<close> and \<open>Io_Waiters\<close>.
\<close>

section \<open>The interpretation\<close>

definition io_waits :: "nat \<Rightarrow> 'n isys \<Rightarrow> bool" where
  "io_waits i s \<longleftrightarrow> ithreads s i = Some (IAwaitParked False)"

definition io_load :: "'n isys \<Rightarrow> nat" where
  "io_load s = counted_total s"

definition io_limit :: "'n isys \<Rightarrow> nat" where
  "io_limit s = unat (io_task_capacity (isvc s))"

definition io_closed :: "'n isys \<Rightarrow> bool" where
  "io_closed s \<longleftrightarrow> io_is_not_running (isvc s)"

lemma io_closed_iff: "io_closed s \<longleftrightarrow> iclosed s"
  by (simp add: io_closed_def io_is_not_running_def)

lemma istep_count_unit:
  assumes step: "istep dbg ac s s'" and inv: "iinv ac s"
  shows "counted_total s' \<le> Suc (counted_total s) \<and> counted_total s \<le> Suc (counted_total s')"
  using step
proof (cases rule: istep.cases)
  case (iby_future k)
  from future_step_count [OF this iinvD(3) [OF inv]] show ?thesis by auto
next
  case iby_holder
  then show ?thesis
  proof (cases rule: iholder_step.cases)
    case (isubmit_create k)
    then show ?thesis using msum_upd_new [OF iinv_tasksD(1) [OF iinvD(3) [OF inv]] isubmit_create(3)]
      by (simp add: counted_total_def is_counted_def)
  next
    case (isubmit_unlock k t)
    then have "i_future t = FutureAdmitted" using iinv_tasksD(3) [OF iinvD(3) [OF inv]] by fastforce
    then show ?thesis using isubmit_unlock msum_upd_same [OF iinv_tasksD(1) [OF iinvD(3) [OF inv]] isubmit_unlock(3)]
      by (simp add: counted_total_def is_counted_def)
  qed (auto simp: counted_total_def)
next
  case iby_reclaim
  then show ?thesis
  proof (cases rule: ireclaim_step.cases)
    case (ireclaim k t)
    then show ?thesis using
        msum_remove [OF iinv_tasksD(1) [OF iinvD(3) [OF inv]] ireclaim(2), of "\<lambda>t. of_bool (is_counted (i_future t))"]
      by (simp add: counted_total_def is_counted_def)
  qed (simp add: counted_total_def)
qed (simp_all add: counted_total_def istep_frames)

lemma istep_close_alone:
  assumes step: "istep dbg ac s s'" and "\<not> iclosed s" "iclosed s'"
  shows "counted_total s' = counted_total s"
  using step
proof (cases rule: istep.cases)
  case iby_holder
  then show ?thesis using assms(2,3)
    by (cases rule: iholder_step.cases) (auto simp: counted_total_def io_lock_submission_Some)
qed (use assms(2,3) in \<open>simp_all add: istep_frames\<close>)

interpretation io: pool_service "istep dbg ac" "iinv ac" io_load io_limit io_closed
proof
  fix s s' :: "'a isys" assume step: "istep dbg ac s s'"
  show "iinv ac s \<Longrightarrow> iinv ac s'" using iinv_step [OF step] .
  show "io_limit s' = io_limit s" using icapacity_constant [OF step] by (simp add: io_limit_def)
  show "iinv ac s \<Longrightarrow> io_closed s \<Longrightarrow> io_closed s'" using iclosed_step [OF step] by (simp add: io_closed_iff)
  show "io_load s' \<le> io_load s" if "iinv ac s" "io_closed s"
    using iclosed_total [OF step _ iinvD(2,3) [OF that(1)]] that(2) by (simp add: io_closed_iff io_load_def)
  show "io_load s' \<le> Suc (io_load s) \<and> io_load s \<le> Suc (io_load s')" if "iinv ac s"
    using istep_count_unit [OF step that] by (simp add: io_load_def)
  show "io_load s' = io_load s" if "iinv ac s" "\<not> io_closed s" "io_closed s'"
    using istep_close_alone [OF step] that(2,3) by (simp add: io_closed_iff io_load_def)
next
  fix s :: "'a isys" assume "iinv ac s"
  then show "io_load s \<le> io_limit s"
    using iinv_countD(2) [OF iinvD(4)] by (simp add: io_load_def io_limit_def)
qed

interpretation io_wait: waitable_service "istep dbg ac" "iinv ac" io_load io_limit io_closed io_waits pend_notify
proof
  fix i and s :: "'a isys"
  assume "iinv ac s" "io_closed s" "io_load s = 0" "io_waits i s"
  then show "pend_notify s"
    using iinv_waitD [OF iinvD(8), of ac s i "IAwaitParked False"]
    by (simp add: io_closed_iff io_load_def io_waits_def)
qed

section \<open>Runs\<close>

lemma ireach_run: "(istep dbg ac)\<^sup>*\<^sup>* s s' \<Longrightarrow> ireach dbg ac capacity s \<Longrightarrow> ireach dbg ac capacity s'"
  by (induction rule: rtranclp_induct) (auto intro: ireach_step)

lemma ireachD:
  assumes "ireach dbg ac capacity s" and "counts_atomically ac"
  shows "iinv ac s" "io_task_capacity (isvc s) = capacity"
  using ireach_iinv [OF assms] by simp_all

lemma active_counted: "iinv ac s \<Longrightarrow> unat (ac_get ac (active_tasks (isvc s))) = counted_total s"
  by (rule iinv_countD(1) [OF iinvD(4)])

lemma io_terminated_iff:
  assumes "iinv ac s"
  shows "io_state_lifecycle ac (isvc s) = Terminated \<longleftrightarrow> iclosed s \<and> counted_total s = 0"
  using izero_iff [OF iinvD(1,4) [OF assms]] iinvD(7) [OF assms]
  by (auto simp: io_state_lifecycle_def Let_def iinv_byte_def)

text \<open>A future whose destructor has not run is counted, so a terminated service has none.\<close>

lemma live_counted:
  assumes "iinv ac s"
  shows "card (live_futures s) \<le> unat (ac_get ac (active_tasks (isvc s)))"
  using live_futures_card [OF iinvD(3) [OF assms]] active_counted [OF assms] by simp

lemma terminated_no_futures:
  assumes "iinv ac s" and "counted_total s = 0"
  shows "live_futures s = {}"
proof -
  have "finite (live_futures s)"
    by (rule finite_subset [OF _ iinv_tasksD(1) [OF iinvD(3) [OF assms(1)]]]) (auto simp: live_futures_def)
  with live_futures_card [OF iinvD(3) [OF assms(1)]] assms(2) show ?thesis by simp
qed

lemma iinv_no_panic:
  assumes inv: "iinv ac s"
  shows "\<not> iabout_to_panic dbg ac s"
proof
  note count = iinv_countD [OF iinvD(4) [OF inv]] and ac = iinvD(1) [OF inv]
  assume "iabout_to_panic dbg ac s"
  then consider (inc) "iholder s = ISubmitInc" "ac_inc ac (active_tasks (isvc s)) = None"
    | (insert) k where "iholder s = ISubmitRegister k" "ihandles s k \<noteq> None"
    | (dec) k t where "itasks s k = Some t" "i_future t = GuardCount" "ac_dec ac (active_tasks (isvc s)) = None"
    | (tally) i r ks n where "ithreads s i = Some (IStopCount r ks n)" "add_assign dbg n 1 = None"
    unfolding iabout_to_panic_def key_def by (elim disjE exE conjE) blast+
  then show False
  proof cases
    case inc
    have "unat (ac_get ac (active_tasks (isvc s))) + 1 < 2 ^ 64"
      using count(1,3) inc(1) unat_usize_less [of "io_task_capacity (isvc s)"] by linarith
    with ac_inc_spec [OF ac] inc(2) show False by (metis option.distinct(1))
  next
    case insert
    then show False using iinvD(5) [OF inv] by (simp add: iinv_handles_def)
  next
    case dec
    have "0 < unat (ac_get ac (active_tasks (isvc s)))"
      using counted_member [OF iinvD(3) [OF inv] dec(1)] dec(2) count(1) by (simp add: is_counted_def)
    with ac_dec_spec [OF ac] dec(3) show False by (metis option.distinct(1))
  next
    case tally
    have "unat n + unat (1 :: usize) < 2 ^ 64"
      using iinv_stopD [OF iinvD(6) [OF inv] tally(1)] unat_usize_less [of r] by simp
    with tally(2) add_assign_fits [of n 1 dbg] show False by simp
  qed
qed

section \<open>Properties\<close>

text \<open>
  C14: The IO service under concurrency. Whatever the threads do, the counter is exact
  and within the capacity, and bounds the futures whose destructor has not run: a slot is
  never free while the user's future that took it is alive. So in a terminated service
  every accepted future has been destroyed. In no reachable state is a thread about to fail:
  the counter neither overflows nor goes below zero, the key of a new abort handle is free,
  the tally of a stop fits. Every tracked handle is under its own key and belongs to a future
  whose guard has not removed it. A stop reports no more cancelled futures than it counted
  running, however guards, submissions and other stops interleave with it.
\<close>
theorem io_concurrent_accounting:
  assumes "ireach dbg ac capacity s" and "counts_atomically ac"
  shows "unat (ac_get ac (active_tasks (isvc s))) = counted_total s \<and> counted_total s \<le> unat capacity \<and>
    card (live_futures s) \<le> unat (ac_get ac (active_tasks (isvc s))) \<and>
    (io_state_lifecycle ac (isvc s) = Terminated \<longrightarrow> live_futures s = {}) \<and>
    \<not> iabout_to_panic dbg ac s \<and>
    (\<forall>k a. io_abort_handles (isvc s) k = Some a \<longrightarrow> key (io_tracked_marker a) = k \<and>
      (\<exists>t. itasks s k = Some t \<and> \<not> past_remove (i_future t))) \<and>
    (\<forall>i rep. ithreads s i = Some (IClosed (Some rep)) \<longrightarrow> report_cancelled rep \<le> report_running rep)"
proof -
  note inv = ireachD [OF assms]
  have "unat (ac_get ac (active_tasks (isvc s))) = counted_total s \<and> counted_total s \<le> unat capacity \<and>
      card (live_futures s) \<le> unat (ac_get ac (active_tasks (isvc s))) \<and>
      (io_state_lifecycle ac (isvc s) = Terminated \<longrightarrow> live_futures s = {})"
    using active_counted [OF inv(1)] live_counted [OF inv(1)] io.within_limit [OF inv(1)] inv(2)
      terminated_no_futures [OF inv(1)] io_terminated_iff [OF inv(1)]
    by (simp add: io_load_def io_limit_def)
  moreover have "\<forall>k a. io_abort_handles (isvc s) k = Some a \<longrightarrow> key (io_tracked_marker a) = k \<and>
      (\<exists>t. itasks s k = Some t \<and> \<not> past_remove (i_future t))"
    using iinv_handlesD [OF iinvD(5) [OF inv(1)]] by blast
  moreover have "\<forall>i rep. ithreads s i = Some (IClosed (Some rep)) \<longrightarrow> report_cancelled rep \<le> report_running rep"
    using iinv_stopD [OF iinvD(6) [OF inv(1)]] by fastforce
  ultimately show ?thesis using iinv_no_panic [OF inv(1)] by (intro conjI; (elim conjE)?) assumption+
qed

theorem io_concurrent_accounting_witness:
  "(\<exists>s. ireach True word_count 1 s \<and> live_futures s = {16} \<and> counted_total s \<le> 1) \<and>
   (\<exists>s rep. ireach True word_count 1 s \<and> ithreads s 5 = Some (IClosed (Some rep)) \<and>
     report_cancelled rep = 1 \<and> report_cancelled rep \<le> report_running rep \<and>
     \<not> iabout_to_panic True word_count s)"
proof
  obtain s where s: "ireach True word_count 1 s" "live_futures s = {16}"
    by (rule that [OF io_run_polled]) (auto simp: live_futures_def future_alive_def split: if_splits)
  with io_concurrent_accounting [OF s(1) word_count_ok]
  show "\<exists>s. ireach True word_count 1 s \<and> live_futures s = {16} \<and> counted_total s \<le> 1" by auto
next
  obtain s rep where s: "ireach True word_count 1 s" "ithreads s 5 = Some (IClosed (Some rep))" "report_cancelled rep = 1"
    by (rule that [OF io_run_stopped]) (simp, simp)
  from io_concurrent_accounting [OF s(1) word_count_ok] s
  show "\<exists>s rep. ireach True word_count 1 s \<and> ithreads s 5 = Some (IClosed (Some rep)) \<and>
     report_cancelled rep = 1 \<and> report_cancelled rep \<le> report_running rep \<and>
     \<not> iabout_to_panic True word_count s" by blast
qed

text \<open>
  C15: No lost termination wake-up of the IO service. In a terminated service every waiter
  parked in \<^verbatim>\<open>await_termination\<close> is still owed a \<^verbatim>\<open>notify_waiters\<close> that some guard or closing
  thread is on its way to; once none is on its way, along any run, nobody is parked.
\<close>
theorem io_no_lost_termination_wakeup:
  assumes "ireach dbg ac capacity s" and "counts_atomically ac"
    and "io_state_lifecycle ac (isvc s) = Terminated"
  shows "(ithreads s i = Some (IAwaitParked False) \<longrightarrow> pend_notify s) \<and>
    ((istep dbg ac)\<^sup>*\<^sup>* s s' \<longrightarrow> \<not> pend_notify s' \<longrightarrow> ithreads s' i \<noteq> Some (IAwaitParked False))"
proof -
  note inv = ireachD(1) [OF assms(1,2)]
  have "io_closed s" "io_load s = 0"
    using assms(3) io_terminated_iff [OF inv] by (simp_all add: io_closed_iff io_load_def)
  then show ?thesis using io_wait.owed [OF inv, of i] io_wait.quiet_run [OF _ inv, of dbg s' i]
    by (auto simp: io_waits_def)
qed

theorem io_no_lost_termination_wakeup_witness:
  "\<exists>s. ireach True word_count 1 s \<and> ithreads s 2 = Some (IAwaitParked False) \<and>
     io_state_lifecycle word_count (isvc s) = Terminated \<and> pend_notify s"
proof -
  obtain s where s: "ireach True word_count 1 s" "ithreads s 2 = Some (IAwaitParked False)"
    "io_state_lifecycle word_count (isvc s) = Terminated"
    by (rule that [OF io_run_terminated]) (simp_all add: io_state_lifecycle_def word_count_simps load_def)
  with io_no_lost_termination_wakeup [OF s(1) word_count_ok s(3), of 2] show ?thesis by blast
qed

text \<open>
  C16: \<^verbatim>\<open>await_termination\<close> of the IO service returns only when the service has terminated:
  whoever has returned finds, from then on, the service closed, its counter at zero and
  every accepted future destroyed.
\<close>
theorem io_await_returns_when_terminated:
  assumes "ireach dbg ac capacity s" and "counts_atomically ac"
    and "ithreads s i = Some IAwaitReturned" and "(istep dbg ac)\<^sup>*\<^sup>* s s'"
  shows "io_state_lifecycle ac (isvc s') = Terminated \<and> live_futures s' = {}"
proof -
  note inv = ireachD(1) [OF assms(1,2)]
  have "io_closed s" "io_load s = 0"
    using iinv_waitD [OF iinvD(8) [OF inv] assms(3)] by (simp_all add: io_closed_iff io_load_def)
  from io.terminated_run [OF assms(4) inv this] show ?thesis
    using io_terminated_iff [OF io.ok_run [OF assms(4) inv]] terminated_no_futures [OF io.ok_run [OF assms(4) inv]]
    by (simp add: io_closed_iff io_load_def)
qed

theorem io_await_returns_when_terminated_witness:
  "\<exists>s. ireach True word_count 1 s \<and> ithreads s 2 = Some IAwaitReturned \<and> itasks s 16 \<noteq> None \<and>
     io_state_lifecycle word_count (isvc s) = Terminated"
proof -
  obtain s where s: "ireach True word_count 1 s" "ithreads s 2 = Some IAwaitReturned" "itasks s 16 \<noteq> None"
    by (rule that [OF io_run_returned]) simp_all
  with io_await_returns_when_terminated [OF s(1) word_count_ok s(2) rtranclp.rtrancl_refl] show ?thesis by blast
qed

text \<open>
  C20: A close of the IO service is final. After shutdown or stop, along every run, the
  service stays closed, its counter never rises, no new future is registered, and a
  terminated service stays terminated.
\<close>
theorem io_close_is_final:
  assumes "ireach dbg ac capacity s" and "counts_atomically ac"
    and "io_is_not_running (isvc s)" and "(istep dbg ac)\<^sup>*\<^sup>* s s'"
  shows "io_is_not_running (isvc s') \<and> dom (itasks s') \<subseteq> dom (itasks s) \<and>
    unat (ac_get ac (active_tasks (isvc s'))) \<le> unat (ac_get ac (active_tasks (isvc s))) \<and>
    (io_state_lifecycle ac (isvc s) = Terminated \<longrightarrow> io_state_lifecycle ac (isvc s') = Terminated)"
proof -
  note inv = ireachD(1) [OF assms(1,2)]
  have closed: "io_closed s" using assms(3) by (simp add: io_closed_def)
  note run = io.closed_run [OF assms(4) inv closed] and inv' = io.ok_run [OF assms(4) inv]
  have "dom (itasks s') \<subseteq> dom (itasks s)" using assms(4)
  proof (induction rule: rtranclp_induct)
    case (step t u)
    have "iclosed t" "iinv_lock t" "iinv_tasks t"
      using io.closed_run [OF step(1) inv closed] iinvD [OF io.ok_run [OF step(1) inv]]
      by (simp_all add: io_closed_iff)
    with step(2) have "dom (itasks u) \<subseteq> dom (itasks t)" by (rule iclosed_tasks)
    with step.IH show ?case by blast
  qed simp
  then show ?thesis using run active_counted [OF inv] active_counted [OF inv']
      io_terminated_iff [OF inv] io_terminated_iff [OF inv']
    by (auto simp: io_load_def io_closed_iff io_is_not_running_def)
qed

theorem io_close_is_final_witness:
  "\<exists>s s'. ireach True word_count 1 s \<and> io_is_not_running (isvc s) \<and> (istep True word_count)\<^sup>*\<^sup>* s s' \<and>
     dom (itasks s') \<subseteq> dom (itasks s)"
proof -
  obtain s where s: "ireach True word_count 1 s" "io_is_not_running (isvc s)"
    by (rule that [OF io_run_terminated]) (simp add: io_is_not_running_def load_def)
  from io_close_is_final [OF s(1) word_count_ok s(2) rtranclp.rtrancl_refl] s show ?thesis by blast
qed

text \<open>
  C21: No lost capacity wake-up of the IO service. A producer refused for saturation that
  waits on an unchanged channel is owed the change as soon as there is room (by the guard
  that freed the slot) or the service is closed (by the closing thread).
\<close>
theorem io_no_lost_capacity_wakeup:
  assumes "ireach dbg ac capacity s" and "counts_atomically ac" and "ithreads s i = Some (IProduceWait False)"
  shows "(ac_get ac (active_tasks (isvc s)) < capacity \<longrightarrow>
      (\<exists>k t. itasks s k = Some t \<and> i_future t = GuardCapacity)) \<and>
    (io_is_not_running (isvc s) \<longrightarrow> pend_close_capacity_io s)"
proof -
  note inv = ireachD [OF assms(1,2)]
  from iinv_waitD [OF iinvD(8) [OF inv(1)] assms(3)] active_counted [OF inv(1)] inv(2) show ?thesis
    by (auto simp: word_less_nat_alt io_is_not_running_def pend_guard_capacity_def some_future_def)
qed

theorem io_no_lost_capacity_wakeup_witness:
  "\<exists>s k t. ireach True word_count 1 s \<and> ithreads s 3 = Some (IProduceWait False) \<and>
     active_tasks (isvc s) = 0 \<and> itasks s k = Some t \<and> i_future t = GuardCapacity"
proof -
  obtain s where s: "ireach True word_count 1 s" "ithreads s 3 = Some (IProduceWait False)" "active_tasks (isvc s) = 0"
    by (rule that [OF io_run_freed]) simp_all
  with io_no_lost_capacity_wakeup [OF s(1) word_count_ok s(2)] show ?thesis
    by (simp add: word_count_simps) blast
qed

text \<open>
  C18: The IO service refines the abstract pool. Every step of every thread is one admission,
  one release or the close of a pool with the service's capacity, or invisible to it; so
  every run from a new service is a run of a new pool.
\<close>
theorem io_refines_pool:
  assumes "ireach dbg ac capacity s" and "counts_atomically ac"
  shows "pool_step\<^sup>*\<^sup>* (new_pool (unat capacity)) (pool_of io_load io_limit io_closed s) \<and>
    (istep dbg ac s s' \<longrightarrow>
       pool_step\<^sup>=\<^sup>= (pool_of io_load io_limit io_closed s) (pool_of io_load io_limit io_closed s'))"
proof -
  have "(istep dbg ac)\<^sup>*\<^sup>* (iinit ac capacity) s" using assms(1)
    by (induction rule: ireach.induct) (auto intro: rtranclp.rtrancl_into_rtrancl)
  from io.run_simulates [OF this iinv_init [OF assms(2)]]
  have "pool_step\<^sup>*\<^sup>* (pool_of io_load io_limit io_closed (iinit ac capacity)) (pool_of io_load io_limit io_closed s)" .
  moreover have "pool_of io_load io_limit io_closed (iinit ac capacity) = new_pool (unat capacity)"
    by (simp add: pool_of_def new_pool_def io_load_def io_limit_def io_closed_def iinit_def counted_total_def
        io_state_with_task_capacity_def io_is_not_running_def)
  ultimately show ?thesis using io.simulates [OF _ ireachD(1) [OF assms]] by simp
qed

theorem io_refines_pool_witness:
  "\<exists>s. ireach True word_count 1 s \<and> io_load s = 1 \<and> pool_step\<^sup>*\<^sup>* (new_pool 1) (pool_of io_load io_limit io_closed s)"
proof -
  obtain s where s: "ireach True word_count 1 s" "io_load s = 1"
  proof (rule that [OF io_run_held])
    show "io_load \<lparr>isvc = v, itasks = [16 \<mapsto> \<lparr>i_registration = r, i_future = FutureHeld\<rparr>],
        iholder = IUnlocked, ithreads = h\<rparr> = 1" for v :: "usize isvc" and r h
      by (simp add: io_load_def counted_total_def is_counted_def msum_def)
  qed
  with io_refines_pool [OF s(1) word_count_ok] show ?thesis by auto
qed

end
