(* ===== verification/Io_Liveness.thy ===== *)
theory Io_Liveness
  imports Io_Claims Fair_Progress
begin

text \<open>
  Liveness of the IO service: in a fair execution, whoever waits in \<^verbatim>\<open>await_termination\<close> of a
  service that has terminated returns.

  Fairness is asked only of code that is under way and does not wait for anybody: the drop
  of a guard once it has begun, the holder of the submission lock, a stop or shutdown after
  that lock, and a waiting thread that can move. Nothing is asked of user futures, of
  submitters that do not hold the lock, or of calls that have not begun.
\<close>

section \<open>Agents\<close>

datatype io_agent = GuardAgent usize | HolderAgent | ThreadAgent nat

definition dropping :: "future_pc \<Rightarrow> bool" where
  "dropping p \<longleftrightarrow> p \<in> {GuardMark, GuardRemove, GuardCount, GuardCapacity, GuardNotify}"

text \<open>A thread moves itself when its counter changes otherwise than by a notification.\<close>

definition imoves :: "nat \<Rightarrow> 'n isys \<Rightarrow> 'n isys \<Rightarrow> bool" where
  "imoves i s s' \<longleftrightarrow> (\<exists>pc. ithreads s i = Some pc \<and>
     ithreads s' i \<notin> {Some pc, Some (iwake_notified pc), Some (iwake_producer pc)})"

fun iact :: "bool \<Rightarrow> 'n atomic_count \<Rightarrow> io_agent \<Rightarrow> 'n isys \<Rightarrow> 'n isys \<Rightarrow> bool" where
  "iact dbg ac (GuardAgent k) s s' \<longleftrightarrow>
     (\<exists>t. itasks s k = Some t \<and> dropping (i_future t)) \<and> future_step ac k s s'"
| "iact dbg ac HolderAgent s s' \<longleftrightarrow> iholder s \<noteq> IUnlocked \<and> iholder_step dbg ac s s'"
| "iact dbg ac (ThreadAgent i) s s' \<longleftrightarrow> (icloser_step dbg s s' \<or> iwaiter_step ac s s') \<and> imoves i s s'"

text \<open>The invariant: the service's own, and only finitely many threads exist.\<close>

definition ilive :: "'n atomic_count \<Rightarrow> 'n isys \<Rightarrow> bool" where
  "ilive ac s \<longleftrightarrow> iinv ac s \<and> finite (dom (ithreads s))"

lemma iliveD:
  assumes "ilive ac s"
  shows "iinv ac s" "counts_atomically ac" "iinv_lock s" "iinv_tasks s" "iinv_count ac s" "iinv_wait s"
  using assms iinvD unfolding ilive_def by blast+

lemma ilive_step: "istep dbg ac s s' \<Longrightarrow> ilive ac s \<Longrightarrow> ilive ac s'"
proof -
  assume step: "istep dbg ac s s'" and live: "ilive ac s"
  have signal: "dom (\<lambda>i. map_option f (m i)) = dom m" for f and m :: "nat \<rightharpoonup> ithread_pc"
    by (auto simp: dom_def)
  from step live have "finite (dom (ithreads s'))"
    by (elim istep_elims) (simp_all add: ilive_def isignal_capacity_def isignal_notify_def iwake_all_def signal)
  with live iinv_step [OF step] show ?thesis by (simp add: ilive_def)
qed

interpretation io_fair: fair_system "istep dbg ac" "iact dbg ac" "ilive ac"
proof
  show "iact dbg ac a s s' \<Longrightarrow> istep dbg ac s s'" for a and s s' :: "'a isys"
    by (cases a) (auto intro: istep.intros)
qed (rule ilive_step)

lemma ireach_ilive: "ireach dbg ac capacity s \<Longrightarrow> counts_atomically ac \<Longrightarrow> ilive ac s"
proof (induction rule: ireach.induct)
  case ireach_init
  then show ?case by (simp add: ilive_def iinv_init) (simp add: iinit_def)
next
  case (ireach_step s s')
  then show ?case using ilive_step by blast
qed

section \<open>A terminated service with a parked waiter\<close>

definition iended :: "'n isys \<Rightarrow> bool" where
  "iended s \<longleftrightarrow> iclosed s \<and> counted_total s = 0"

definition iparked :: "nat \<Rightarrow> 'n isys \<Rightarrow> bool" where
  "iparked i s \<longleftrightarrow> ithreads s i = Some (IAwaitParked False)"

definition iwoken :: "nat \<Rightarrow> 'n isys \<Rightarrow> bool" where
  "iwoken i s \<longleftrightarrow> ithreads s i = Some (IAwaitParked True)"

lemma iended_step: "istep dbg ac s s' \<Longrightarrow> ilive ac s \<Longrightarrow> iended s \<Longrightarrow> iended s'"
  using iclosed_step iclosed_total iliveD(3,4) unfolding iended_def by (metis le_zero_eq)

lemma iparked_step: "istep dbg ac s s' \<Longrightarrow> iparked i s \<Longrightarrow> iwoken i s' \<or> iparked i s'"
  unfolding iparked_def iwoken_def by (elim istep_elims) (auto split: if_splits)

text \<open>The guard that is about to notify.\<close>

lemma guard_keeps:
  assumes "istep dbg ac s s'" and "iinv_tasks s" and "itasks s k = Some t" and "before_guard_notify (i_future t)"
  shows "itasks s' k = Some t \<or> future_step ac k s s'"
  using assms(1)
proof (cases rule: istep.cases)
  case (iby_future j)
  then show ?thesis using assms(3) by (cases "j = k"; cases rule: future_step.cases) auto
next
  case iby_holder
  then show ?thesis
  proof (cases rule: iholder_step.cases)
    case (isubmit_unlock j u)
    then have "i_future u = FutureAdmitted" using iinv_tasksD(3) [OF assms(2)] by fastforce
    then show ?thesis using isubmit_unlock assms(3,4) by (auto simp: before_guard_notify_def)
  qed (use assms(3) in auto)
next
  case iby_reclaim
  then show ?thesis using assms(3,4) by (cases rule: ireclaim_step.cases) (auto simp: before_guard_notify_def)
qed (use assms(3) in \<open>simp_all add: istep_frames\<close>)

lemma guard_moves:
  assumes "future_step ac k s s'" and "itasks s k = Some t" and "before_guard_notify (i_future t)"
  shows "i_future t = GuardCapacity \<and> (\<exists>u. itasks s' k = Some u \<and> i_future u = GuardNotify) \<or>
    (iparked i s \<longrightarrow> iwoken i s')"
  using assms by (cases rule: future_step.cases)
    (auto simp: before_guard_notify_def iparked_def iwoken_def isignal_notify_def isignal_capacity_def iwake_all_def)

text \<open>The thread of a stop or shutdown that is yet to notify, with how far it has to go.\<close>

fun close_rank :: "ithread_pc \<Rightarrow> nat \<times> nat" where
  "close_rank (IStopTake r) = (3, 0)"
| "close_rank (IStopLoop r ks n) = (2, 2 * List.length ks)"
| "close_rank (IStopCount r ks n) = (2, Suc (2 * List.length ks))"
| "close_rank (ICloseCapacity rep) = (1, 0)"
| "close_rank pc = (0, 0)"

lemma close_blind [simp]:
  "before_close_notify pc \<Longrightarrow> iwake_notified pc = pc" "before_close_notify pc \<Longrightarrow> iwake_producer pc = pc"
  by (cases pc; simp)+

lemma close_keeps:
  assumes "istep dbg ac s s'" and "ithreads s j = Some pc" and "before_close_notify pc"
  shows "ithreads s' j = Some pc \<or>
    (\<exists>pc'. ithreads s' j = Some pc' \<and> before_close_notify pc' \<and> close_rank pc' < close_rank pc) \<or>
    (\<forall>i. iparked i s \<longrightarrow> iwoken i s')"
  using assms unfolding iparked_def iwoken_def
  by (elim istep_elims) (auto simp: isignal_notify_def isignal_capacity_def iwake_all_def less_prod_def)

lemma close_moves:
  assumes "ilive ac s" and "ithreads s j = Some pc" and "before_close_notify pc"
  shows "\<exists>s'. icloser_step dbg s s' \<and> imoves j s s'"
proof -
  note inv = iliveD(1) [OF assms(1)]
  note ok = iinv_stopD [OF iinvD(6) [OF inv] assms(2)]
  have move: "imoves j s s'" if "ithreads s' j = Some pc'" "pc' \<noteq> pc" for s' :: "'a isys" and pc'
    using that assms(2,3) by (simp add: imoves_def)
  show ?thesis
  proof (cases pc)
    case (IStopTake r)
    obtain ks where "distinct ks" "set ks = dom (ihandles s)"
      using finite_distinct_list [OF handles_card(1) [OF iinvD(3,5) [OF inv]]] by blast
    from istop_take [OF assms(2) [unfolded IStopTake] this] show ?thesis
      using IStopTake by (intro exI conjI) (assumption, rule move, simp, simp)
  next
    case (IStopLoop r ks n)
    show ?thesis
    proof (cases ks)
      case Nil
      show ?thesis using istop_loop_end [OF assms(2) [unfolded IStopLoop Nil]] IStopLoop
        by (intro exI conjI) (assumption, rule move, simp, simp)
    next
      case (Cons k ks')
      show ?thesis using istop_skip [OF assms(2) [unfolded IStopLoop Cons]] IStopLoop Cons
        by (intro exI conjI) (assumption, rule move, simp, simp)
    qed
  next
    case (IStopCount r ks n)
    with ok have "unat n + 1 \<le> unat r" by simp
    then have "add_assign dbg n 1 = Some (n + 1)"
      using unat_usize_less [of r] by (intro add_assign_fits) simp
    from istop_count [OF assms(2) [unfolded IStopCount] this] show ?thesis
      using IStopCount by (intro exI conjI) (assumption, rule move, simp, simp)
  next
    case (ICloseCapacity rep)
    show ?thesis using iclose_capacity [OF assms(2) [unfolded ICloseCapacity]] ICloseCapacity
      by (intro exI conjI) (assumption, rule move, simp, simp)
  next
    case (ICloseNotify rep)
    show ?thesis using iclose_notify [OF assms(2) [unfolded ICloseNotify]] ICloseNotify
      by (intro exI conjI) (assumption, rule move, simp, simp)
  qed (use assms(3) in simp_all)
qed

text \<open>The holder of the submission lock, after its store of the lifecycle.\<close>

fun closing_rank :: "iholder_pc \<Rightarrow> nat" where
  "closing_rank IStopGet = 1"
| "closing_rank h = 0"

lemma closing_keeps:
  assumes "istep dbg ac s s'" and "iclosing (iholder s)" and "iinv_lock s"
  shows "iholder s' = iholder s \<or> iclosing (iholder s') \<and> closing_rank (iholder s') < closing_rank (iholder s) \<or>
    some_thread before_close_notify s'"
  using assms(1)
proof (cases rule: istep.cases)
  case iby_holder
  then show ?thesis
    by (cases rule: iholder_step.cases)
      (use assms(2,3) in \<open>auto simp: iinv_lock_def io_lock_submission_def some_thread_def split: if_splits\<close>)
qed (simp_all add: istep_frames)

lemma closing_moves:
  assumes "ilive ac s" and "iclosing (iholder s)"
  shows "\<exists>s'. iact dbg ac HolderAgent s s' \<and> iholder s' \<noteq> iholder s"
proof -
  have "finite (dom (ithreads s))" using assms(1) by (simp add: ilive_def)
  then obtain i where i: "ithreads s i = None"
    using ex_new_if_finite [OF infinite_UNIV_nat] by blast
  show ?thesis
  proof (cases "iholder s")
    case IShutdownUnlock
    from ishutdown_unlock [OF this i] show ?thesis using IShutdownUnlock
      by (intro exI [of _ "iput_thread i (ICloseCapacity None)
        (s\<lparr>isvc := io_unlock_submission (isvc s), iholder := IUnlocked\<rparr>)"]) simp
  next
    case IStopGet
    from istop_get [OF this] show ?thesis using IStopGet
      by (intro exI [of _ "s\<lparr>iholder := IStopUnlock (ac_get ac (active_tasks (isvc s)))\<rparr>"]) simp
  next
    case (IStopUnlock r)
    from istop_unlock [OF this i] show ?thesis using IStopUnlock
      by (intro exI [of _ "iput_thread i (IStopTake r)
        (s\<lparr>isvc := io_unlock_submission (isvc s), iholder := IUnlocked\<rparr>)"]) simp
  qed (use assms(2) in simp_all)
qed

section \<open>A parked waiter is woken\<close>

abbreviation io_fair_execution :: "bool \<Rightarrow> 'n atomic_count \<Rightarrow> (nat \<Rightarrow> 'n isys) \<Rightarrow> bool" where
  "io_fair_execution dbg ac \<equiv> fair_execution (istep dbg ac) (iact dbg ac)"

lemma guard_wakes:
  assumes fair: "io_fair_execution dbg ac \<sigma>" and live: "ilive ac (\<sigma> n)" and parked: "iparked i (\<sigma> n)"
    and guard: "itasks (\<sigma> n) k = Some t" "before_guard_notify (i_future t)"
  shows "\<exists>m\<ge>n. iwoken i (\<sigma> m)"
proof (rule io_fair.leads_to_by [OF fair live, where a = "GuardAgent k"
    and P = "\<lambda>s. iparked i s \<and> (\<exists>t. itasks s k = Some t \<and> before_guard_notify (i_future t))"
    and rank = "\<lambda>s. of_bool (\<exists>t. itasks s k = Some t \<and> i_future t = GuardCapacity) :: nat"])
  fix s s' :: "'a isys"
  assume live: "ilive ac s"
    and P: "iparked i s \<and> (\<exists>t. itasks s k = Some t \<and> before_guard_notify (i_future t))"
  then obtain t where t: "itasks s k = Some t" "before_guard_notify (i_future t)" and i: "iparked i s" by blast
  have tasks: "iinv_tasks s" by (rule iliveD(4) [OF live])
  have move: "iwoken i s' \<or> (\<exists>u. itasks s' k = Some u \<and> i_future u = GuardNotify) \<and> i_future t = GuardCapacity"
    if "future_step ac k s s'" using guard_moves [OF that t] i by blast
  show "iwoken i s' \<or>
      (iparked i s' \<and> (\<exists>t. itasks s' k = Some t \<and> before_guard_notify (i_future t))) \<and>
      of_bool (\<exists>t. itasks s' k = Some t \<and> i_future t = GuardCapacity)
        \<le> (of_bool (\<exists>t. itasks s k = Some t \<and> i_future t = GuardCapacity) :: nat)"
    if step: "istep dbg ac s s'"
    using guard_keeps [OF step tasks t] iparked_step [OF step i] move t
    by (auto simp: before_guard_notify_def)
  show "iwoken i s' \<or> of_bool (\<exists>t. itasks s' k = Some t \<and> i_future t = GuardCapacity)
        < (of_bool (\<exists>t. itasks s k = Some t \<and> i_future t = GuardCapacity) :: nat)"
    if "iact dbg ac (GuardAgent k) s s'"
    using that move t(1) by auto
  show "\<exists>s'. iact dbg ac (GuardAgent k) s s'"
    using t guard_capacity [OF t(1)] guard_notify [OF t(1)]
    by (auto simp: before_guard_notify_def dropping_def)
qed (use parked guard in blast)

lemma closer_wakes:
  assumes fair: "io_fair_execution dbg ac \<sigma>" and live: "ilive ac (\<sigma> n)" and parked: "iparked i (\<sigma> n)"
    and closer: "ithreads (\<sigma> n) j = Some pc" "before_close_notify pc"
  shows "\<exists>m\<ge>n. iwoken i (\<sigma> m)"
proof (rule io_fair.leads_to_by [OF fair live, where a = "ThreadAgent j"
    and P = "\<lambda>s. iparked i s \<and> (\<exists>pc. ithreads s j = Some pc \<and> before_close_notify pc)"
    and rank = "\<lambda>s. close_rank (the (ithreads s j))"])
  fix s s' :: "'a isys"
  assume live: "ilive ac s" and P: "iparked i s \<and> (\<exists>pc. ithreads s j = Some pc \<and> before_close_notify pc)"
  then obtain pc where pc: "ithreads s j = Some pc" "before_close_notify pc" and i: "iparked i s" by blast
  show "iwoken i s' \<or> (iparked i s' \<and> (\<exists>pc. ithreads s' j = Some pc \<and> before_close_notify pc)) \<and>
      close_rank (the (ithreads s' j)) \<le> close_rank (the (ithreads s j))" if step: "istep dbg ac s s'"
    using close_keeps [OF step pc] iparked_step [OF step i] i pc by auto
  show "iwoken i s' \<or> close_rank (the (ithreads s' j)) < close_rank (the (ithreads s j))"
    if act: "iact dbg ac (ThreadAgent j) s s'"
    using close_keeps [OF io_fair.act_step [OF act] pc] act pc i by (auto simp: imoves_def)
  show "\<exists>s'. iact dbg ac (ThreadAgent j) s s'"
    using close_moves [OF live pc] by auto
qed (use parked closer in blast)

lemma closing_hands_over:
  assumes fair: "io_fair_execution dbg ac \<sigma>" and live: "ilive ac (\<sigma> n)" and parked: "iparked i (\<sigma> n)"
    and closing: "iclosing (iholder (\<sigma> n))"
  shows "\<exists>m\<ge>n. iwoken i (\<sigma> m) \<or> iparked i (\<sigma> m) \<and> some_thread before_close_notify (\<sigma> m)"
proof (rule io_fair.leads_to_by [OF fair live, where a = "HolderAgent"
    and P = "\<lambda>s. iparked i s \<and> iclosing (iholder s)" and rank = "\<lambda>s. closing_rank (iholder s)"])
  fix s s' :: "'a isys"
  assume live: "ilive ac s" and P: "iparked i s \<and> iclosing (iholder s)"
  have lock: "iinv_lock s" by (rule iliveD(3) [OF live])
  show "(iwoken i s' \<or> iparked i s' \<and> some_thread before_close_notify s') \<or>
      (iparked i s' \<and> iclosing (iholder s')) \<and> closing_rank (iholder s') \<le> closing_rank (iholder s)"
    if step: "istep dbg ac s s'"
    using closing_keeps [OF step _ lock] iparked_step [OF step] P by auto
  show "(iwoken i s' \<or> iparked i s' \<and> some_thread before_close_notify s') \<or>
      closing_rank (iholder s') < closing_rank (iholder s)" if act: "iact dbg ac HolderAgent s s'"
  proof -
    have "iholder s' \<noteq> iholder s" using act P by (auto elim!: iholder_stepE)
    then show ?thesis
      using closing_keeps [OF io_fair.act_step [OF act] _ lock] iparked_step [OF io_fair.act_step [OF act]] P
      by auto
  qed
  show "\<exists>s'. iact dbg ac HolderAgent s s'" using closing_moves [OF live] P by blast
qed (use parked closing in blast)

lemma parked_woken:
  assumes fair: "io_fair_execution dbg ac \<sigma>" and live: "ilive ac (\<sigma> n)" and "iended (\<sigma> n)"
    and parked: "iparked i (\<sigma> n)"
  shows "\<exists>m\<ge>n. iwoken i (\<sigma> m)"
proof -
  have by_thread: "\<exists>m\<ge>n. iwoken i (\<sigma> m)"
    if some: "some_thread before_close_notify (\<sigma> n)" and live: "ilive ac (\<sigma> n)" "iparked i (\<sigma> n)" for n
    using some closer_wakes [OF fair live] unfolding some_thread_def by blast
  have "pend_notify (\<sigma> n)"
    using iinv_waitD [OF iliveD(6) [OF live], of i "IAwaitParked False"] assms(3) parked
    by (simp add: iended_def iparked_def)
  then consider "some_future before_guard_notify (\<sigma> n)" | "some_thread before_close_notify (\<sigma> n)"
    | "iclosing (iholder (\<sigma> n))" unfolding pend_notify_def by blast
  then show ?thesis
  proof cases
    case 1
    then show ?thesis using guard_wakes [OF fair live parked] unfolding some_future_def by blast
  next
    case 2
    then show ?thesis by (rule by_thread [OF _ live parked])
  next
    case 3
    from closing_hands_over [OF fair live parked this] obtain m where m: "n \<le> m"
      "iwoken i (\<sigma> m) \<or> iparked i (\<sigma> m) \<and> some_thread before_close_notify (\<sigma> m)" by blast
    then show ?thesis
      using by_thread [OF _ io_fair.ok_execution [OF fair live m(1)]] order_trans [OF m(1)] by blast
  qed
qed

section \<open>A waiter that is not parked\<close>

text \<open>
  A waiter whose next look at the lifecycle will see the termination, with the number of its
  steps before that look ends.
\<close>

fun settled :: "ithread_pc \<Rightarrow> bool" where
  "settled (IAwaitParked n) = n"
| "settled (IAwaitEnable n) = True"
| "settled (IAwaitLoad n) = True"
| "settled (IAwaitZero n l) = (l \<noteq> Running)"
| "settled pc = False"

fun await_rank :: "ithread_pc \<Rightarrow> nat" where
  "await_rank (IAwaitParked n) = 3"
| "await_rank (IAwaitEnable n) = 2"
| "await_rank (IAwaitLoad n) = 1"
| "await_rank pc = 0"

lemma settled_wake [simp]:
  "settled pc \<Longrightarrow> settled (iwake_notified pc)" "settled pc \<Longrightarrow> settled (iwake_producer pc)"
  "await_rank (iwake_notified pc) = await_rank pc" "await_rank (iwake_producer pc) = await_rank pc"
  by (cases pc; simp)+

lemma settled_keeps:
  assumes "istep dbg ac s s'" and "ilive ac s" and "iended s"
    and "ithreads s i = Some pc" and "settled pc"
  shows "ithreads s' i = Some IAwaitReturned \<or>
    (\<exists>pc'. ithreads s' i = Some pc' \<and> settled pc' \<and>
       (await_rank pc' < await_rank pc \<or> pc' \<in> {pc, iwake_notified pc, iwake_producer pc}))"
proof -
  have zero: "ac_is_zero ac (active_tasks (isvc s))" and closed: "iclosed s"
    using assms(3) izero_iff [OF iliveD(2,5) [OF assms(2)]] by (simp_all add: iended_def)
  show ?thesis
    using assms(1,4,5) zero closed
    by (elim istep_elims) (auto simp: iterminated_view_def isignal_notify_def isignal_capacity_def
        iwake_all_def simp del: load_Running_iff split: if_splits)
qed

lemma settled_moves:
  assumes "ilive ac s" and "iended s" and "ithreads s i = Some pc" and "settled pc"
  shows "\<exists>s'. iwaiter_step ac s s' \<and> imoves i s s'"
proof -
  have zero: "ac_is_zero ac (active_tasks (isvc s))"
    using assms(2) izero_iff [OF iliveD(2,5) [OF assms(1)]] by (simp add: iended_def)
  show ?thesis
  proof (cases pc)
    case (IAwaitParked n)
    with assms(4) have "ithreads s i = Some (IAwaitParked True)" using assms(3) by simp
    from iawait_wake [OF this] show ?thesis using assms(3) IAwaitParked
      by (intro exI conjI) (assumption, simp add: imoves_def)
  next
    case (IAwaitEnable n)
    from iawait_enable [OF assms(3) [unfolded IAwaitEnable]] show ?thesis using assms(3) IAwaitEnable
      by (intro exI conjI) (assumption, simp add: imoves_def)
  next
    case (IAwaitLoad n)
    from iawait_load [OF assms(3) [unfolded IAwaitLoad]] show ?thesis using assms(3) IAwaitLoad
      by (intro exI conjI) (assumption, simp add: imoves_def)
  next
    case (IAwaitZero n l)
    have "iterminated_view ac l (isvc s) = Terminated"
      using zero assms(4) IAwaitZero by (simp add: iterminated_view_def)
    from iawait_ready [OF assms(3) [unfolded IAwaitZero] this] show ?thesis using assms(3) IAwaitZero
      by (intro exI conjI) (assumption, simp add: imoves_def)
  qed (use assms(4) in simp_all)
qed

lemma settled_returns:
  assumes fair: "io_fair_execution dbg ac \<sigma>" and live: "ilive ac (\<sigma> n)" and ended: "iended (\<sigma> n)"
    and pc: "ithreads (\<sigma> n) i = Some pc" "settled pc"
  shows "\<exists>m\<ge>n. ithreads (\<sigma> m) i = Some IAwaitReturned"
proof (rule io_fair.leads_to_by [OF fair live, where a = "ThreadAgent i"
    and P = "\<lambda>s. iended s \<and> (\<exists>pc. ithreads s i = Some pc \<and> settled pc)"
    and rank = "\<lambda>s. await_rank (the (ithreads s i))"])
  fix s s' :: "'a isys"
  assume live: "ilive ac s" and P: "iended s \<and> (\<exists>pc. ithreads s i = Some pc \<and> settled pc)"
  then obtain pc where pc: "ithreads s i = Some pc" "settled pc" and ended: "iended s" by blast
  show "ithreads s' i = Some IAwaitReturned \<or> (iended s' \<and> (\<exists>pc. ithreads s' i = Some pc \<and> settled pc)) \<and>
      await_rank (the (ithreads s' i)) \<le> await_rank (the (ithreads s i))" if step: "istep dbg ac s s'"
    using settled_keeps [OF step live ended pc] iended_step [OF step live ended] pc by auto
  show "ithreads s' i = Some IAwaitReturned \<or> await_rank (the (ithreads s' i)) < await_rank (the (ithreads s i))"
    if act: "iact dbg ac (ThreadAgent i) s s'"
    using settled_keeps [OF io_fair.act_step [OF act] live ended pc] act pc by (auto simp: imoves_def)
  show "\<exists>s'. iact dbg ac (ThreadAgent i) s s'" using settled_moves [OF live ended pc] by auto
qed (use ended pc in blast)

text \<open>A waiter that loaded the lifecycle before the close parks, woken or not.\<close>

lemma stale_look_parks:
  assumes fair: "io_fair_execution dbg ac \<sigma>" and live: "ilive ac (\<sigma> n)"
    and pc: "ithreads (\<sigma> n) i = Some (IAwaitZero b Running)"
  shows "\<exists>m\<ge>n. iparked i (\<sigma> m) \<or> iwoken i (\<sigma> m)"
proof (rule io_fair.leads_to_by [OF fair live, where a = "ThreadAgent i" and rank = "\<lambda>s. 0 :: nat"
    and P = "\<lambda>s. \<exists>b. ithreads s i = Some (IAwaitZero b Running)"])
  fix s s' :: "'a isys"
  assume "ilive ac s" and "\<exists>b. ithreads s i = Some (IAwaitZero b Running)"
  then obtain b where b: "ithreads s i = Some (IAwaitZero b Running)" by blast
  have keeps: "iparked i s' \<or> iwoken i s' \<or> ithreads s' i \<in> {ithreads s i, Some (IAwaitZero True Running)}"
    if "istep dbg ac s s'"
    using that b unfolding iparked_def iwoken_def
    by (elim istep_elims) (auto simp: iterminated_view_def isignal_notify_def isignal_capacity_def
        iwake_all_def split: if_splits)
  show "(iparked i s' \<or> iwoken i s') \<or> (\<exists>b. ithreads s' i = Some (IAwaitZero b Running)) \<and> (0 :: nat) \<le> 0"
    if "istep dbg ac s s'" using keeps [OF that] b by auto
  show "(iparked i s' \<or> iwoken i s') \<or> (0 :: nat) < 0" if act: "iact dbg ac (ThreadAgent i) s s'"
    using keeps [OF io_fair.act_step [OF act]] act b by (auto simp: imoves_def)
  have "iterminated_view ac Running (isvc s) \<noteq> Terminated" by (simp add: iterminated_view_def)
  from iawait_park [OF b this] show "\<exists>s'. iact dbg ac (ThreadAgent i) s s'"
    using b by (intro exI [of _ "iput_thread i (IAwaitParked b) s"]) (simp add: imoves_def)
qed (use pc in blast)

section \<open>The property\<close>

text \<open>A thread inside \<^verbatim>\<open>await_termination\<close>.\<close>

fun awaiting :: "ithread_pc \<Rightarrow> bool" where
  "awaiting (IAwaitEnable n) = True"
| "awaiting (IAwaitLoad n) = True"
| "awaiting (IAwaitZero n l) = True"
| "awaiting (IAwaitParked n) = True"
| "awaiting pc = False"

lemma iended_execution:
  assumes "io_fair_execution dbg ac \<sigma>" and "ilive ac (\<sigma> n)" and "iended (\<sigma> n)" and "n \<le> m"
  shows "iended (\<sigma> m)"
  using assms(4)
proof (induction m rule: dec_induct)
  case (step m)
  then show ?case
    using fair_executionD(1) [OF assms(1), of m] io_fair.ok_execution [OF assms(1,2) step(1)] iended_step
    by metis
qed (rule assms(3))

lemma parked_returns:
  assumes "io_fair_execution dbg ac \<sigma>" and "ilive ac (\<sigma> n)" and "iended (\<sigma> n)"
    and "iparked i (\<sigma> n) \<or> iwoken i (\<sigma> n)"
  shows "\<exists>m\<ge>n. ithreads (\<sigma> m) i = Some IAwaitReturned"
proof -
  obtain m where m: "n \<le> m" "ithreads (\<sigma> m) i = Some (IAwaitParked True)"
    using assms(4) parked_woken [OF assms(1-3)] unfolding iwoken_def by blast
  from settled_returns [OF assms(1) io_fair.ok_execution [OF assms(1,2) m(1)]
      iended_execution [OF assms(1-3) m(1)] m(2)] m(1) order_trans show ?thesis by fastforce
qed

text \<open>An execution for the witness: a woken waiter of a terminated service takes its four steps.\<close>

fun demo_waiter :: "nat \<Rightarrow> ithread_pc" where
  "demo_waiter n = (if n = 0 then IAwaitParked True else if n = 1 then IAwaitEnable False
     else if n = 2 then IAwaitLoad False else if n = 3 then IAwaitZero False ShuttingDown else IAwaitReturned)"

definition demo_execution :: "usize isys \<Rightarrow> nat \<Rightarrow> usize isys" where
  "demo_execution s n = iput_thread 2 (demo_waiter n) s"

lemma demo_execution_fair:
  assumes "iholder s = IUnlocked" and "\<forall>t\<in>ran (itasks s). i_future t = GuardDone"
    and "ithreads s = [1 \<mapsto> IClosed None, 2 \<mapsto> IAwaitParked True]"
    and "load (io_lifecycle_byte (isvc s)) = ShuttingDown" and "active_tasks (isvc s) = 0"
  shows "io_fair_execution dbg word_count (demo_execution s)"
proof -
  have step: "demo_execution s (Suc n) = demo_execution s n \<or>
      istep dbg word_count (demo_execution s n) (demo_execution s (Suc n))" for n
  proof -
    have "demo_execution s (Suc n) = demo_execution s n \<or>
        iwaiter_step word_count (demo_execution s n) (demo_execution s (Suc n))"
      using iawait_wake [of "demo_execution s n" 2 word_count]
        iawait_enable [of "demo_execution s n" 2 False word_count]
        iawait_load [of "demo_execution s n" 2 False word_count]
        iawait_ready [of "demo_execution s n" 2 False ShuttingDown word_count] assms(4,5)
      by (auto simp: demo_execution_def iterminated_view_def word_count_simps split: if_splits)
    then show ?thesis using iby_waiter by blast
  qed
  have quiet: "\<not> iact dbg word_count a (demo_execution s (n + 4)) s'" for a n s'
    using assms(1-3) by (cases a)
      (auto simp: ran_def demo_execution_def dropping_def imoves_def elim!: icloser_stepE iwaiter_stepE split: if_splits)
  show ?thesis unfolding fair_execution_def
  proof (intro conjI allI impI step)
    fix a n assume "\<forall>m\<ge>n. \<exists>s'. iact dbg word_count a (demo_execution s m) s'"
    then have "\<exists>s'. iact dbg word_count a (demo_execution s (n + 4)) s'" by simp
    with quiet show "\<exists>m\<ge>n. iact dbg word_count a (demo_execution s m) (demo_execution s (Suc m))" by blast
  qed
qed

lemmas io_run_notified =
  io_by_C [OF iu2 iclose_notify [where i = 1], simplified io_run_simps, simplified, OF refl, simplified]

text \<open>
  C39: Whoever awaits a terminated service returns. In every fair execution of the IO
  service, a thread that is inside \<^verbatim>\<open>await_termination\<close> when the service has terminated, at
  whatever point of it, parked or not, has returned at some later point.
\<close>
theorem io_await_eventually_returns:
  assumes "ireach dbg ac capacity (\<sigma> 0)" and "counts_atomically ac"
    and "fair_execution (istep dbg ac) (iact dbg ac) \<sigma>"
    and "io_state_lifecycle ac (isvc (\<sigma> n)) = Terminated"
    and "ithreads (\<sigma> n) i = Some pc" and "awaiting pc"
  shows "\<exists>m\<ge>n. ithreads (\<sigma> m) i = Some IAwaitReturned"
proof -
  have live: "ilive ac (\<sigma> n)"
    by (rule io_fair.ok_execution [OF assms(3) ireach_ilive [OF assms(1,2)]]) simp
  have ended: "iended (\<sigma> n)"
    using assms(4) io_terminated_iff [OF iliveD(1) [OF live]] by (simp add: iended_def)
  note parked = parked_returns [OF assms(3) live ended]
  consider "settled pc" | "iparked i (\<sigma> n)" | b where "pc = IAwaitZero b Running"
    using assms(5,6) by (cases pc) (auto simp: iparked_def)
  then show ?thesis
  proof cases
    case 1
    from settled_returns [OF assms(3) live ended assms(5) this] show ?thesis .
  next
    case 2
    with parked show ?thesis by blast
  next
    case 3
    from stale_look_parks [OF assms(3) live] assms(5) 3 obtain m
      where m: "n \<le> m" "iparked i (\<sigma> m) \<or> iwoken i (\<sigma> m)" by blast
    from parked_returns [OF assms(3) io_fair.ok_execution [OF assms(3) live m(1)]
        iended_execution [OF assms(3) live ended m(1)] m(2)] m(1) order_trans show ?thesis by fastforce
  qed
qed

theorem io_await_eventually_returns_witness:
  "\<exists>(\<sigma> :: nat \<Rightarrow> usize isys) m. ireach True word_count 1 (\<sigma> 0) \<and> io_state_lifecycle word_count (isvc (\<sigma> 0)) = Terminated \<and>
     ithreads (\<sigma> 0) 2 = Some (IAwaitParked True) \<and> ithreads (\<sigma> m) 2 = Some IAwaitReturned"
proof -
  obtain s where s: "ireach True word_count 1 s" "iholder s = IUnlocked"
    "\<forall>t\<in>ran (itasks s). i_future t = GuardDone"
    "ithreads s = [1 \<mapsto> IClosed None, 2 \<mapsto> IAwaitParked True]"
    "load (io_lifecycle_byte (isvc s)) = ShuttingDown" "active_tasks (isvc s) = 0"
    by (rule that [OF io_run_notified]) (simp_all add: load_def fun_eq_iff)
  have s0: "demo_execution s 0 = s" using s(4) by (simp add: demo_execution_def)
  have r: "ireach True word_count 1 (demo_execution s 0)" using s(1) s0 by simp
  have l: "io_state_lifecycle word_count (isvc (demo_execution s 0)) = Terminated"
    using s(5,6) s0 by (simp add: io_state_lifecycle_def word_count_simps)
  have w: "ithreads (demo_execution s 0) 2 = Some (IAwaitParked True)" using s(4) s0 by simp
  obtain m where m: "ithreads (demo_execution s m) 2 = Some IAwaitReturned"
    using io_await_eventually_returns [OF r word_count_ok demo_execution_fair [OF s(2-6)] l w] by auto
  show ?thesis
    by (rule exI [of _ "demo_execution s"], rule exI [of _ m], intro conjI r l w m)
qed

end
