(* ===== verification/Io_Call_Runs.thy ===== *)
theory Io_Call_Runs
  imports Io_Claims Io_Calls
begin

text \<open>
  The two models of the IO service agree: every call of \<open>Io_Service\<close>, run without interference,
  is a run of the threads of \<open>Io_Interleaving\<close>. What the interleaved model leaves out (the
  Tokio handles and the world outside) is erased, and a world matches a system in which
  nobody is inside a call.
\<close>

section \<open>Matching states\<close>

definition io_erase :: "('n, 'r) TokioIoExecutorServiceState \<Rightarrow> 'n isvc" where
  "io_erase s = \<lparr>io_lifecycle_byte = io_lifecycle_byte s, active_tasks = active_tasks s,
     io_task_capacity = io_task_capacity s, io_submission_lock = io_submission_lock s,
     io_abort_handles = (\<lambda>k. map_option (\<lambda>a. \<lparr>io_tracked_marker = io_tracked_marker a, io_handle = ()\<rparr>)
       (io_abort_handles s k)),
     termination_notify = termination_notify s, io_capacity_tx = io_capacity_tx s\<rparr>"

abbreviation iat :: "'n isvc \<Rightarrow> (usize \<rightharpoonup> itask) \<Rightarrow> iholder_pc \<Rightarrow> (nat \<rightharpoonup> ithread_pc) \<Rightarrow> 'n isys" where
  "iat v T h M \<equiv> \<lparr>isvc = v, itasks = T, iholder = h, ithreads = M\<rparr>"

text \<open>
  A registration that is not finished belongs to a future that was sent to its task, and a
  finished one to a guard that is done.
\<close>

definition io_tasks_match :: "(usize \<rightharpoonup> TokioTaskRegistration) \<Rightarrow> (usize \<rightharpoonup> itask) \<Rightarrow> bool" where
  "io_tasks_match regs T \<longleftrightarrow> (\<forall>k. regs k = map_option i_registration (T k)) \<and>
     (\<forall>k t. T k = Some t \<longrightarrow>
        i_future t \<in> (if is_finished (i_registration t) then {GuardDone} else {FutureSent, FuturePolled}))"

definition io_matches :: "('n, 'r, 'x) io_world \<Rightarrow> 'n isys \<Rightarrow> bool" where
  "io_matches w s \<longleftrightarrow> (\<exists>T. s = iat (io_erase (io_state w)) T IUnlocked Map.empty \<and>
     io_tasks_match (io_registrations w) T)"

lemma io_erase_sel [simp]:
  "io_lifecycle_byte (io_erase s) = io_lifecycle_byte s" "active_tasks (io_erase s) = active_tasks s"
  "io_task_capacity (io_erase s) = io_task_capacity s" "io_submission_lock (io_erase s) = io_submission_lock s"
  "io_abort_handles (io_erase s) k = map_option (\<lambda>a. \<lparr>io_tracked_marker = io_tracked_marker a, io_handle = ()\<rparr>)
     (io_abort_handles s k)"
  "termination_notify (io_erase s) = termination_notify s" "io_capacity_tx (io_erase s) = io_capacity_tx s"
  by (simp_all add: io_erase_def)

lemma io_erase_update [simp]:
  "io_erase (s\<lparr>io_lifecycle_byte := b\<rparr>) = (io_erase s)\<lparr>io_lifecycle_byte := b\<rparr>"
  "io_erase (s\<lparr>active_tasks := n\<rparr>) = (io_erase s)\<lparr>active_tasks := n\<rparr>"
  "io_erase (s\<lparr>io_submission_lock := l\<rparr>) = (io_erase s)\<lparr>io_submission_lock := l\<rparr>"
  "io_erase (s\<lparr>termination_notify := m\<rparr>) = (io_erase s)\<lparr>termination_notify := m\<rparr>"
  "io_erase (s\<lparr>io_capacity_tx := c\<rparr>) = (io_erase s)\<lparr>io_capacity_tx := c\<rparr>"
  "io_erase (s\<lparr>io_abort_handles := Map.empty\<rparr>) = (io_erase s)\<lparr>io_abort_handles := Map.empty\<rparr>"
  "io_erase (s\<lparr>io_abort_handles := hs(k := None)\<rparr>) =
     (io_erase (s\<lparr>io_abort_handles := hs\<rparr>))\<lparr>io_abort_handles := (io_abort_handles (io_erase (s\<lparr>io_abort_handles := hs\<rparr>)))(k := None)\<rparr>"
  "io_erase (s\<lparr>io_abort_handles := hs(k \<mapsto> a)\<rparr>) =
     (io_erase (s\<lparr>io_abort_handles := hs\<rparr>))\<lparr>io_abort_handles := (io_abort_handles (io_erase (s\<lparr>io_abort_handles := hs\<rparr>)))
       (k \<mapsto> \<lparr>io_tracked_marker = io_tracked_marker a, io_handle = ()\<rparr>)\<rparr>"
  by (simp_all add: io_erase_def fun_eq_iff)

lemma io_erase_operations [simp]:
  "io_erase (io_unlock_submission s) = io_unlock_submission (io_erase s)"
  "io_erase (io_notify_capacity_changed s) = io_notify_capacity_changed (io_erase s)"
  "io_erase (io_notify_termination_waiters s) = io_notify_termination_waiters (io_erase s)"
  "io_erase (io_state_shutdown s) = io_state_shutdown (io_erase s)"
  "io_erase (io_state_stop s) = io_state_stop (io_erase s)"
  "io_is_not_running (io_erase s) = io_is_not_running s"
  by (simp_all add: io_unlock_submission_def io_notify_capacity_changed_def io_notify_termination_waiters_def
      io_state_shutdown_def io_state_stop_def io_is_not_running_def)

lemma signals_without_threads [simp]:
  "isignal_capacity (iat v T h Map.empty) = iat (io_notify_capacity_changed v) T h Map.empty"
  "isignal_notify (iat v T h Map.empty) = iat (io_notify_termination_waiters v) T h Map.empty"
  by (simp_all add: isignal_capacity_def isignal_notify_def iwake_all_def)

lemmas then_istep = converse_rtranclp_into_rtranclp [where r = "istep dbg ac" for dbg ac]

section \<open>The drop of a guard\<close>

lemma guard_drop_runs:
  assumes drop: "io_guard_drop ac k w = Some w'" and reg: "io_registrations w k = Some reg"
    and T: "T k = Some \<lparr>i_registration = reg, i_future = FutureDrop\<rparr>"
  shows "(istep dbg ac)\<^sup>*\<^sup>* (iat (io_erase (io_state w)) T h Map.empty)
      (iat (io_erase (io_state w')) (T(k \<mapsto> \<lparr>i_registration = finish reg, i_future = GuardDone\<rparr>)) h Map.empty)"
    "io_registrations w' = (io_registrations w)(k \<mapsto> finish reg)"
proof -
  let ?v = "io_erase (io_state w)" and ?t = "\<lambda>r p. \<lparr>i_registration = r, i_future = p\<rparr>"
  obtain n where n: "ac_dec ac (active_tasks (io_state w)) = Some n"
    and w': "w' = w\<lparr>io_registrations := (io_registrations w)(k \<mapsto> finish reg),
      io_state := io_notify_termination_waiters (io_notify_capacity_changed ((io_state w)
        \<lparr>io_abort_handles := (io_abort_handles (io_state w))(key k := None), active_tasks := n\<rparr>))\<rparr>"
    using drop reg by (auto simp: io_guard_drop_def io_remove_abort_handle_def io_map_state_def
        split: bind_splits)
  let ?r = "?v\<lparr>io_abort_handles := (io_abort_handles ?v)(key k := None)\<rparr>"
  let ?c = "?r\<lparr>active_tasks := n\<rparr>"
  have e: "io_erase (io_state w') = io_notify_termination_waiters (io_notify_capacity_changed ?c)"
    by (simp add: w')
  have s1: "istep dbg ac (iat ?v T h Map.empty) (iat ?v (T(k \<mapsto> ?t reg GuardMark)) h Map.empty)"
    using iby_future [OF future_dropped [of "iat ?v T h Map.empty" k "?t reg FutureDrop"]] T by simp
  have s2: "istep dbg ac (iat ?v (T(k \<mapsto> ?t reg GuardMark)) h Map.empty)
      (iat ?v (T(k \<mapsto> ?t (finish reg) GuardRemove)) h Map.empty)"
    using iby_future [OF guard_mark [of "iat ?v (T(k \<mapsto> ?t reg GuardMark)) h Map.empty" k "?t reg GuardMark"]] by simp
  have s3: "istep dbg ac (iat ?v (T(k \<mapsto> ?t (finish reg) GuardRemove)) h Map.empty)
      (iat ?r (T(k \<mapsto> ?t (finish reg) GuardCount)) h Map.empty)"
    using iby_future [OF guard_remove [of "iat ?v (T(k \<mapsto> ?t (finish reg) GuardRemove)) h Map.empty" k "?t (finish reg) GuardRemove"]] by simp
  have s4: "istep dbg ac (iat ?r (T(k \<mapsto> ?t (finish reg) GuardCount)) h Map.empty)
      (iat ?c (T(k \<mapsto> ?t (finish reg) GuardCapacity)) h Map.empty)"
    using iby_future [OF guard_count [of "iat ?r (T(k \<mapsto> ?t (finish reg) GuardCount)) h Map.empty" k "?t (finish reg) GuardCount"]] n by simp
  have s5: "istep dbg ac (iat ?c (T(k \<mapsto> ?t (finish reg) GuardCapacity)) h Map.empty)
      (iat (io_notify_capacity_changed ?c) (T(k \<mapsto> ?t (finish reg) GuardNotify)) h Map.empty)"
    using iby_future [OF guard_capacity [of "iat ?c (T(k \<mapsto> ?t (finish reg) GuardCapacity)) h Map.empty" k "?t (finish reg) GuardCapacity"]] by simp
  have s6: "istep dbg ac (iat (io_notify_capacity_changed ?c) (T(k \<mapsto> ?t (finish reg) GuardNotify)) h Map.empty)
      (iat (io_erase (io_state w')) (T(k \<mapsto> ?t (finish reg) GuardDone)) h Map.empty)"
    using iby_future [OF guard_notify [of "iat (io_notify_capacity_changed ?c)
        (T(k \<mapsto> ?t (finish reg) GuardNotify)) h Map.empty" k "?t (finish reg) GuardNotify"]] by (simp add: e)
  show "(istep dbg ac)\<^sup>*\<^sup>* (iat ?v T h Map.empty)
      (iat (io_erase (io_state w')) (T(k \<mapsto> ?t (finish reg) GuardDone)) h Map.empty)"
    by (rule then_istep [OF s1 then_istep [OF s2 then_istep [OF s3 then_istep [OF s4 then_istep [OF s5
          r_into_rtranclp [where r = "istep dbg ac", OF s6]]]]]])
  show "io_registrations w' = (io_registrations w)(k \<mapsto> finish reg)" by (simp add: w')
qed

section \<open>Submission\<close>

lemma io_register_cases:
  assumes "io_register_abort_handle dbg fin mk h b = Some c"
  shows "io_registrations c = io_registrations b"
    "io_state c = io_state b \<or> debug_assert dbg (io_abort_handles (io_state b) (key mk) = None) = Some () \<and>
       io_state c = (io_state b)\<lparr>io_abort_handles := (io_abort_handles (io_state b))
         (key mk \<mapsto> \<lparr>io_tracked_marker = mk, io_handle = h\<rparr>)\<rparr>"
  using assms by (auto simp: io_register_abort_handle_def debug_assert_def Let_def split: if_splits bind_splits)

lemma prepare_spawn_runs:
  assumes prep: "prepare_spawn dbg ac tk addr future w = Some (Inr handoff, w')"
    and T: "T addr = None"
  shows "(istep dbg ac)\<^sup>*\<^sup>* (iat (io_erase (io_state w)) T IUnlocked Map.empty)
      (iat (io_erase (io_state w')) (T(addr \<mapsto> \<lparr>i_registration = registration_new, i_future = FutureHeld\<rparr>))
        IUnlocked Map.empty)"
    "io_registrations w' = (io_registrations w)(addr \<mapsto> registration_new)"
    "handoff_guard handoff = addr" "handoff_future handoff = future"
proof -
  let ?v = "io_erase (io_state w)" and ?t = "\<lambda>p. \<lparr>i_registration = registration_new, i_future = p\<rparr>"
  let ?l = "?v\<lparr>io_submission_lock := True\<rparr>"
  have free: "\<not> io_submission_lock (io_state w)" and open_w: "\<not> io_is_not_running (io_state w)"
    and room: "\<not> ac_get ac (active_tasks (io_state w)) \<ge> io_task_capacity (io_state w)"
    using prep by (auto simp: prepare_spawn_def io_lock_submission_def io_try_accept_task_def
        split: if_splits bind_splits)
  then obtain n where n: "ac_inc ac (active_tasks (io_state w)) = Some n"
    using prep by (auto simp: prepare_spawn_def io_lock_submission_def io_try_accept_task_def
        split: if_splits bind_splits)
  obtain sender receiver a where a:
    "io_on_outside (io_channel tk) (w\<lparr>io_state := (io_state w)\<lparr>io_submission_lock := True, active_tasks := n\<rparr>,
       io_registrations := (io_registrations w)(addr \<mapsto> registration_new)\<rparr>) = ((sender, receiver), a)"
    by (metis prod.exhaust)
  obtain h b where b: "io_on_outside (io_spawn tk receiver) a = (h, b)" by (metis prod.exhaust)
  have st: "io_state b = (io_state w)\<lparr>io_submission_lock := True, active_tasks := n\<rparr>"
    "io_registrations b = (io_registrations w)(addr \<mapsto> registration_new)"
    using a b by (auto simp: io_on_outside_def split: prod.splits)
  obtain c where c: "io_register_abort_handle dbg (io_handle_is_finished tk) addr (io_abort_handle_of tk h) b = Some c"
    and w': "w' = io_map_state io_unlock_submission c" and ho: "handoff = handoff_new future h sender addr"
    using prep free open_w room n a b by (auto simp: prepare_spawn_def io_lock_submission_def io_try_accept_task_def
        io_is_not_running_def io_guard_new_def split: bind_splits)
  let ?c = "?l\<lparr>active_tasks := n\<rparr>"
  have c_state: "io_registrations c = io_registrations b" "io_erase (io_state c) = ?c \<or>
      debug_assert dbg (io_abort_handles ?c (key addr) = None) = Some () \<and>
      io_erase (io_state c) = ?c\<lparr>io_abort_handles := (io_abort_handles ?c)
        (key addr \<mapsto> \<lparr>io_tracked_marker = addr, io_handle = ()\<rparr>)\<rparr>"
    using io_register_cases [OF c] st(1) by (auto simp: io_erase_def fun_eq_iff)
  show "io_registrations w' = (io_registrations w)(addr \<mapsto> registration_new)"
    using w' c_state(1) st(2) by (simp add: io_map_state_def)
  show "handoff_guard handoff = addr" "handoff_future handoff = future" by (simp_all add: ho handoff_new_def)
  have s1: "istep dbg ac (iat ?v T IUnlocked Map.empty) (iat ?l T ISubmitCheck Map.empty)"
    using iby_holder [OF ilock [of "iat ?v T IUnlocked Map.empty" ?l ISubmitCheck]] free
    by (simp add: io_lock_submission_def)
  have s2: "istep dbg ac (iat ?l T ISubmitCheck Map.empty) (iat ?l T ISubmitGet Map.empty)"
    using iby_holder [OF isubmit_open [of "iat ?l T ISubmitCheck Map.empty"]] open_w
    by (simp add: io_is_not_running_def)
  have s3: "istep dbg ac (iat ?l T ISubmitGet Map.empty) (iat ?l T ISubmitInc Map.empty)"
    using iby_holder [OF isubmit_room [of "iat ?l T ISubmitGet Map.empty" ac]] room by simp
  have s4: "istep dbg ac (iat ?l T ISubmitInc Map.empty) (iat ?c T ISubmitCreate Map.empty)"
    using iby_holder [OF isubmit_inc [of "iat ?l T ISubmitInc Map.empty" ac n]] n by simp
  have s5: "istep dbg ac (iat ?c T ISubmitCreate Map.empty)
      (iat ?c (T(addr \<mapsto> ?t FutureAdmitted)) (ISubmitRegister addr) Map.empty)"
    using iby_holder [OF isubmit_create [of "iat ?c T ISubmitCreate Map.empty" addr]] T by simp
  have s6: "istep dbg ac (iat ?c (T(addr \<mapsto> ?t FutureAdmitted)) (ISubmitRegister addr) Map.empty)
      (iat (io_erase (io_state c)) (T(addr \<mapsto> ?t FutureAdmitted)) (ISubmitUnlock addr) Map.empty)"
    using c_state(2)
      iby_holder [OF isubmit_register_finished [of "iat ?c (T(addr \<mapsto> ?t FutureAdmitted)) (ISubmitRegister addr) Map.empty" addr], of dbg ac]
      iby_holder [OF isubmit_register [of "iat ?c (T(addr \<mapsto> ?t FutureAdmitted)) (ISubmitRegister addr) Map.empty" addr "?t FutureAdmitted"], of dbg ac]
    by (elim disjE) simp_all
  have s7: "istep dbg ac (iat (io_erase (io_state c)) (T(addr \<mapsto> ?t FutureAdmitted)) (ISubmitUnlock addr) Map.empty)
      (iat (io_erase (io_state w')) (T(addr \<mapsto> ?t FutureHeld)) IUnlocked Map.empty)"
    using iby_holder [OF isubmit_unlock [of "iat (io_erase (io_state c)) (T(addr \<mapsto> ?t FutureAdmitted)) (ISubmitUnlock addr) Map.empty" addr "?t FutureAdmitted"], of dbg ac]
    by (simp add: w' io_map_state_def)
  show "(istep dbg ac)\<^sup>*\<^sup>* (iat ?v T IUnlocked Map.empty)
      (iat (io_erase (io_state w')) (T(addr \<mapsto> ?t FutureHeld)) IUnlocked Map.empty)"
    by (rule then_istep [OF s1 then_istep [OF s2 then_istep [OF s3 then_istep [OF s4 then_istep [OF s5
          then_istep [OF s6 r_into_rtranclp [where r = "istep dbg ac", OF s7]]]]]]])
qed

lemma io_tasks_match_put:
  assumes "io_tasks_match regs T"
    and "i_future t \<in> (if is_finished (i_registration t) then {GuardDone} else {FutureSent, FuturePolled})"
  shows "io_tasks_match (regs(k \<mapsto> i_registration t)) (T(k \<mapsto> t))"
  using assms by (simp add: io_tasks_match_def)

text \<open>From a future about to be destroyed to its finished guard.\<close>

lemma exit_runs:
  assumes match: "io_tasks_match regs T" and drop: "io_guard_drop ac k w = Some w'"
    and reg: "io_registrations w = regs(k \<mapsto> r)" and T: "T' k = Some \<lparr>i_registration = r, i_future = FutureDrop\<rparr>"
    and upd: "T'(k \<mapsto> \<lparr>i_registration = finish r, i_future = GuardDone\<rparr>)
      = T(k \<mapsto> \<lparr>i_registration = finish r, i_future = GuardDone\<rparr>)"
    and first: "istep dbg ac s (iat (io_erase (io_state w)) T' IUnlocked Map.empty)"
  shows "\<exists>s'. (istep dbg ac)\<^sup>*\<^sup>* s s' \<and> io_matches w' s'"
proof -
  have r: "io_registrations w k = Some r" by (simp add: reg)
  note runs = guard_drop_runs [where T = T' and k = k, OF drop r T]
  let ?t = "\<lparr>i_registration = finish r, i_future = GuardDone\<rparr>"
  from io_tasks_match_put [OF match, of ?t k] have "io_tasks_match (io_registrations w') (T'(k \<mapsto> ?t))"
    using runs(2) upd reg by (simp add: finish_def is_finished_def)
  then have "io_matches w' (iat (io_erase (io_state w')) (T'(k \<mapsto> ?t)) IUnlocked Map.empty)"
    by (auto simp: io_matches_def)
  with then_istep [OF first runs(1)] show ?thesis by blast
qed

lemma open_future_exit_runs:
  assumes "io_matches w s" and "k \<in> open_registrations w" and "io_guard_drop ac k (w\<lparr>io_outside := x\<rparr>) = Some w'"
  shows "\<exists>s'. (istep dbg ac)\<^sup>*\<^sup>* s s' \<and> io_matches w' s'"
proof -
  obtain T where s: "s = iat (io_erase (io_state w)) T IUnlocked Map.empty"
    and match: "io_tasks_match (io_registrations w) T" using assms(1) by (auto simp: io_matches_def)
  obtain r where r: "io_registrations w k = Some r" "\<not> is_finished r"
    using assms(2) by (auto simp: open_registrations_def)
  then obtain p where p: "T k = Some \<lparr>i_registration = r, i_future = p\<rparr>" "p \<in> {FutureSent, FuturePolled}"
    using match unfolding io_tasks_match_def
    by (metis (no_types, lifting) itask.cases itask.select_convs(1,2) map_option_eq_Some)
  let ?T = "T(k \<mapsto> \<lparr>i_registration = r, i_future = FutureDrop\<rparr>)"
  have "istep dbg ac s (iat (io_erase (io_state (w\<lparr>io_outside := x\<rparr>))) ?T IUnlocked Map.empty)"
    using p iby_future [OF future_unreceived [of s k "\<lparr>i_registration = r, i_future = p\<rparr>"], of dbg ac]
      iby_future [OF future_finished [of s k "\<lparr>i_registration = r, i_future = p\<rparr>"], of dbg ac]
    by (auto simp: s)
  from exit_runs [OF match assms(3) _ _ _ this, of r] r(1) show ?thesis
    by (auto simp: fun_upd_idem)
qed

lemma prepare_spawn_refuses:
  assumes "prepare_spawn dbg ac tk addr future w = Some (Inl e, w')"
  shows "w' = w"
proof -
  have free: "\<not> io_submission_lock (io_state w)"
    using assms by (auto simp: prepare_spawn_def io_lock_submission_def split: if_splits)
  then have "w\<lparr>io_state := io_unlock_submission ((io_state w)\<lparr>io_submission_lock := True\<rparr>)\<rparr> = w"
    by (cases w; cases "io_state w") (simp add: io_unlock_submission_def)
  then show ?thesis using assms io_lock_unlock [OF free]
    by (auto simp: prepare_spawn_def io_try_accept_task_def split: if_splits bind_splits prod.splits)
qed

lemma try_spawn_runs:
  assumes call: "try_spawn dbg ac tk addr future w = Some (res, w')"
    and match: "io_matches w s" and fresh: "io_registrations w addr = None"
  shows "\<exists>s'. (istep dbg ac)\<^sup>*\<^sup>* s s' \<and> io_matches w' s'"
proof -
  obtain T where s: "s = iat (io_erase (io_state w)) T IUnlocked Map.empty"
    and T: "io_tasks_match (io_registrations w) T" using match by (auto simp: io_matches_def)
  have none: "T addr = None" using T fresh by (simp add: io_tasks_match_def)
  obtain prepared a where prep: "prepare_spawn dbg ac tk addr future w = Some (prepared, a)"
    using call by (auto simp: try_spawn_def split: bind_splits)
  show ?thesis
  proof (cases prepared)
    case (Inl e)
    have "a = w" by (rule prepare_spawn_refuses [OF prep [unfolded Inl]])
    with call prep Inl have "w' = w" by (auto simp: try_spawn_def split: prod.splits)
    with match show ?thesis by blast
  next
    case (Inr handoff)
    note runs = prepare_spawn_runs [where T = T and addr = addr, OF prep [unfolded Inr] none]
    let ?t = "\<lparr>i_registration = registration_new, i_future = FutureHeld\<rparr>"
    let ?s = "iat (io_erase (io_state a)) (T(addr \<mapsto> ?t)) IUnlocked Map.empty"
    have held: "itasks ?s addr = Some ?t" by simp
    obtain sent b where send: "io_on_outside (io_send tk (handoff_sender handoff)
        (guarded_new (handoff_future handoff) (handoff_guard handoff))) a = (sent, b)" by (metis prod.exhaust)
    have b: "io_state b = io_state a" "io_registrations b = (io_registrations w)(addr \<mapsto> registration_new)"
      using send runs(2) by (auto simp: io_on_outside_def split: prod.splits)
    have "\<exists>s'. (istep dbg ac)\<^sup>*\<^sup>* ?s s' \<and> io_matches w' s'"
    proof (cases sent)
      case True
      then have "w' = b" using call prep Inr send by (auto simp: try_spawn_def deliver_def)
      then have "io_matches w' (iat (io_erase (io_state a)) (T(addr \<mapsto> ?t\<lparr>i_future := FutureSent\<rparr>)) IUnlocked Map.empty)"
        using io_tasks_match_put [OF T, of "?t\<lparr>i_future := FutureSent\<rparr>" addr] b by (simp add: io_matches_def)
      moreover have "istep dbg ac ?s (iat (io_erase (io_state a)) (T(addr \<mapsto> ?t\<lparr>i_future := FutureSent\<rparr>)) IUnlocked Map.empty)"
        using iby_future [OF future_sent [OF held], of dbg ac] by simp
      ultimately show ?thesis by blast
    next
      case False
      have "istep dbg ac ?s (iat (io_erase (io_state a)) (T(addr \<mapsto> ?t\<lparr>i_future := FutureDrop\<rparr>)) IUnlocked Map.empty)"
        using iby_future [OF future_unsent [OF held], of dbg ac] by simp
      moreover obtain c where "io_guard_drop ac addr (b\<lparr>io_outside := c\<rparr>) = Some w'"
        using False call prep Inr send runs(3)
        by (auto simp: try_spawn_def deliver_def guarded_drop_def guarded_new_def io_at_outside_def split: bind_splits)
      ultimately show ?thesis
        using exit_runs [OF T, of ac addr "b\<lparr>io_outside := c\<rparr>" w' registration_new
            "T(addr \<mapsto> ?t\<lparr>i_future := FutureDrop\<rparr>)" dbg ?s] b by simp
    qed
    then show ?thesis using rtranclp_trans [OF runs(1)] unfolding s by blast
  qed
qed

section \<open>The other calls\<close>

lemma poll_runs:
  assumes "poll_future ac tk g w = Some (polled, task, w')" and "io_matches w s"
    and "future_guard g \<in> open_registrations w"
  shows "\<exists>s'. (istep dbg ac)\<^sup>*\<^sup>* s s' \<and> io_matches w' s'"
proof -
  obtain x where "w' = w\<lparr>io_outside := x\<rparr> \<or> io_guard_drop ac (future_guard g) (w\<lparr>io_outside := x\<rparr>) = Some w'"
  proof -
    obtain p y where y: "guarded_poll tk g (io_outside w) = (p, y)" by (metis prod.exhaust)
    show thesis
      using assms(1) y that [of y] that [of "future_drop tk (user_future g) y"]
      by (auto simp: poll_future_def io_on_outside_def guarded_drop_def io_at_outside_def
          split: if_splits bind_splits)
  qed
  moreover have "io_matches (w\<lparr>io_outside := x\<rparr>) s" using assms(2) by (simp add: io_matches_def)
  ultimately show ?thesis using open_future_exit_runs [OF assms(2,3)] by blast
qed

lemma drop_runs:
  assumes "guarded_drop ac tk g w = Some w'" and "io_matches w s" and "future_guard g \<in> open_registrations w"
  shows "\<exists>s'. (istep dbg ac)\<^sup>*\<^sup>* s s' \<and> io_matches w' s'"
  using assms(1) open_future_exit_runs [OF assms(2,3)] by (simp add: guarded_drop_def io_at_outside_def)

lemma io_lock_store:
  assumes "\<not> io_submission_lock v"
  shows "io_unlock_submission (io_state_shutdown (v\<lparr>io_submission_lock := True\<rparr>)) = io_state_shutdown v"
    "io_unlock_submission (io_state_stop (v\<lparr>io_submission_lock := True\<rparr>)) = io_state_stop v"
  using assms by (cases v; simp add: io_unlock_submission_def io_state_shutdown_def io_state_stop_def)+

text \<open>The last steps of a stop or shutdown, in a system with no other thread.\<close>

lemma close_runs:
  "(istep dbg ac)\<^sup>*\<^sup>* (iat v T IUnlocked [0 \<mapsto> ICloseCapacity rep])
     (iat (io_notify_termination_waiters (io_notify_capacity_changed v)) T IUnlocked Map.empty)"
proof -
  let ?c = "io_notify_capacity_changed v"
  have sig: "isignal_capacity (iat v T IUnlocked [0 \<mapsto> ICloseCapacity rep]) = iat ?c T IUnlocked [0 \<mapsto> ICloseCapacity rep]"
    "isignal_notify (iat ?c T IUnlocked [0 \<mapsto> ICloseNotify rep])
      = iat (io_notify_termination_waiters ?c) T IUnlocked [0 \<mapsto> ICloseNotify rep]"
    by (simp_all add: isignal_capacity_def isignal_notify_def iwake_all_def fun_eq_iff)
  have s1: "istep dbg ac (iat v T IUnlocked [0 \<mapsto> ICloseCapacity rep]) (iat ?c T IUnlocked [0 \<mapsto> ICloseNotify rep])"
    using iby_closer [OF iclose_capacity [of "iat v T IUnlocked [0 \<mapsto> ICloseCapacity rep]" 0 rep], of dbg ac] sig(1) by simp
  have s2: "istep dbg ac (iat ?c T IUnlocked [0 \<mapsto> ICloseNotify rep])
      (iat (io_notify_termination_waiters ?c) T IUnlocked [0 \<mapsto> IClosed rep])"
    using iby_closer [OF iclose_notify [of "iat ?c T IUnlocked [0 \<mapsto> ICloseNotify rep]" 0 rep], of dbg ac] sig(2) by simp
  have s3: "istep dbg ac (iat (io_notify_termination_waiters ?c) T IUnlocked [0 \<mapsto> IClosed rep])
      (iat (io_notify_termination_waiters ?c) T IUnlocked Map.empty)"
    using iby_reclaim [OF ithread_exit [of "iat (io_notify_termination_waiters ?c) T IUnlocked [0 \<mapsto> IClosed rep]" 0], of "IClosed rep" dbg ac]
    by (simp add: fun_upd_idem)
  show ?thesis by (rule then_istep [OF s1 then_istep [OF s2 r_into_rtranclp [where r = "istep dbg ac", OF s3]]])
qed

lemma shutdown_runs:
  assumes "io_shutdown w = Some w'" and "io_matches w s"
  shows "\<exists>s'. (istep dbg ac)\<^sup>*\<^sup>* s s' \<and> io_matches w' s'"
proof -
  obtain T where s: "s = iat (io_erase (io_state w)) T IUnlocked Map.empty"
    and T: "io_tasks_match (io_registrations w) T" using assms(2) by (auto simp: io_matches_def)
  have free: "\<not> io_submission_lock (io_state w)"
    using assms(1) by (auto simp: io_shutdown_def io_lock_submission_def split: if_splits)
  have w': "w' = w\<lparr>io_state := io_notify_termination_waiters (io_notify_capacity_changed (io_state_shutdown (io_state w)))\<rparr>"
    using assms(1) free by (simp add: io_shutdown_def io_lock_submission_def io_lock_store)
  let ?v = "io_erase (io_state w)"
  let ?l = "?v\<lparr>io_submission_lock := True\<rparr>"
  have s1: "istep dbg ac s (iat ?l T IShutdownStore Map.empty)"
    using iby_holder [OF ilock [of s ?l IShutdownStore], of dbg ac] free by (simp add: s io_lock_submission_def)
  have s2: "istep dbg ac (iat ?l T IShutdownStore Map.empty) (iat (io_state_shutdown ?l) T IShutdownUnlock Map.empty)"
    using iby_holder [OF ishutdown_store [of "iat ?l T IShutdownStore Map.empty"], of dbg ac] by simp
  have s3: "istep dbg ac (iat (io_state_shutdown ?l) T IShutdownUnlock Map.empty)
      (iat (io_state_shutdown ?v) T IUnlocked [0 \<mapsto> ICloseCapacity None])"
    using iby_holder [OF ishutdown_unlock [of "iat (io_state_shutdown ?l) T IShutdownUnlock Map.empty" 0], of dbg ac] free
    by (simp add: io_lock_store)
  have "(istep dbg ac)\<^sup>*\<^sup>* s (iat (io_erase (io_state w')) T IUnlocked Map.empty)"
    using then_istep [OF s1 then_istep [OF s2 then_istep [OF s3 close_runs]]] by (simp add: w')
  moreover have "io_matches w' (iat (io_erase (io_state w')) T IUnlocked Map.empty)"
    using T by (simp add: io_matches_def w')
  ultimately show ?thesis by blast
qed

lemma abort_loop_runs:
  assumes "io_abort_loop dbg fin abort hs n w = Some (m, w')"
  shows "io_state w' = io_state w" "io_registrations w' = io_registrations w"
    "(istep dbg ac)\<^sup>*\<^sup>* (iat v T IUnlocked [0 \<mapsto> IStopLoop r (map fst hs) n])
       (iat v T IUnlocked [0 \<mapsto> IStopLoop r [] m])"
proof -
  have "io_state w' = io_state w \<and> io_registrations w' = io_registrations w \<and>
    (istep dbg ac)\<^sup>*\<^sup>* (iat v T IUnlocked [0 \<mapsto> IStopLoop r (map fst hs) n]) (iat v T IUnlocked [0 \<mapsto> IStopLoop r [] m])"
    using assms
  proof (induction hs arbitrary: n w)
    case (Cons h hs)
    let ?loop = "\<lambda>ks n. iat v T IUnlocked [0 \<mapsto> IStopLoop r ks n]"
    let ?ks = "map fst hs"
    obtain k a where h: "h = (k, a)" by (cases h)
    show ?case
    proof (cases "fin (io_handle a) (io_outside w)")
      case True
      have s1: "istep dbg ac (?loop (k # ?ks) n) (?loop ?ks n)"
        using iby_closer [OF istop_skip [of "?loop (k # ?ks) n" 0 r k ?ks n], of dbg ac] by simp
      have "io_abort_loop dbg fin abort hs n w = Some (m, w')" using Cons.prems True h by simp
      from Cons.IH [OF this] show ?thesis
        unfolding h list.map fst_conv by (blast intro: then_istep [OF s1])
    next
      case False
      obtain n' where n': "add_assign dbg n 1 = Some n'"
        "io_abort_loop dbg fin abort hs n' (w\<lparr>io_outside := abort (io_handle a) (io_outside w)\<rparr>) = Some (m, w')"
        using False Cons.prems h by (auto split: bind_splits)
      have s1: "istep dbg ac (?loop (k # ?ks) n) (iat v T IUnlocked [0 \<mapsto> IStopCount r ?ks n])"
        using iby_closer [OF istop_abort [of "?loop (k # ?ks) n" 0 r k ?ks n], of dbg ac] by simp
      have s2: "istep dbg ac (iat v T IUnlocked [0 \<mapsto> IStopCount r ?ks n]) (?loop ?ks n')"
        using iby_closer [OF istop_count [of "iat v T IUnlocked [0 \<mapsto> IStopCount r ?ks n]" 0 r ?ks n dbg n'], of ac] n'(1)
        by simp
      have keep: "io_state (w\<lparr>io_outside := x\<rparr>) = io_state w" "io_registrations (w\<lparr>io_outside := x\<rparr>) = io_registrations w"
        for x by simp_all
      from Cons.IH [OF n'(2)] show ?thesis
        unfolding h list.map fst_conv keep by (blast intro: then_istep [OF s1 then_istep [OF s2]])
    qed
  qed simp
  then show "io_state w' = io_state w" "io_registrations w' = io_registrations w"
    "(istep dbg ac)\<^sup>*\<^sup>* (iat v T IUnlocked [0 \<mapsto> IStopLoop r (map fst hs) n]) (iat v T IUnlocked [0 \<mapsto> IStopLoop r [] m])"
    by simp_all
qed

lemma stop_runs:
  assumes call: "io_stop dbg ac tk iter w = Some (rep, w')" and match: "io_matches w s"
    and iter: "iterates iter" and fin: "finite (dom (io_abort_handles (io_state w)))"
  shows "\<exists>s'. (istep dbg ac)\<^sup>*\<^sup>* s s' \<and> io_matches w' s'"
proof -
  obtain T where s: "s = iat (io_erase (io_state w)) T IUnlocked Map.empty"
    and T: "io_tasks_match (io_registrations w) T" using match by (auto simp: io_matches_def)
  let ?hs = "io_abort_handles (io_state w)" and ?r = "ac_get ac (active_tasks (io_state w))"
  have free: "\<not> io_submission_lock (io_state w)"
    using call by (auto simp: io_stop_def io_lock_submission_def split: if_splits)
  let ?stopped = "io_state_stop (io_state w)"
  let ?w = "w\<lparr>io_state := ?stopped\<lparr>io_abort_handles := Map.empty\<rparr>\<rparr>"
  have fields: "active_tasks (io_state_stop ((io_state w)\<lparr>io_submission_lock := True\<rparr>)) = active_tasks (io_state w)"
    "io_abort_handles ?stopped = ?hs" by (simp_all add: io_state_stop_def)
  obtain m u where loop: "io_abort_loop dbg (io_handle_is_finished tk) (io_abort tk) (iter ?hs) 0 ?w = Some (m, u)"
    and w': "w' = io_map_state io_notify_termination_waiters (io_map_state io_notify_capacity_changed u)"
    using call free fields by (auto simp: io_stop_def io_lock_submission_def io_lock_store io_abort_tracked_tasks_def
        Let_def split: bind_splits)
  note loops = abort_loop_runs [OF loop]
  have it: "distinct (map fst (iter ?hs))" "set (map fst (iter ?hs)) = dom ?hs"
    using iter fin unfolding iterates_def by (metis dom_map_of_conv_image_fst set_map)+
  let ?v = "io_erase (io_state w)"
  let ?l = "?v\<lparr>io_submission_lock := True\<rparr>" and ?e = "(io_state_stop ?v)\<lparr>io_abort_handles := Map.empty\<rparr>"
  have s1: "istep dbg ac s (iat ?l T IStopStore Map.empty)"
    using iby_holder [OF ilock [of s ?l IStopStore], of dbg ac] free by (simp add: s io_lock_submission_def)
  have s2: "istep dbg ac (iat ?l T IStopStore Map.empty) (iat (io_state_stop ?l) T IStopGet Map.empty)"
    using iby_holder [OF istop_store [of "iat ?l T IStopStore Map.empty"], of dbg ac] by simp
  have s3: "istep dbg ac (iat (io_state_stop ?l) T IStopGet Map.empty) (iat (io_state_stop ?l) T (IStopUnlock ?r) Map.empty)"
    using iby_holder [OF istop_get [of "iat (io_state_stop ?l) T IStopGet Map.empty"], of dbg ac]
    by (simp add: io_state_stop_def)
  have s4: "istep dbg ac (iat (io_state_stop ?l) T (IStopUnlock ?r) Map.empty)
      (iat (io_state_stop ?v) T IUnlocked [0 \<mapsto> IStopTake ?r])"
    using iby_holder [OF istop_unlock [of "iat (io_state_stop ?l) T (IStopUnlock ?r) Map.empty" ?r 0], of dbg ac] free
    by (simp add: io_lock_store)
  have s5: "istep dbg ac (iat (io_state_stop ?v) T IUnlocked [0 \<mapsto> IStopTake ?r])
      (iat ?e T IUnlocked [0 \<mapsto> IStopLoop ?r (map fst (iter ?hs)) 0])"
    using iby_closer [OF istop_take [of "iat (io_state_stop ?v) T IUnlocked [0 \<mapsto> IStopTake ?r]" 0 ?r
          "map fst (iter ?hs)"], of dbg ac] it
    by (simp add: io_state_stop_def dom_def)
  have s6: "istep dbg ac (iat ?e T IUnlocked [0 \<mapsto> IStopLoop ?r [] m])
      (iat ?e T IUnlocked [0 \<mapsto> ICloseCapacity (iclose_report ?r m)])"
    using iby_closer [OF istop_loop_end [of "iat ?e T IUnlocked [0 \<mapsto> IStopLoop ?r [] m]" 0 ?r m], of dbg ac] by simp
  have "(istep dbg ac)\<^sup>*\<^sup>* s (iat (io_notify_termination_waiters (io_notify_capacity_changed ?e)) T IUnlocked Map.empty)"
    by (rule then_istep [OF s1 then_istep [OF s2 then_istep [OF s3 then_istep [OF s4 then_istep [OF s5
          rtranclp_trans [OF loops(3) then_istep [OF s6 close_runs]]]]]]])
  moreover have "io_matches w' (iat (io_notify_termination_waiters (io_notify_capacity_changed ?e)) T IUnlocked Map.empty)"
    using T loops(1,2) by (simp add: io_matches_def w' io_map_state_def)
  ultimately show ?thesis by blast
qed

section \<open>The property\<close>

lemma io_matches_handles: "io_matches w s \<Longrightarrow> dom (ihandles s) = dom (io_abort_handles (io_state w))"
  by (auto simp: io_matches_def)

lemma io_call_runs:
  assumes "exec_io_call dbg ac tk iter c w = Some w'" and "io_call_possible c w" and "io_matches w s"
    and "iterates iter" and "finite (dom (io_abort_handles (io_state w)))"
  shows "\<exists>s'. (istep dbg ac)\<^sup>*\<^sup>* s s' \<and> io_matches w' s'"
proof (cases c)
  case (IoSpawn addr future)
  with assms(1,2) obtain res where "try_spawn dbg ac tk addr future w = Some (res, w')" "io_registrations w addr = None"
    by auto
  from try_spawn_runs [OF this(1) assms(3) this(2)] show ?thesis .
next
  case (IoPoll g)
  with assms(1,2) obtain p u where "poll_future ac tk g w = Some (p, u, w')" "future_guard g \<in> open_registrations w"
    by auto
  from poll_runs [OF this(1) assms(3) this(2)] show ?thesis .
next
  case (IoDrop g)
  with assms(1,2) drop_runs [OF _ assms(3)] show ?thesis by auto
next
  case IoShutdown
  with assms(1) shutdown_runs [OF _ assms(3)] show ?thesis by auto
next
  case IoStop
  with assms(1) obtain rep where "io_stop dbg ac tk iter w = Some (rep, w')" by auto
  from stop_runs [OF this assms(3-5)] show ?thesis .
qed

text \<open>
  C40: The call-by-call model is part of the concurrent one. Whatever a sequence of
  uninterrupted calls of the IO service (spawns, polls, drops, shutdowns, stops) reaches, some
  run of its interleaved threads reaches too, with the same lifecycle, counter, tracked
  handles, notifications and registrations; so what holds of every interleaving holds of it.
\<close>
theorem io_calls_are_runs:
  assumes "io_calls_reach dbg ac tk iter capacity w" and "counts_atomically ac" and "iterates iter"
  shows "\<exists>s. ireach dbg ac capacity s \<and> io_matches w s"
  using assms(1)
proof (induction rule: io_calls_reach.induct)
  case (io_calls_new x)
  have "io_matches (io_new ac capacity x) (iinit ac capacity)"
    by (simp add: io_matches_def io_new_def iinit_def io_tasks_match_def io_state_with_task_capacity_def io_erase_def)
  then show ?case using ireach_init by blast
next
  case (io_calls_outside w x)
  then show ?case by (simp add: io_matches_def)
next
  case (io_calls_step w c w')
  then obtain s where s: "ireach dbg ac capacity s" "io_matches w s" by blast
  note inv = ireachD(1) [OF s(1) assms(2)]
  have "finite (dom (io_abort_handles (io_state w)))"
    using handles_card(1) [OF iinvD(3,5) [OF inv]] io_matches_handles [OF s(2)] by simp
  from io_call_runs [OF io_calls_step(3,2) s(2) assms(3) this] s(1) ireach_run show ?case by blast
qed

theorem io_calls_are_runs_witness:
  "\<exists>w s. io_shutdown demo_io_new = Some w \<and> ireach True word_count 1 s \<and> io_matches w s"
proof -
  obtain w where w: "io_shutdown demo_io_new = Some w"
    using io_shutdown_spec [OF demo_io_new_facts(1)] by blast
  have "io_calls_reach True word_count demo_io_ops sorted_iter 1 demo_io_new"
    unfolding demo_io_new_def by (rule io_calls_reach.io_calls_new)
  then have "io_calls_reach True word_count demo_io_ops sorted_iter 1 w"
    by (rule io_calls_reach.io_calls_step [where c = IoShutdown]) (simp_all add: w)
  from io_calls_are_runs [OF this word_count_ok iterates_sorted_iter] w show ?thesis by blast
qed

end
