(* ===== verification/Build_Profiles.thy ===== *)
theory Build_Profiles
  imports Interleaving_Claims Io_Claims
begin

text \<open>
  The two build profiles. The debug profile checks assertions and overflow and panics where
  the release profile goes on; on the reachable states of both services no check ever fails,
  so the two profiles are the same program.
\<close>

section \<open>The operations that differ\<close>

text \<open>Where neither profile panics, both have the same result.\<close>

lemma add_assign_agrees:
  "add_assign a n m = Some x \<Longrightarrow> add_assign b n m \<noteq> None \<Longrightarrow> add_assign b n m = Some x"
  by (auto simp: add_assign_def split: if_splits)

lemma accept_agrees:
  "try_accept_task a v = Some x \<Longrightarrow> try_accept_task b v \<noteq> None \<Longrightarrow> try_accept_task b v = Some x"
  by (auto simp: try_accept_task_def accept_task_def dest: add_assign_agrees
      split: if_splits bind_splits)

lemma mark_started_agrees:
  "mark_task_started a v = Some x \<Longrightarrow> mark_task_started b v \<noteq> None \<Longrightarrow> mark_task_started b v = Some x"
  by (auto simp: mark_task_started_def mark_started_def Let_def dest: add_assign_agrees
      split: if_splits bind_splits)

lemma finish_agrees:
  "finish_task_section a started v = Some x \<Longrightarrow> finish_task_section b started v \<noteq> None \<Longrightarrow>
   finish_task_section b started v = Some x"
  by (auto simp: finish_task_section_def counts_finish_task_def split: if_splits bind_splits)

lemmas agrees = add_assign_agrees accept_agrees mark_started_agrees finish_agrees

section \<open>The steps agree\<close>

lemma fin_step_agrees:
  assumes "fin_step a f s f' s'"
    and "\<And>started. f = FinCount started \<Longrightarrow> finish_task_section b started (svc s) \<noteq> None"
  shows "fin_step b f s f' s'"
  using assms(1)
proof cases
  case (fin_count started terminated v)
  with finish_agrees [OF fin_count(5) assms(2) [OF fin_count(1)]] show ?thesis
    by (simp add: fin_step.fin_count)
qed (simp_all add: fin_step.intros)

lemma finish_panic_free:
  assumes "\<not> about_to_panic dbg s" and "tasks s k = Some t"
    and "owner t = Finishing (FinCount started) \<or> winner t = Some (FinCount started)"
  shows "finish_task_section dbg started (svc s) \<noteq> None"
proof
  assume "finish_task_section dbg started (svc s) = None"
  with assms(2,3) have "about_to_panic dbg s" unfolding about_to_panic_def by blast
  with assms(1) show False ..
qed

lemma task_step_agrees:
  assumes "task_step a s s'" and "\<not> about_to_panic b s"
  shows "task_step b s s'"
  using assms(1)
proof cases
  case (start_count k t v)
  then have "mark_task_started b (svc s) \<noteq> None" using assms(2) by (auto simp: about_to_panic_def)
  with start_count have "mark_task_started b (svc s) = Some v" using mark_started_agrees by blast
  with start_count show ?thesis using task_step.start_count by simp
next
  case (owner_finish k t f f' u)
  then have "fin_step b f s f' u"
    by (intro fin_step_agrees [OF owner_finish(4)] finish_panic_free [OF assms(2) owner_finish(2)]) (simp add: owner_finish)
  with owner_finish show ?thesis using task_step.owner_finish by simp
next
  case (winner_finish k t f f' u)
  then have "fin_step b f s f' u"
    by (intro fin_step_agrees [OF winner_finish(4)] finish_panic_free [OF assms(2) winner_finish(2)]) (simp add: winner_finish)
  with winner_finish show ?thesis using task_step.winner_finish by simp
qed (hypsubst, (rule task_step.intros; assumption))+

lemma holder_step_agrees:
  assumes "holder_step a s s'" and "\<not> about_to_panic b s"
  shows "holder_step b s s'"
proof -
  have "holder s = SubmitReserve \<Longrightarrow> try_accept_task b (svc s) \<noteq> None"
    using assms(2) by (auto simp: about_to_panic_def)
  note same = accept_agrees [OF _ this]
  have vacant: "holder s = SubmitRegister k \<Longrightarrow> debug_assert b (abort_handles (svc s) (key k) = None) = Some ()" for k
    using assms(2) by (auto simp: about_to_panic_def debug_assert_def)
  from assms(1) show ?thesis
    by cases (hypsubst, (rule holder_step.intros; (assumption | rule same, assumption+ | rule vacant, assumption)))+
qed

lemma closer_step_agrees:
  assumes "closer_step a s s'" and "\<not> about_to_panic b s"
  shows "closer_step b s s'"
  using assms(1)
proof cases
  case (stop_hook_waited i q r k ks n t m)
  then have "add_assign b n 1 \<noteq> None" using assms(2) by (auto simp: about_to_panic_def)
  with stop_hook_waited have "add_assign b n 1 = Some m" using add_assign_agrees by blast
  with stop_hook_waited show ?thesis using closer_step.stop_hook_waited by simp
qed (hypsubst, (rule closer_step.intros; assumption))+

lemma cstep_agrees:
  assumes "cinv s"
  shows "cstep a s s' \<longleftrightarrow> cstep b s s'"
  using cinv_no_panic [OF assms]
  by (meson cstep.cases cstep.intros task_step_agrees holder_step_agrees closer_step_agrees)

lemma creach_agrees: "creach a capacity s \<Longrightarrow> creach b capacity s"
proof (induction rule: creach.induct)
  case (creach_step s s')
  with cstep_agrees [OF creachD(1) [OF creach_step(1)]] show ?case by (blast intro: creach.creach_step)
qed (rule creach_init)

lemma icloser_step_agrees:
  assumes "icloser_step a s s'" and "\<not> iabout_to_panic b ac s"
  shows "icloser_step b s s'"
  using assms(1)
proof cases
  case (istop_count i r ks n m)
  then have "add_assign b n 1 \<noteq> None" using assms(2) by (auto simp: iabout_to_panic_def)
  with istop_count have "add_assign b n 1 = Some m" using add_assign_agrees by blast
  with istop_count show ?thesis using icloser_step.istop_count by simp
qed (hypsubst, (rule icloser_step.intros; assumption))+

lemma iholder_step_agrees:
  assumes "iholder_step a ac s s'" and "\<not> iabout_to_panic b ac s"
  shows "iholder_step b ac s s'"
proof -
  have vacant: "iholder s = ISubmitRegister k \<Longrightarrow> debug_assert b (ihandles s (key k) = None) = Some ()" for k
    using assms(2) by (auto simp: iabout_to_panic_def debug_assert_def)
  from assms(1) show ?thesis
    by cases (hypsubst, (rule iholder_step.intros; (assumption | rule vacant, assumption)))+
qed

lemma istep_agrees:
  assumes "iinv ac s"
  shows "istep a ac s s' \<longleftrightarrow> istep b ac s s'"
  using iinv_no_panic [OF assms]
  by (meson istep.cases istep.intros iholder_step_agrees icloser_step_agrees)

lemma ireach_agrees: "ireach a ac capacity s \<Longrightarrow> counts_atomically ac \<Longrightarrow> ireach b ac capacity s"
proof (induction rule: ireach.induct)
  case (ireach_step s s')
  with istep_agrees [OF ireachD(1) [OF ireach_step(1) ireach_step(4)]] show ?case
    by (blast intro: ireach.ireach_step)
qed (rule ireach_init)

section \<open>Properties\<close>

text \<open>
  C7: Debug and release builds are the same program. Whatever threads do, both services
  reach the same states in the two profiles, and from each of them the same steps are
  possible: no assertion and no overflow check of the debug profile ever decides anything,
  and no counter of the release profile ever wraps.
\<close>
theorem build_profiles_agree:
  "creach True capacity s = creach False capacity s \<and>
   (creach dbg capacity s \<longrightarrow> cstep True s s' = cstep False s s') \<and>
   (counts_atomically ac \<longrightarrow> ireach True ac capacity u = ireach False ac capacity u \<and>
     (ireach dbg ac capacity u \<longrightarrow> istep True ac u u' = istep False ac u u'))"
  using creach_agrees ireach_agrees creachD(1) ireachD(1) cstep_agrees istep_agrees by meson

theorem build_profiles_agree_witness:
  "\<exists>s u. creach False 1 s \<and> holder s = SubmitRegister 16 \<and>
     ireach False word_count 1 u \<and> io_abort_handles (isvc u) 16 \<noteq> None"
proof -
  obtain s where s: "creach True 1 s" "holder s = SubmitRegister 16" by (rule that [OF r4]) simp
  obtain u where u: "ireach True word_count 1 u" "io_abort_handles (isvc u) 16 \<noteq> None"
    by (rule that [OF io_run_held]) simp
  from build_profiles_agree [of 1 s True s word_count u u] word_count_ok s u show ?thesis by blast
qed

end
