(* ===== verification/Retry_Client.thy ===== *)
theory Retry_Client
  imports Io_Calls
begin

text \<open>
  The retry loops of \<^verbatim>\<open>examples/capacity_retry_callable.rs\<close> and
  \<^verbatim>\<open>examples/capacity_retry_future.rs\<close>: a client keeps a task it cannot clone in its own hands
  until a saturated service admits it, and waits for a change of the capacity between its
  attempts. While it waits the other threads run, so every attempt meets a service that is an
  argument of the loop: nothing is assumed of how it got there. What the programs do after the
  loop, on task handles of another crate, is not part of this theory.
\<close>

section \<open>The loops\<close>

text \<open>
  \<open>retry_task\<close> is the \<^verbatim>\<open>callable\<close> or \<^verbatim>\<open>future\<close> variable; \<open>release_tx\<close> says whether the sender of
  the release channel is still in hand (only the future client takes it out) and
  \<open>release_messages\<close> counts what has been sent on it.
\<close>

record 't retry_main =
  retry_task :: "'t option"
  blocker_released :: bool
  saturated_attempts :: "32 word"
  release_tx :: bool
  release_messages :: nat

text \<open>The ends of a turn: the loop awaits a change, \<^verbatim>\<open>main\<close> returns an error, or the loop breaks
  to await a handle. A panic is \<open>None\<close>.\<close>

datatype 'h turn = TurnAwaitsChange | TurnReturnsErr | TurnBreaks 'h

text \<open>\<^verbatim>\<open>+= 1\<close> on an \<^verbatim>\<open>i32\<close>: the debug profile panics on overflow.\<close>

definition i32_increment :: "bool \<Rightarrow> 32 word \<Rightarrow> 32 word option" where
  "i32_increment dbg n = (if dbg \<and> n = 0x7FFFFFFF then None else Some (n + 1))"

definition client_main :: "'t \<Rightarrow> 't retry_main" where
  "client_main task = \<lparr>retry_task = Some task, blocker_released = False, saturated_attempts = 0,
     release_tx = True, release_messages = 0\<rparr>"

text \<open>
  One turn of the callable client. \<open>receiving\<close>: the blocker still holds the receiver of the
  release channel, so that a message to it is taken.
\<close>

definition callable_attempt ::
  "bool \<Rightarrow> ('r, 't, 'x) tokio_ops \<Rightarrow> usize \<Rightarrow> bool \<Rightarrow> 't retry_main \<Rightarrow> ('r, 'x) service
   \<Rightarrow> (_ turn \<times> 't retry_main \<times> ('r, 'x) service) option" where
  "callable_attempt dbg tk addr receiving m w = do {
     task \<leftarrow> retry_task m;
     let m = m\<lparr>retry_task := None\<rparr>;
     (submitted, w) \<leftarrow> try_submit_callable dbg tk addr task w;
     case submitted of
       Inr h \<Rightarrow> if saturated_attempts m = 1 then Some (TurnBreaks h, m, w) else None
     | Inl rejected \<Rightarrow>
         (let (why, task) = into_parts rejected; m = m\<lparr>retry_task := Some task\<rparr>
          in case why of
               Saturated \<Rightarrow> do {
                 n \<leftarrow> i32_increment dbg (saturated_attempts m);
                 let m = m\<lparr>saturated_attempts := n\<rparr>;
                 if blocker_released m then Some (TurnAwaitsChange, m, w)
                 else if \<not> receiving then Some (TurnReturnsErr, m, w)
                 else (let m = m\<lparr>release_messages := Suc (release_messages m)\<rparr>
                   in Some (TurnAwaitsChange, m\<lparr>blocker_released := True\<rparr>, w))
               }
             | Shutdown \<Rightarrow> Some (TurnReturnsErr, m, w))
   }"

text \<open>The future client takes the one-shot sender before it releases.\<close>

definition future_attempt ::
  "bool \<Rightarrow> 'n atomic_count \<Rightarrow> ('r, 'f, 'v, 'e, 'x) io_ops \<Rightarrow> usize \<Rightarrow> bool \<Rightarrow> 'f retry_main
   \<Rightarrow> ('n, 'r, 'x) io_world \<Rightarrow> (_ turn \<times> 'f retry_main \<times> ('n, 'r, 'x) io_world) option" where
  "future_attempt dbg ac tk addr receiving m w = do {
     task \<leftarrow> retry_task m;
     let m = m\<lparr>retry_task := None\<rparr>;
     (spawned, w) \<leftarrow> try_spawn dbg ac tk addr task w;
     case spawned of
       Inr h \<Rightarrow> if saturated_attempts m = 1 then Some (TurnBreaks h, m, w) else None
     | Inl rejected \<Rightarrow>
         (let (why, task) = into_parts rejected; m = m\<lparr>retry_task := Some task\<rparr>
          in case why of
               Saturated \<Rightarrow> do {
                 n \<leftarrow> i32_increment dbg (saturated_attempts m);
                 let m = m\<lparr>saturated_attempts := n\<rparr>;
                 if blocker_released m then Some (TurnAwaitsChange, m, w)
                 else if \<not> release_tx m then None
                 else (let m = m\<lparr>release_tx := False\<rparr>
                   in if \<not> receiving then Some (TurnReturnsErr, m, w)
                   else (let m = m\<lparr>release_messages := Suc (release_messages m)\<rparr>
                     in Some (TurnAwaitsChange, m\<lparr>blocker_released := True\<rparr>, w)))
               }
             | Shutdown \<Rightarrow> Some (TurnReturnsErr, m, w))
   }"

text \<open>
  The loop over what its attempts meet: the address the next marker would get, the receiver of
  the release channel, and the service. It gives the end of its last turn, the variables of
  \<^verbatim>\<open>main\<close> and the service each attempt left; at the end of the list it still waits.
\<close>

fun retry_loop ::
  "(usize \<Rightarrow> bool \<Rightarrow> 't retry_main \<Rightarrow> 'w \<Rightarrow> ('h turn \<times> 't retry_main \<times> 'w) option) \<Rightarrow> 't retry_main
   \<Rightarrow> (usize \<times> bool \<times> 'w) list \<Rightarrow> ('h turn \<times> 't retry_main \<times> 'w list) option" where
  "retry_loop attempt m [] = Some (TurnAwaitsChange, m, [])"
| "retry_loop attempt m ((addr, receiving, w) # later) = do {
     (turn, m, w) \<leftarrow> attempt addr receiving m w;
     case turn of
       TurnAwaitsChange \<Rightarrow> do {
         (turn, m, ws) \<leftarrow> retry_loop attempt m later;
         Some (turn, m, w # ws)
       }
     | _ \<Rightarrow> Some (turn, m, [w])
   }"

section \<open>What a client relies on\<close>

text \<open>The variables of \<^verbatim>\<open>main\<close> after \<open>n\<close> refused attempts; \<open>takes_tx\<close> for the future client.\<close>

definition refused_main :: "bool \<Rightarrow> 't \<Rightarrow> nat \<Rightarrow> 't retry_main" where
  "refused_main takes_tx task n = \<lparr>retry_task = Some task, blocker_released = (n \<noteq> 0),
     saturated_attempts = of_nat n, release_tx = (n = 0 \<or> \<not> takes_tx), release_messages = (if n = 0 then 0 else 1)\<rparr>"

lemma refused_main_0: "client_main task = refused_main takes_tx task 0"
  by (simp add: client_main_def refused_main_def)

lemma unat_i32: "n < 2 ^ 31 \<Longrightarrow> unat (of_nat n :: 32 word) = n"
  by (simp add: unat_of_nat)

lemma i32_increment_of_nat:
  assumes "Suc n < 2 ^ 31"
  shows "i32_increment dbg (of_nat n) = Some (of_nat (Suc n))"
proof -
  from unat_i32 [of n] assms have "(of_nat n :: 32 word) \<noteq> 0x7FFFFFFF" by auto
  then show ?thesis by (simp add: i32_increment_def add.commute)
qed

lemma of_nat_is_1: "n < 2 ^ 31 \<Longrightarrow> (of_nat n :: 32 word) = 1 \<longleftrightarrow> n = 1"
  by (metis One_nat_def of_nat_1 unat_1 unat_i32)

text \<open>
  The contract of a client's attempt: a saturated service refuses and gives the task back, a
  closed one ends \<^verbatim>\<open>main\<close> with an error, and one that admits makes the assertion decide.
\<close>

locale retrying =
  fixes attempt :: "usize \<Rightarrow> bool \<Rightarrow> 't retry_main \<Rightarrow> 'w \<Rightarrow> ('h turn \<times> 't retry_main \<times> 'w) option"
    and takes_tx :: bool and refuses :: "SubmissionError \<Rightarrow> 'w \<Rightarrow> bool"
    and admits :: "usize \<Rightarrow> 't \<Rightarrow> 'w \<Rightarrow> 'h \<Rightarrow> 'w \<Rightarrow> bool"
  assumes on_saturated: "refuses Saturated w \<Longrightarrow> Suc n < 2 ^ 31 \<Longrightarrow> n = 0 \<longrightarrow> receiving \<Longrightarrow>
      attempt addr receiving (refused_main takes_tx task n) w = Some (TurnAwaitsChange, refused_main takes_tx task (Suc n), w)"
    and on_shutdown: "refuses Shutdown w \<Longrightarrow>
      attempt addr receiving (refused_main takes_tx task n) w = Some (TurnReturnsErr, refused_main takes_tx task n, w)"
    and on_admission: "admits addr task w h w' \<Longrightarrow>
      attempt addr receiving (refused_main takes_tx task n) w = (if (of_nat n :: 32 word) = 1
        then Some (TurnBreaks h, (refused_main takes_tx task n)\<lparr>retry_task := None\<rparr>, w') else None)"
begin

text \<open>A run of refusals, then whatever the rest of the loop does.\<close>

lemma refusals:
  assumes "\<forall>(_, _, w) \<in> set refused. refuses Saturated w" and "n + List.length refused < 2 ^ 31"
    and "n = 0 \<longrightarrow> (\<forall>(_, receiving, _) \<in> set (take 1 refused). receiving)"
  shows "retry_loop attempt (refused_main takes_tx task n) (refused @ later) =
    map_option (\<lambda>(turn, m, ws). (turn, m, map (snd \<circ> snd) refused @ ws))
      (retry_loop attempt (refused_main takes_tx task (n + List.length refused)) later)"
  using assms
proof (induction refused arbitrary: n)
  case Nil
  then show ?case by (simp add: option.map_ident)
next
  case (Cons c refused)
  obtain addr receiving w where c: "c = (addr, receiving, w)" by (metis prod.exhaust)
  have "attempt addr receiving (refused_main takes_tx task n) w = Some (TurnAwaitsChange, refused_main takes_tx task (Suc n), w)"
    by (rule on_saturated) (use Cons.prems in \<open>auto simp: c\<close>)
  moreover have "retry_loop attempt (refused_main takes_tx task (Suc n)) (refused @ later) =
    map_option (\<lambda>(turn, m, ws). (turn, m, map (snd \<circ> snd) refused @ ws))
      (retry_loop attempt (refused_main takes_tx task (Suc n + List.length refused)) later)"
    by (rule Cons.IH) (use Cons.prems in auto)
  ultimately show ?case by (cases "retry_loop attempt (refused_main takes_tx task (Suc n + List.length refused)) later")
      (auto simp: c)
qed

text \<open>The three ways on from there.\<close>

lemma after_refusals:
  assumes "\<forall>(_, _, w) \<in> set refused. refuses Saturated w" and "List.length refused < 2 ^ 31"
    and "\<forall>(_, receiving, _) \<in> set (take 1 refused). receiving"
  shows "retry_loop attempt (client_main task) refused =
      Some (TurnAwaitsChange, refused_main takes_tx task (List.length refused), map (snd \<circ> snd) refused)"
    "refuses Shutdown w \<Longrightarrow> retry_loop attempt (client_main task) (refused @ [(addr, receiving, w)]) =
      Some (TurnReturnsErr, refused_main takes_tx task (List.length refused), map (snd \<circ> snd) refused @ [w])"
    "admits addr task w h w' \<Longrightarrow> retry_loop attempt (client_main task) (refused @ [(addr, receiving, w)]) =
      (if List.length refused = 1
       then Some (TurnBreaks h, (refused_main takes_tx task 1)\<lparr>retry_task := None\<rparr>, map (snd \<circ> snd) refused @ [w'])
       else None)"
  using refusals [of refused 0 task "[]"] refusals [of refused 0 task "[(addr, receiving, w)]"] assms
    on_shutdown [of w addr receiving task "List.length refused"]
    on_admission [of addr task w h w' receiving "List.length refused"] of_nat_is_1 [OF assms(2)]
  by (simp_all add: refused_main_0 [of _ takes_tx])

end

section \<open>The two clients\<close>

interpretation callable: retrying "callable_attempt dbg tk" False
  "\<lambda>e w. ready w \<and> admission_error w = Some e"
  "\<lambda>addr task w h w'. try_submit_callable dbg tk addr task w = Some (Inr h, w')"
proof (unfold_locales, goal_cases)
  case (1 w n receiving addr task)
  then show ?case
    by (auto simp: callable_attempt_def refused_main_def try_submit_rejects i32_increment_of_nat)
next
  case (2 w addr receiving task n)
  then show ?case by (simp add: callable_attempt_def refused_main_def try_submit_rejects)
next
  case (3 addr task w h w' receiving n)
  then show ?case by (simp add: callable_attempt_def refused_main_def)
qed

interpretation future: retrying "future_attempt dbg ac tk" True
  "\<lambda>e w. \<not> io_submission_lock (io_state w) \<and> io_admission_error ac w = Some e"
  "\<lambda>addr task w h w'. try_spawn dbg ac tk addr task w = Some (Inr h, w')"
proof (unfold_locales, goal_cases)
  case (1 w n receiving addr task)
  then show ?case
    by (auto simp: future_attempt_def refused_main_def try_spawn_rejects i32_increment_of_nat)
next
  case (2 w addr receiving task n)
  then show ?case by (simp add: future_attempt_def refused_main_def try_spawn_rejects)
next
  case (3 addr task w h w' receiving n)
  then show ?case by (simp add: future_attempt_def refused_main_def)
qed

section \<open>Properties\<close>

text \<open>
  C12: The callable client keeps its callable until it is admitted. Whatever saturated
  services its attempts meet, each attempt leaves the service as it was, the very callable is
  back in the variable, the attempts are counted and the blocker is released exactly once, in
  the first. A closed service then ends \<^verbatim>\<open>main\<close> with an error and leaves the callable in hand.
  A service that admits takes it: the loop breaks with the endpoint of a task whose payload is
  that callable, provided that exactly one attempt was refused before; otherwise the assertion
  on the number of attempts fails, which the model shows as a panic.
\<close>
theorem callable_kept_until_admitted:
  assumes "\<forall>(_, _, v) \<in> set refused. ready v \<and> admission_error v = Some Saturated"
    and "List.length refused < 2 ^ 31" and "\<forall>(_, receiving, _) \<in> set (take 1 refused). receiving"
  shows "retry_loop (callable_attempt dbg tk) (client_main task) refused =
      Some (TurnAwaitsChange, refused_main False task (List.length refused), map (snd \<circ> snd) refused) \<and>
    (ready w \<and> admission_error w = Some Shutdown \<longrightarrow>
      retry_loop (callable_attempt dbg tk) (client_main task) (refused @ [(addr, receiving, w)]) =
        Some (TurnReturnsErr, refused_main False task (List.length refused), map (snd \<circ> snd) refused @ [w])) \<and>
    (ready w \<and> admission_error w = None \<and> registrations w addr = None \<longrightarrow>
      (let ((h, completion), x) = endpoint_parts tk (outside w);
           (cell, x) = slot_cell_new tk completion (slot_accept tk completion x)
       in \<exists>w'. submitted tk addr (CancelSlotIfQueued cell addr) (RunCallable task cell) x w w' \<and>
         retry_loop (callable_attempt dbg tk) (client_main task) (refused @ [(addr, receiving, w)]) =
           (if List.length refused = 1
            then Some (TurnBreaks h, (refused_main False task 1)\<lparr>retry_task := None\<rparr>, map (snd \<circ> snd) refused @ [w'])
            else None)))"
proof -
  note run = callable.after_refusals [OF assms, where dbg = dbg and tk = tk and task = task]
  have "\<exists>w'. submitted tk addr (CancelSlotIfQueued cell addr) (RunCallable task cell) y w w' \<and>
      retry_loop (callable_attempt dbg tk) (client_main task) (refused @ [(addr, receiving, w)]) =
        (if List.length refused = 1
         then Some (TurnBreaks h, (refused_main False task 1)\<lparr>retry_task := None\<rparr>, map (snd \<circ> snd) refused @ [w'])
         else None)"
    if "ready w" "admission_error w = None" "registrations w addr = None"
      "endpoint_parts tk (outside w) = ((h, completion), x)"
      "slot_cell_new tk completion (slot_accept tk completion x) = (cell, y)" for h completion x cell y
    using try_submit_callable_submitted [OF that, of dbg task] run(3) [of addr w h _ receiving] by blast
  with run(1,2) show ?thesis by (auto simp del: retry_loop.simps split: prod.splits split del: if_split)
qed

text \<open>A service with one slot, which a queued task fills.\<close>

lemma demo_one_slot:
  "ready (with_task_capacity 1 [] :: (nat, nat list) service)"
  "admission_error (with_task_capacity 1 [] :: (nat, nat list) service) = None"
  "registrations (with_task_capacity 1 [] :: (nat, nat list) service) addr = None"
  by (rule ready_new, simp_all add: admission_error_def with_task_capacity_def
      state_with_task_capacity_def is_not_running_def phase_count_def)

lemma demo_ends:
  "endpoint_parts demo_ops x = ((4, 5), x)" "slot_accept demo_ops s x = x" "slot_cell_new demo_ops s x = (6, x)"
  "outside (with_task_capacity n x) = x"
  by (simp_all add: demo_ops_def with_task_capacity_def)

lemma demo_full:
  obtains v where "try_submit_callable True demo_ops 16 42 (with_task_capacity 1 []) = Some (Inr 4, v)"
    "ready v" "admission_error v = Some Saturated"
proof -
  obtain v where v: "try_submit_callable True demo_ops 16 42 (with_task_capacity 1 []) = Some (Inr 4, v)"
    "submitted demo_ops 16 (CancelSlotIfQueued 6 16) (RunCallable 42 6) [] (with_task_capacity 1 []) v"
    using try_submit_callable_submitted [OF demo_one_slot(1,2) demo_one_slot(3) [of 16], of demo_ops 4 5 "[]" 6 "[]" True 42]
    by (auto simp: demo_ops_def with_task_capacity_def)
  have t: "trackers v = [16 \<mapsto> tracker_new 16]" "is_not_running (state v) = False" "task_capacity (state v) = 1"
    using v(2) by (auto simp: submitted_def demo_ops_def with_task_capacity_def state_with_task_capacity_def
        is_not_running_def tracker_new_def Let_def fun_eq_iff)
  have "admission_error v = Some Saturated"
    by (simp add: admission_error_def t phase_count_def in_phase_def tracker_new_def msum_upd_new)
  with v accepted_ready [OF submitted_accepted [OF v(2)]] that show thesis by blast
qed

theorem callable_kept_until_admitted_witness:
  "\<exists>v w'. admission_error v = Some Saturated \<and>
     retry_loop (callable_attempt True demo_ops) (client_main 42)
       [(32, True, v), (32, False, with_task_capacity 1 [])] =
     Some (TurnBreaks 4, (refused_main False 42 1)\<lparr>retry_task := None\<rparr>, [v, w'])"
proof -
  obtain v where "try_submit_callable True demo_ops 16 42 (with_task_capacity 1 []) = Some (Inr 4, v)"
    and v: "ready v" "admission_error v = Some Saturated" by (rule demo_full)
  have first: "\<forall>(_, _, w) \<in> set [(32 :: usize, True, v)]. ready w \<and> admission_error w = Some Saturated"
    "\<forall>(_, receiving, _) \<in> set (take 1 [(32 :: usize, True, v)]). receiving"
    "List.length [(32 :: usize, True, v)] < 2 ^ 31" using v by simp_all
  from callable_kept_until_admitted [OF first(1,3,2), THEN conjunct2, THEN conjunct2, rule_format,
      OF conjI [OF demo_one_slot(1) conjI [OF demo_one_slot(2) demo_one_slot(3) [of 32]]],
      where dbg = True and tk = demo_ops and task = 42 and receiving = False, unfolded demo_ends Let_def prod.case]
  obtain w' where "retry_loop (callable_attempt True demo_ops) (client_main 42)
       ([(32, True, v)] @ [(32, False, with_task_capacity 1 [])]) =
     (if List.length [(32 :: usize, True, v)] = 1
      then Some (TurnBreaks 4, (refused_main False 42 1)\<lparr>retry_task := None\<rparr>, map (snd \<circ> snd) [(32 :: usize, True, v)] @ [w'])
      else None)" by blast
  with v(2) show ?thesis by (auto simp del: retry_loop.simps)
qed

text \<open>
  What the admission of a future does: it is prepared, sent as the payload of the spawned
  task, and destroyed on the spot if the channel refuses it.
\<close>

definition future_accepted ::
  "bool \<Rightarrow> 'n atomic_count \<Rightarrow> ('r, 'f, 'v, 'e, 'x) io_ops \<Rightarrow> usize \<Rightarrow> 'f \<Rightarrow> ('n, 'r, 'x) io_world
   \<Rightarrow> 'r TokioTaskHandle \<Rightarrow> ('n, 'r, 'x) io_world \<Rightarrow> bool" where
  "future_accepted dbg ac tk addr future w h w' \<longleftrightarrow>
     (\<exists>handoff v sent x. prepare_spawn dbg ac tk addr future w = Some (Inr handoff, v) \<and> io_admitted addr w v \<and>
        io_send tk (handoff_sender handoff) \<lparr>user_future = future, future_guard = addr\<rparr> (io_outside v) = (sent, x) \<and>
        (if sent then w' = v\<lparr>io_outside := x\<rparr>
         else io_released addr (v\<lparr>io_outside := future_drop tk future x\<rparr>) w') \<and>
        h = \<lparr>join_handle = handoff_handle handoff\<rparr>)"

text \<open>
  C13: The future client keeps its future until it is admitted. The same holds of the loop
  over the IO service, whose client also takes its one-shot release sender, once, in the first
  refused attempt: the very future is back in the variable after every refusal, and the
  service that admits it takes it into the payload of the task whose handle the loop awaits.
\<close>
theorem future_kept_until_admitted:
  assumes "\<forall>(_, _, v) \<in> set refused. \<not> io_submission_lock (io_state v) \<and> io_admission_error ac v = Some Saturated"
    and "List.length refused < 2 ^ 31" and "\<forall>(_, receiving, _) \<in> set (take 1 refused). receiving"
    and "counts_atomically ac" and "io_ready ac w"
  shows "retry_loop (future_attempt dbg ac tk) (client_main future) refused =
      Some (TurnAwaitsChange, refused_main True future (List.length refused), map (snd \<circ> snd) refused) \<and>
    (io_admission_error ac w = Some Shutdown \<longrightarrow>
      retry_loop (future_attempt dbg ac tk) (client_main future) (refused @ [(addr, receiving, w)]) =
        Some (TurnReturnsErr, refused_main True future (List.length refused), map (snd \<circ> snd) refused @ [w])) \<and>
    (io_admission_error ac w = None \<and> io_registrations w addr = None \<longrightarrow>
      (\<exists>h w'. future_accepted dbg ac tk addr future w h w' \<and>
        retry_loop (future_attempt dbg ac tk) (client_main future) (refused @ [(addr, receiving, w)]) =
          (if List.length refused = 1
           then Some (TurnBreaks h, (refused_main True future 1)\<lparr>retry_task := None\<rparr>, map (snd \<circ> snd) refused @ [w'])
           else None)))"
proof -
  note run = future.after_refusals [OF assms(1-3), where dbg = dbg and tk = tk and task = future]
  have "\<not> io_submission_lock (io_state w)" using assms(5) by (simp add: io_ready_def)
  moreover have "\<exists>h w'. future_accepted dbg ac tk addr future w h w' \<and>
      try_spawn dbg ac tk addr future w = Some (Inr h, w')"
    if "io_admission_error ac w = None" "io_registrations w addr = None"
    using try_spawn_accepts [OF assms(4,5) that, of dbg tk future] unfolding future_accepted_def by blast
  ultimately show ?thesis using run by blast
qed

lemma demo_io_held_saturated: "io_admission_error word_count demo_io_held = Some Saturated"
proof -
  obtain h v where "prepare_spawn True word_count demo_io_ops 16 1 demo_io_new = Some (Inr h, v)"
    and v: "io_admitted 16 demo_io_new v"
    by (rule prepare_spawn_accepts [OF word_count_ok demo_io_new_facts(1-3), where dbg = True
          and tk = demo_io_ops and addr = 16 and future = 1])
  then have "v = demo_io_held" by (simp add: demo_io_held_def)
  with v have "io_task_capacity (io_state demo_io_held) = 1" "\<not> io_is_not_running (io_state demo_io_held)"
    by (simp_all add: io_admitted_def io_is_not_running_def io_state_with_task_capacity_def demo_io_new_def io_new_def)
  moreover have "unat (ac_get word_count (active_tasks (io_state demo_io_held))) = 1"
    using io_accountedD(2) [OF io_ready_open(1) [OF demo_io_held_facts(1)]] by (simp add: demo_io_held_facts(2))
  ultimately show ?thesis by (simp add: io_admission_error_def word_le_nat_alt)
qed

theorem future_kept_until_admitted_witness:
  "\<exists>w'. retry_loop (future_attempt True word_count demo_io_ops) (client_main 1)
     [(32, True, demo_io_held), (32, False, demo_io_new)] =
   Some (TurnBreaks \<lparr>join_handle = 0\<rparr>, (refused_main True 1 1)\<lparr>retry_task := None\<rparr>, [demo_io_held, w'])"
proof -
  have "prepare_spawn True word_count demo_io_ops 32 1 demo_io_new = Some (Inr handoff, v) \<Longrightarrow> handoff_handle handoff = 0" for handoff v
    by (auto simp: prepare_spawn_def demo_io_ops_def handoff_new_def io_on_outside_def Let_def split: bind_splits sum.splits if_splits)
  with future_kept_until_admitted [of "[(32, True, demo_io_held)]" word_count demo_io_new True demo_io_ops 1 32 False]
    demo_io_held_saturated demo_io_held_facts(1) demo_io_new_facts(1-3) word_count_ok
  show ?thesis by (auto simp: future_accepted_def io_ready_def simp del: retry_loop.simps)
qed

end
