(* ===== verification/Reentrant_Wakers.thy ===== *)
theory Reentrant_Wakers
  imports Blocking_Handle
begin

text \<open>
  Code that reenters the service. \<^verbatim>\<open>send_modify\<close>, \<^verbatim>\<open>notify_waiters\<close> and the cancellation of
  a result slot run the wakers registered with them on the notifying thread; tasks and
  destructors run there too; and all of them may call back into the service. The crate therefore
  publishes every change after it has released its locks, with one exception: the abort handle
  that \<^verbatim>\<open>remove_abort_handle\<close> takes out of the map is dropped under the lock of the map, and its
  hook may hold the last reference to a result slot. Here the operations take the code they run
  as an argument; with code that does nothing they are the operations of \<open>Blocking_State\<close>,
  \<open>Task_Guard\<close> and \<open>Blocking_Service\<close>. Theory \<open>Reentrant_Claims\<close> has the code that may reenter.
\<close>

type_synonym ('r, 'x) waker = "('r, 'x) service \<Rightarrow> ('r, 'x) service option"

section \<open>The lock of the abort handles\<close>

text \<open>
  A call runs on one thread, so whether that thread holds the lock is known at each point of
  it: \<open>held\<close> is an argument of every operation that may take the lock, and \<open>code held\<close> is what
  the thread runs while it does or does not hold it. The lock is not reentrant.
\<close>

type_synonym ('r, 'x) reentrant_code = "bool \<Rightarrow> ('r, 'x) waker"

definition lock_abort_handles :: "bool \<Rightarrow> unit option" where
  "lock_abort_handles held = (if held then None else Some ())"

text \<open>
  The destructor of a tracked handle. A hook that owns a reference to a slot may own the last
  one; then the slot is destroyed, which may publish a result and run its wakers.
\<close>

definition drop_tracked ::
  "('r, 'x) waker \<Rightarrow> ('r, 'r cancel_hook) TrackedAbortHandle \<Rightarrow> ('r, 'x) waker" where
  "drop_tracked waker tracked w =
     (case cancel tracked of FinishQueuedOnce k \<Rightarrow> Some w | CancelSlotIfQueued slot k \<Rightarrow> waker w)"

definition remove_abort_handle_waking ::
  "bool \<Rightarrow> ('r, 'x) reentrant_code \<Rightarrow> usize \<Rightarrow> ('r, 'x) waker" where
  "remove_abort_handle_waking held code mk w = do {
     reg \<leftarrow> registrations w mk;
     let w = w\<lparr>registrations := (registrations w)(mk \<mapsto> finish reg)\<rparr>;
     _ \<leftarrow> lock_abort_handles held;
     let removed = abort_handles (state w) (key mk);
     let w = w\<lparr>state := (state w)\<lparr>abort_handles := (abort_handles (state w))(key mk := None)\<rparr>\<rparr>;
     case removed of Some tracked \<Rightarrow> drop_tracked (code True) tracked w | None \<Rightarrow> Some w
   }"

definition spawn_accepted_waking ::
  "bool \<Rightarrow> ('r, 't, 'x) tokio_ops \<Rightarrow> bool \<Rightarrow> usize \<Rightarrow> 'r cancel_hook \<Rightarrow> ('r, 'x) service
   \<Rightarrow> (('r \<times> 'r) \<times> ('r, 'x) service) option" where
  "spawn_accepted_waking dbg tk held mk hook w = do {
     let ((sender, receiver), w) = on_outside (oneshot_channel tk) w;
     let (join_handle, w) = on_outside (spawn_blocking tk receiver) w;
     let abort_handle = abort_handle_of tk join_handle;
     _ \<leftarrow> lock_abort_handles held;
     w \<leftarrow> register_abort_handle dbg (abort_is_finished tk) mk abort_handle hook w;
     let w = map_state unlock_submission w;
     Some ((abort_handle, sender), w)
   }"

section \<open>The operations with their wakers\<close>

definition publish_waking :: "('r, 'x) waker \<Rightarrow> ('r, 'x) service \<Rightarrow> ('r, 'x) service option" where
  "publish_waking waker w = waker (map_state notify_capacity_changed w)"

definition notify_terminated_waking :: "('r, 'x) waker \<Rightarrow> ('r, 'x) service \<Rightarrow> ('r, 'x) service option" where
  "notify_terminated_waking waker w = waker (map_state notify_termination_waiters w)"

definition notify_if_terminated_waking :: "('r, 'x) waker \<Rightarrow> ('r, 'x) service \<Rightarrow> ('r, 'x) service option" where
  "notify_if_terminated_waking waker w =
     (let terminated = is_not_running (state w) \<and> is_empty (task_counts (state w))
      in if terminated then notify_terminated_waking waker w else Some w)"

definition finish_task_waking ::
  "bool \<Rightarrow> ('r, 'x) waker \<Rightarrow> bool \<Rightarrow> ('r, 'x) service \<Rightarrow> ('r, 'x) service option" where
  "finish_task_waking dbg waker started w = do {
     (terminated, s) \<leftarrow> finish_task_section dbg started (state w);
     w \<leftarrow> publish_waking waker (w\<lparr>state := s\<rparr>);
     if terminated then notify_terminated_waking waker w else Some w
   }"

definition finish_queued_waking ::
  "bool \<Rightarrow> ('r, 'x) waker \<Rightarrow> usize \<Rightarrow> ('r, 'x) service \<Rightarrow> (bool \<times> ('r, 'x) service) option" where
  "finish_queued_waking dbg waker k w = do {
     t \<leftarrow> trackers w k;
     case compare_exchange (task_state t) TASK_STATE_QUEUED TASK_STATE_FINISHED of
       (Inr _, v) \<Rightarrow> do {
         w \<leftarrow> finish_task_waking dbg waker False (w\<lparr>trackers := (trackers w)(k \<mapsto> t\<lparr>task_state := v\<rparr>)\<rparr>);
         Some (True, w)
       }
     | (Inl _, _) \<Rightarrow> Some (False, w)
   }"

definition cancel_queued_waking ::
  "bool \<Rightarrow> bool \<Rightarrow> ('r, 'x) reentrant_code \<Rightarrow> usize \<Rightarrow> ('r, 'x) service
   \<Rightarrow> (bool \<times> ('r, 'x) service) option" where
  "cancel_queued_waking dbg held code k w = do {
     t \<leftarrow> trackers w k;
     w \<leftarrow> remove_abort_handle_waking held code (marker t) w;
     finish_queued_waking dbg (code held) k w
   }"

definition tracker_finish_waking ::
  "bool \<Rightarrow> ('r, 'x) waker \<Rightarrow> usize \<Rightarrow> ('r, 'x) service \<Rightarrow> ('r, 'x) service option" where
  "tracker_finish_waking dbg waker k w = do {
     t \<leftarrow> trackers w k;
     let (previous, v) = swap (task_state t) TASK_STATE_FINISHED;
     let w = w\<lparr>trackers := (trackers w)(k \<mapsto> t\<lparr>task_state := v\<rparr>)\<rparr>;
     if previous = TASK_STATE_QUEUED then finish_task_waking dbg waker False w
     else if previous = TASK_STATE_RUNNING then finish_task_waking dbg waker True w
     else Some w
   }"

definition guard_drop_waking ::
  "bool \<Rightarrow> bool \<Rightarrow> ('r, 'x) reentrant_code \<Rightarrow> usize \<Rightarrow> ('r, 'x) waker" where
  "guard_drop_waking dbg held code k w = do {
     t \<leftarrow> trackers w k;
     w \<leftarrow> remove_abort_handle_waking held code (marker t) w;
     tracker_finish_waking dbg (code held) k w
   }"

text \<open>
  A hook is dropped when its call ends, after it has cancelled its slot, if it has.
\<close>

definition call_hook_waking ::
  "bool \<Rightarrow> ('r, 't, 'x) tokio_ops \<Rightarrow> ('r, 'x) waker \<Rightarrow> 'r cancel_hook \<Rightarrow> ('r, 'x) service
   \<Rightarrow> (bool \<times> ('r, 'x) service) option" where
  "call_hook_waking dbg tk waker hook w =
     (case hook of
        FinishQueuedOnce k \<Rightarrow> finish_queued_waking dbg waker k w
      | CancelSlotIfQueued slot k \<Rightarrow> do {
          (won, w) \<leftarrow> finish_queued_waking dbg waker k w;
          let w = (if won then snd (on_outside (slot_cell_cancel_unstarted tk slot) w) else w);
          w \<leftarrow> waker w;
          Some (won, w)
        })"

text \<open>\<^verbatim>\<open>abort_tracked_tasks\<close> takes the map out of the lock before it visits the entries.\<close>

fun abort_loop_waking ::
  "bool \<Rightarrow> ('r, 't, 'x) tokio_ops \<Rightarrow> ('r, 'x) waker
   \<Rightarrow> (usize \<times> ('r, 'r cancel_hook) TrackedAbortHandle) list \<Rightarrow> usize
   \<Rightarrow> ('r, 'x) service \<Rightarrow> (usize \<times> ('r, 'x) service) option" where
  "abort_loop_waking dbg tk waker [] cancellation_count w = Some (cancellation_count, w)"
| "abort_loop_waking dbg tk waker ((k, tracked) # handles) cancellation_count w =
     (if \<not> abort_is_finished tk (handle tracked) (outside w) then do {
        let w = w\<lparr>outside := abort_request tk (handle tracked) (outside w)\<rparr>;
        (cancelled, w) \<leftarrow> call_hook_waking dbg tk waker (cancel tracked) w;
        n \<leftarrow> (if cancelled then add_assign dbg cancellation_count 1 else Some cancellation_count);
        abort_loop_waking dbg tk waker handles n w
      } else do {
        w \<leftarrow> drop_tracked waker tracked w;
        abort_loop_waking dbg tk waker handles cancellation_count w
      })"

definition abort_tracked_waking ::
  "bool \<Rightarrow> ('r, 't, 'x) tokio_ops
   \<Rightarrow> ((usize \<rightharpoonup> ('r, 'r cancel_hook) TrackedAbortHandle)
        \<Rightarrow> (usize \<times> ('r, 'r cancel_hook) TrackedAbortHandle) list)
   \<Rightarrow> bool \<Rightarrow> ('r, 'x) reentrant_code \<Rightarrow> ('r, 'x) service \<Rightarrow> (usize \<times> ('r, 'x) service) option" where
  "abort_tracked_waking dbg tk iter held code w = do {
     _ \<leftarrow> lock_abort_handles held;
     let handles = abort_handles (state w);
     let w = w\<lparr>state := (state w)\<lparr>abort_handles := Map.empty\<rparr>\<rparr>;
     abort_loop_waking dbg tk (code held) (iter handles) 0 w
   }"

text \<open>
  The user's code runs on the same threads: a task may call its service, and so may the
  destructor of one that is dropped unrun.
\<close>

definition run_received_waking ::
  "bool \<Rightarrow> ('r, 't, 'x) tokio_ops \<Rightarrow> bool \<Rightarrow> ('r, 'x) reentrant_code \<Rightarrow> ('t, 'r) task_closure \<Rightarrow> usize
   \<Rightarrow> ('r, 'x) waker" where
  "run_received_waking dbg tk held code task guard w = do {
     (started, w) \<leftarrow> guard_mark_started dbg guard w;
     if started then do {
       w \<leftarrow> code held (w\<lparr>outside := run_closure tk task (outside w)\<rparr>);
       guard_drop_waking dbg held code guard w
     } else do {
       w \<leftarrow> guard_drop_waking dbg held code guard w;
       code held (w\<lparr>outside := closure_drop tk task (outside w)\<rparr>)
     }
   }"

definition deliver_payload_waking ::
  "bool \<Rightarrow> ('r, 't, 'x) tokio_ops \<Rightarrow> bool \<Rightarrow> ('r, 'x) reentrant_code \<Rightarrow> 'r \<Rightarrow> ('t, 'r) task_closure \<Rightarrow> usize
   \<Rightarrow> ('r, 'x) waker" where
  "deliver_payload_waking dbg tk held code sender task guard w =
     (let (sent, w) = on_outside (oneshot_send tk sender (task, guard)) w
      in if sent then Some w
         else do {
           w \<leftarrow> code held (w\<lparr>outside := closure_drop tk task (outside w)\<rparr>);
           guard_drop_waking dbg held code guard w
         })"

definition try_submit_waking ::
  "bool \<Rightarrow> ('r, 't, 'x) tokio_ops \<Rightarrow> bool \<Rightarrow> ('r, 'x) reentrant_code \<Rightarrow> usize \<Rightarrow> 't \<Rightarrow> ('r, 'x) service
   \<Rightarrow> (('t RejectedTask + unit) \<times> ('r, 'x) service) option" where
  "try_submit_waking dbg tk held code addr task w = do {
     (prepared, w) \<leftarrow> prepare_blocking_submission dbg addr w;
     case prepared of
       Inl why \<Rightarrow> Some (Inl (rejected_new why task), w)
     | Inr mk \<Rightarrow> do {
         ((_, sender), w) \<leftarrow> spawn_accepted_waking dbg tk held mk (FinishQueuedOnce mk) w;
         w \<leftarrow> deliver_payload_waking dbg tk held code sender (RunRunnable task) mk w;
         Some (Inr (), w)
       }
   }"

definition try_submit_callable_waking ::
  "bool \<Rightarrow> ('r, 't, 'x) tokio_ops \<Rightarrow> bool \<Rightarrow> ('r, 'x) reentrant_code \<Rightarrow> usize \<Rightarrow> 't \<Rightarrow> ('r, 'x) service
   \<Rightarrow> (('t RejectedTask + 'r) \<times> ('r, 'x) service) option" where
  "try_submit_callable_waking dbg tk held code addr task w = do {
     (prepared, w) \<leftarrow> prepare_blocking_submission dbg addr w;
     case prepared of
       Inl why \<Rightarrow> Some (Inl (rejected_new why task), w)
     | Inr mk \<Rightarrow> do {
         let ((result_handle, completion), w) = on_outside (endpoint_parts tk) w;
         let w = w\<lparr>outside := slot_accept tk completion (outside w)\<rparr>;
         let (cell, w) = on_outside (share_task_slot (slot_cell_new tk) completion) w;
         ((_, sender), w) \<leftarrow> spawn_accepted_waking dbg tk held mk (CancelSlotIfQueued cell mk) w;
         w \<leftarrow> deliver_payload_waking dbg tk held code sender (RunCallable task cell) mk w;
         Some (Inr result_handle, w)
       }
   }"

definition shutdown_waking :: "('r, 'x) waker \<Rightarrow> ('r, 'x) service \<Rightarrow> ('r, 'x) service option" where
  "shutdown_waking waker w = do {
     s \<leftarrow> lock_submission (state w);
     let w = w\<lparr>state := unlock_submission (state_shutdown s)\<rparr>;
     w \<leftarrow> publish_waking waker w;
     notify_if_terminated_waking waker w
   }"

definition stop_waking ::
  "bool \<Rightarrow> ('r, 't, 'x) tokio_ops
   \<Rightarrow> ((usize \<rightharpoonup> ('r, 'r cancel_hook) TrackedAbortHandle)
        \<Rightarrow> (usize \<times> ('r, 'r cancel_hook) TrackedAbortHandle) list)
   \<Rightarrow> bool \<Rightarrow> ('r, 'x) reentrant_code \<Rightarrow> ('r, 'x) service \<Rightarrow> (StopReport \<times> ('r, 'x) service) option" where
  "stop_waking dbg tk iter held code w = do {
     s \<leftarrow> lock_submission (state w);
     let s = state_stop s;
     let (queued_count, running_count) = task_count_snapshot s;
     let w = w\<lparr>state := unlock_submission s\<rparr>;
     (cancellation_count, w) \<leftarrow> abort_tracked_waking dbg tk iter held code w;
     w \<leftarrow> publish_waking (code held) w;
     w \<leftarrow> notify_if_terminated_waking (code held) w;
     Some (\<lparr>report_queued = queued_count, report_running = running_count,
            report_cancelled = cancellation_count\<rparr>, w)
   }"

section \<open>Without wakers, the operations are the plain ones\<close>

lemma publish_quiet [simp]: "publish_waking Some w = Some (map_state notify_capacity_changed w)"
  by (simp add: publish_waking_def)

lemma notify_if_terminated_quiet [simp]:
  "notify_if_terminated_waking Some w = Some (map_state notify_if_terminated w)"
  by (simp add: notify_if_terminated_waking_def notify_terminated_waking_def map_state_def
      notify_if_terminated_def Let_def)

lemma finish_task_quiet:
  "finish_task_waking dbg Some started w = map_option (\<lambda>s. w\<lparr>state := s\<rparr>) (finish_task dbg started (state w))"
  by (cases "finish_task_section dbg started (state w)")
    (auto simp: finish_task_waking_def finish_task_def notify_terminated_waking_def map_state_def)

lemma finish_queued_quiet: "finish_queued_waking dbg Some k w = tracker_finish_queued dbg k w"
  by (cases "trackers w k")
    (auto simp: finish_queued_waking_def tracker_finish_queued_def finish_task_quiet compare_exchange_def
      Let_def map_option_case split: option.splits)

lemma call_hook_quiet: "call_hook_waking dbg tk Some hook w = call_hook dbg tk hook w"
  by (cases hook; cases "tracker_finish_queued dbg (hook_target hook) w")
    (auto simp: call_hook_waking_def call_hook_def finish_queued_quiet finish_queued_once_callback_def
      cancel_unstarted_task_slot_if_queued_def split_beta Let_def)

lemma tracker_finish_quiet: "tracker_finish_waking dbg Some k w = tracker_finish dbg k w"
  by (cases "trackers w k")
    (auto simp: tracker_finish_waking_def tracker_finish_def finish_task_quiet Let_def map_option_case
      split: option.splits prod.splits)

lemma drop_tracked_quiet [simp]: "drop_tracked Some tracked w = Some w"
  by (simp add: drop_tracked_def split: cancel_hook.splits)

text \<open>Code that does nothing, run by a thread that does not hold the lock.\<close>

abbreviation quiet_code :: "('r, 'x) reentrant_code" where
  "quiet_code \<equiv> \<lambda>held. Some"

lemma remove_quiet: "remove_abort_handle_waking False quiet_code mk w = remove_abort_handle mk w"
  by (cases "registrations w mk"; cases "abort_handles (state w) (key mk)")
    (simp_all add: remove_abort_handle_waking_def remove_abort_handle_def lock_abort_handles_def Let_def)

lemma spawn_quiet: "spawn_accepted_waking dbg tk False mk hook w = spawn_accepted_blocking_task dbg tk mk hook w"
  by (simp add: spawn_accepted_waking_def spawn_accepted_blocking_task_def lock_abort_handles_def)

lemma abort_loop_quiet:
  "abort_loop_waking dbg tk Some hs n w =
   abort_loop dbg (abort_is_finished tk) (abort_request tk) (call_hook dbg tk) hs n w"
proof (induction hs arbitrary: n w)
  case (Cons e hs)
  then show ?case by (cases e) (simp add: call_hook_quiet)
qed simp

lemma guard_drop_quiet: "guard_drop_waking dbg False quiet_code k w = guard_drop dbg k w"
  by (simp add: guard_drop_waking_def guard_drop_def tracker_finish_quiet remove_quiet)

lemma cancel_queued_quiet: "cancel_queued_waking dbg False quiet_code k w = tracker_cancel_queued dbg k w"
  by (simp add: cancel_queued_waking_def tracker_cancel_queued_def finish_queued_quiet remove_quiet)

lemma run_received_quiet: "run_received_waking dbg tk False quiet_code task k w = run_received dbg tk task k w"
  by (simp add: run_received_waking_def run_received_def guard_drop_quiet cong: if_cong)

lemma deliver_quiet:
  "deliver_payload_waking dbg tk False quiet_code sender task k w = deliver_payload dbg tk sender task k w"
  by (simp add: deliver_payload_waking_def deliver_payload_def guard_drop_quiet split_beta Let_def cong: if_cong)

lemma try_submit_quiet:
  "try_submit_waking dbg tk False quiet_code addr task w = try_submit dbg tk addr task w"
  "try_submit_callable_waking dbg tk False quiet_code addr task w = try_submit_callable dbg tk addr task w"
proof -
  have deliver: "deliver_payload_waking dbg tk False quiet_code = deliver_payload dbg tk"
    by (intro ext) (rule deliver_quiet)
  have spawn: "spawn_accepted_waking dbg tk False = spawn_accepted_blocking_task dbg tk"
    by (intro ext) (rule spawn_quiet)
  show "try_submit_waking dbg tk False quiet_code addr task w = try_submit dbg tk addr task w"
    unfolding try_submit_waking_def try_submit_def deliver spawn ..
  show "try_submit_callable_waking dbg tk False quiet_code addr task w = try_submit_callable dbg tk addr task w"
    unfolding try_submit_callable_waking_def try_submit_callable_def deliver spawn ..
qed

text \<open>So a service whose wakers do nothing behaves as \<open>Blocking_Service\<close> says.\<close>

lemma shutdown_quiet: "shutdown_waking Some w = shutdown w"
  by (cases "lock_submission (state w)") (simp_all add: shutdown_waking_def shutdown_def map_state_def Let_def)

lemma stop_quiet: "stop_waking dbg tk iter False quiet_code w = stop dbg tk iter w"
  by (simp add: stop_waking_def stop_def abort_tracked_waking_def abort_tracked_tasks_def lock_abort_handles_def
      abort_loop_quiet Let_def)

end
