(* ===== verification/Waker_Contract.thy ===== *)
theory Waker_Contract
  imports Main
begin

text \<open>
  The contract of a waker: an operation on a service that is in order (\<open>ok\<close>) returns, and what
  it has done to the service is allowed (\<open>keeps\<close>). A service that runs its wakers in such
  states only can rely on them, and its own calls may then be wakers in their turn.
\<close>

definition keeping :: "('s \<Rightarrow> bool) \<Rightarrow> ('s \<Rightarrow> 's \<Rightarrow> bool) \<Rightarrow> ('s \<Rightarrow> 's option) \<Rightarrow> bool" where
  "keeping ok keeps f \<longleftrightarrow> (\<forall>w. ok w \<longrightarrow> (\<exists>w'. f w = Some w' \<and> keeps w w'))"

lemma keepingI: "(\<And>w. ok w \<Longrightarrow> \<exists>w'. f w = Some w' \<and> keeps w w') \<Longrightarrow> keeping ok keeps f"
  by (simp add: keeping_def)

lemma keeping_observing:
  "keeping ok keeps f \<Longrightarrow> keeping ok keeps g \<Longrightarrow> keeping ok keeps (\<lambda>w. if b w then f w else g w)"
  by (simp add: keeping_def)

lemma map_snd_call:
  "\<exists>r w'. c = Some (r, w') \<and> keeps w w' \<Longrightarrow> \<exists>w'. map_option snd c = Some w' \<and> keeps w w'"
  by auto

locale waker_contract =
  fixes ok :: "'s \<Rightarrow> bool" and keeps :: "'s \<Rightarrow> 's \<Rightarrow> bool"
  assumes keeps_refl: "ok w \<Longrightarrow> keeps w w"
    and keeps_ok: "keeps w w' \<Longrightarrow> ok w'"
    and keeps_trans: "keeps u v \<Longrightarrow> keeps v w \<Longrightarrow> keeps u w"
begin

lemma nothing: "keeping ok keeps Some"
  by (rule keepingI) (simp add: keeps_refl)

lemma after:
  assumes "keeping ok keeps f" and "keeps u v"
  obtains w where "f v = Some w" "keeps u w"
  using assms keeps_ok keeps_trans unfolding keeping_def by blast

lemma both:
  assumes "keeping ok keeps f" and "keeping ok keeps g"
  shows "keeping ok keeps (\<lambda>w. Option.bind (f w) g)"
proof (rule keepingI)
  fix w assume "ok w"
  from after [OF assms(1) keeps_refl [OF this]] obtain v where v: "f w = Some v" "keeps w v" .
  from after [OF assms(2) v(2)] v(1) show "\<exists>w'. Option.bind (f w) g = Some w' \<and> keeps w w'" by fastforce
qed

text \<open>A call made only in some states keeps the contract if it does in those.\<close>

lemma guarded_call:
  assumes "ok w" and "b \<Longrightarrow> \<exists>w'. c = Some w' \<and> keeps w w'"
  shows "\<exists>w'. (if b then c else Some w) = Some w' \<and> keeps w w'"
  using assms keeps_refl by (cases b) simp_all

lemma changing:
  assumes "\<And>w. ok w \<Longrightarrow> keeps w (h w)"
  shows "keeping ok keeps (\<lambda>w. Some (h w))"
  by (rule keepingI) (simp add: assms)

end

end
