(* ===== verification/Reentrant_Safety.thy ===== *)
theory Reentrant_Safety
  imports Reentrant_Wakers Waker_Contract
begin

text \<open>
  What an operation keeps when the code it runs keeps it: the notifications, the end of a task,
  the drop of a guard, a worker, submission, shutdown and stop, called by a thread that does not
  hold the lock of the abort handles. The code run under that lock and the code run without it
  satisfy one contract, \<open>carries_on\<close>.
\<close>

section \<open>The contract\<close>

text \<open>
  \<open>carries_on w w'\<close>: the service is left ready, with its capacity and its tasks, and what has
  finished (a task, a registration) stays finished. A closed service stays closed, gets no task and no abort handle, has
  no further task queued, and a stop is not taken back.
\<close>

definition forward :: "('r, 'x) service \<Rightarrow> ('r, 'x) service \<Rightarrow> bool" where
  "forward w w' \<longleftrightarrow> (\<forall>k t. trackers w k = Some t \<longrightarrow> (\<exists>t'. trackers w' k = Some t' \<and>
     (task_state t = TASK_STATE_FINISHED \<longrightarrow> task_state t' = TASK_STATE_FINISHED))) \<and>
     (\<forall>k. registrations w k = Some \<lparr>finished = True\<rparr> \<longrightarrow> registrations w' k = Some \<lparr>finished = True\<rparr>)"

definition stays_closed :: "('r, 'x) service \<Rightarrow> ('r, 'x) service \<Rightarrow> bool" where
  "stays_closed w w' \<longleftrightarrow> is_not_running (state w') \<and> dom (trackers w') = dom (trackers w) \<and>
     dom (abort_handles (state w')) \<subseteq> dom (abort_handles (state w)) \<and>
     phase_count TASK_STATE_QUEUED w' \<le> phase_count TASK_STATE_QUEUED w \<and>
     (load (lifecycle_byte (state w)) = Stopping \<longrightarrow> load (lifecycle_byte (state w')) = Stopping)"

definition carries_on :: "('r, 'x) service \<Rightarrow> ('r, 'x) service \<Rightarrow> bool" where
  "carries_on w w' \<longleftrightarrow> ready w' \<and> task_capacity (state w') = task_capacity (state w) \<and> forward w w' \<and>
     (is_not_running (state w) \<longrightarrow> stays_closed w w')"

lemma forward_refl: "forward w w"
  by (simp add: forward_def)

lemma forward_trans: "forward u v \<Longrightarrow> forward v w \<Longrightarrow> forward u w"
  unfolding forward_def by meson

lemma stays_closed_trans: "stays_closed u v \<Longrightarrow> stays_closed v w \<Longrightarrow> stays_closed u w"
  by (simp only: stays_closed_def) (blast intro: order_trans)

lemma carries_onD:
  assumes "carries_on w w'"
  shows "ready w'" "task_capacity (state w') = task_capacity (state w)" "forward w w'"
    "is_not_running (state w) \<Longrightarrow> stays_closed w w'"
  using assms by (simp_all only: carries_on_def simp_thms)

lemma carries_refl: "ready w \<Longrightarrow> carries_on w w"
  by (simp add: carries_on_def forward_refl stays_closed_def)

lemma carries_trans [trans]:
  assumes "carries_on u v" and "carries_on v w"
  shows "carries_on u w"
proof -
  have "stays_closed u w" if "is_not_running (state u)"
  proof -
    note uv = carries_onD(4) [OF assms(1) that]
    then have "is_not_running (state v)" by (simp only: stays_closed_def)
    from stays_closed_trans [OF uv carries_onD(4) [OF assms(2) this]] show ?thesis .
  qed
  with assms show ?thesis
    using forward_trans [OF carries_onD(3) [OF assms(1)] carries_onD(3) [OF assms(2)]]
    by (simp only: carries_on_def) blast
qed

abbreviation waker_safe :: "('r, 'x) waker \<Rightarrow> bool" where
  "waker_safe \<equiv> keeping ready carries_on"

interpretation service_wakers: waker_contract ready carries_on
  by unfold_locales (rule carries_refl carries_onD(1) carries_trans; assumption)+

definition done_in :: "usize \<Rightarrow> ('r, 'x) service \<Rightarrow> bool" where
  "done_in k w \<longleftrightarrow> (\<exists>t. trackers w k = Some t \<and> task_state t = TASK_STATE_FINISHED)"

lemma done_forward: "done_in k w \<Longrightarrow> forward w w' \<Longrightarrow> done_in k w'"
  unfolding done_in_def forward_def by blast

lemma forward_dom: "forward w w' \<Longrightarrow> dom (trackers w) \<subseteq> dom (trackers w')"
  unfolding forward_def by blast

text \<open>Changes to what is not accounted for.\<close>

lemma carries_frame:
  assumes "carries_on u w" and "trackers w' = trackers w" and "registrations w' = registrations w"
    and "task_counts (state w') = task_counts (state w)" and "same_core (state w) (state w')"
  shows "carries_on u w'"
proof -
  note w = carries_onD(1) [OF assms(1)] and core = assms(5) [unfolded same_core_def]
  have "service_inv w'"
    by (rule service_inv_frame [OF ready_inv(1) [OF w]]) (use core assms(2-4) in blast)+
  then have "ready w'" using w core by (simp only: ready_def) blast
  moreover have "is_not_running (state w') = is_not_running (state w)" using core by (simp only: is_not_running_def)
  moreover have "phase_count TASK_STATE_QUEUED w' = phase_count TASK_STATE_QUEUED w"
    using assms(2) by (simp only: phase_count_def)
  ultimately show ?thesis
    using assms(1-3) core by (simp only: carries_on_def stays_closed_def forward_def) blast
qed

lemma outside_carries: "carries_on u w \<Longrightarrow> carries_on u (w\<lparr>outside := x\<rparr>)"
  by (rule carries_frame) (simp_all add: same_core_def)

section \<open>Notifications\<close>

lemma publish_safe:
  assumes "waker_safe f" and "carries_on u w"
  obtains w' where "publish_waking f w = Some w'" "carries_on u w'"
proof -
  have "carries_on u (map_state notify_capacity_changed w)"
    by (rule carries_frame [OF assms(2)]) (simp_all add: map_state_def)
  from service_wakers.after [OF assms(1) this] that show ?thesis unfolding publish_waking_def by blast
qed

lemma notify_terminated_safe:
  assumes "waker_safe f" and "carries_on u w"
  obtains w' where "notify_terminated_waking f w = Some w'" "carries_on u w'"
proof -
  have "carries_on u (map_state notify_termination_waiters w)"
    by (rule carries_frame [OF assms(2)]) (simp_all add: map_state_def)
  from service_wakers.after [OF assms(1) this] that show ?thesis unfolding notify_terminated_waking_def by blast
qed

lemma notify_if_terminated_safe:
  assumes "waker_safe f" and "carries_on u w"
  obtains w' where "notify_if_terminated_waking f w = Some w'" "carries_on u w'"
proof (cases "is_not_running (state w) \<and> is_empty (task_counts (state w))")
  case True
  from notify_terminated_safe [OF assms] that True show ?thesis
    by (simp add: notify_if_terminated_waking_def Let_def) blast
next
  case False
  have "notify_if_terminated_waking f w = Some w"
    by (simp only: notify_if_terminated_waking_def Let_def False if_False)
  from that [OF this assms(2)] show ?thesis .
qed

section \<open>The end of a task\<close>

text \<open>
  The tracker has moved to finished and its abort handle is not tracked: when the wakers
  run, the service is in order.
\<close>

lemma finish_task_safe:
  assumes f: "waker_safe f" and w: "ready w" and t: "trackers w k = Some t"
    and free: "abort_handles (state w) k = None"
    and st: "task_state t = (if started then TASK_STATE_RUNNING else TASK_STATE_QUEUED)"
  obtains w' where "finish_task_waking dbg f started
      (w\<lparr>trackers := (trackers w)(k \<mapsto> t\<lparr>task_state := TASK_STATE_FINISHED\<rparr>)\<rparr>) = Some w'"
    "carries_on w w'" "done_in k w'"
    "is_not_running (state w) \<longrightarrow>
      phase_count TASK_STATE_QUEUED w' + of_bool (\<not> started) \<le> phase_count TASK_STATE_QUEUED w"
proof -
  note inv = ready_inv(1) [OF w]
  note acc = service_invD(1) [OF inv]
  let ?t = "t\<lparr>task_state := TASK_STATE_FINISHED\<rparr>"
  obtain s where s: "finish_task dbg started (state w) = Some s" "same_core (state w) s"
    "accounted (w\<lparr>trackers := (trackers w)(k \<mapsto> ?t), state := s\<rparr>)"
    by (rule finish_counted [OF acc t st])
  then obtain terminated v where v: "finish_task_section dbg started (state w) = Some (terminated, v)"
    by (auto simp: finish_task_def split: bind_splits)
  then obtain c where c: "counts_finish_task dbg started (task_counts (state w)) = Some c"
    "v = (state w)\<lparr>task_counts := c\<rparr>"
    by (auto simp: finish_task_section_def split: bind_splits)
  from finish_task_frame [OF c(1)] s(1) have tc: "task_counts s = c" by auto
  let ?v = "w\<lparr>trackers := (trackers w)(k \<mapsto> ?t), state := v\<rparr>"
  have "accounted ?v"
    by (rule accounted_frame [OF s(3)]) (use s(2) tc c(2) in \<open>simp_all add: same_core_def\<close>)
  moreover have "handle_ok ?v j a" if "abort_handles (state w) j = Some a" for j a
    using service_invD(3) [OF inv that] free that by (auto simp: handle_ok_def)
  ultimately have "service_inv ?v" using c(2) by (simp add: service_inv_def)
  then have "ready ?v" using w c(2) by (simp add: ready_def)
  have count: "phase_count TASK_STATE_QUEUED ?v + of_bool (\<not> started) = phase_count TASK_STATE_QUEUED w"
    using phase_count_upd [OF service_invD(2) [OF inv] t, where st = TASK_STATE_QUEUED and v = TASK_STATE_FINISHED and s = v] st
    by (simp split: if_splits)
  have "forward w ?v" "done_in k ?v" using t by (auto simp: forward_def done_in_def)
  have "is_not_running v = is_not_running (state w)" using c(2) by (simp only: is_not_running_updates)
  then have wv: "carries_on w ?v"
    using \<open>ready ?v\<close> \<open>forward w ?v\<close> c(2) t count
    by (auto simp: carries_on_def stays_closed_def simp del: load_Running_iff)
  have cv: "carries_on ?v ?v" by (rule carries_refl [OF \<open>ready ?v\<close>])
  obtain x where x: "publish_waking f ?v = Some x" "carries_on ?v x" by (rule publish_safe [OF f cv])
  obtain y where y: "(if terminated then notify_terminated_waking f x else Some x) = Some y" "carries_on ?v y"
    by (rule notify_terminated_safe [OF f x(2)], cases terminated) (use that x in auto)
  have run: "finish_task_waking dbg f started (w\<lparr>trackers := (trackers w)(k \<mapsto> ?t)\<rparr>) = Some y"
    using v x(1) y(1) by (simp add: finish_task_waking_def)
  have "phase_count TASK_STATE_QUEUED y + of_bool (\<not> started) \<le> phase_count TASK_STATE_QUEUED w"
    if "is_not_running (state w)"
  proof -
    have "is_not_running (state ?v)" using carries_onD(4) [OF wv that] by (simp only: stays_closed_def)
    from carries_onD(4) [OF y(2) this] count show ?thesis by (simp add: stays_closed_def)
  qed
  with that [OF run carries_trans [OF wv y(2)] done_forward [OF \<open>done_in k ?v\<close> carries_onD(3) [OF y(2)]]]
  show ?thesis by blast
qed

lemma finish_queued_safe:
  assumes f: "waker_safe f" and w: "ready w" and t: "trackers w k = Some t"
    and free: "abort_handles (state w) k = None"
  obtains w' where "finish_queued_waking dbg f k w = Some (task_state t = TASK_STATE_QUEUED, w')" "carries_on w w'"
    "task_state t = TASK_STATE_QUEUED \<longrightarrow> done_in k w'"
    "is_not_running (state w) \<longrightarrow> phase_count TASK_STATE_QUEUED w' + of_bool (task_state t = TASK_STATE_QUEUED)
      \<le> phase_count TASK_STATE_QUEUED w"
proof (cases "task_state t = TASK_STATE_QUEUED")
  case False
  then have "finish_queued_waking dbg f k w = Some (False, w)"
    using t by (simp add: finish_queued_waking_def compare_exchange_def)
  with False that [of w] carries_refl [OF w] show ?thesis by simp
next
  case True
  obtain w' where "finish_task_waking dbg f False
      (w\<lparr>trackers := (trackers w)(k \<mapsto> t\<lparr>task_state := TASK_STATE_FINISHED\<rparr>)\<rparr>) = Some w'"
    "carries_on w w'" "done_in k w'"
    "is_not_running (state w) \<longrightarrow> phase_count TASK_STATE_QUEUED w' + of_bool (\<not> False) \<le> phase_count TASK_STATE_QUEUED w"
    by (rule finish_task_safe [OF f w t free, of False dbg]) (use True in simp)
  with True t that [of w'] show ?thesis by (simp add: finish_queued_waking_def compare_exchange_def)
qed

lemma tracker_finish_safe:
  assumes f: "waker_safe f" and w: "ready w" and t: "trackers w k = Some t"
    and free: "abort_handles (state w) k = None"
  obtains w' where "tracker_finish_waking dbg f k w = Some w'" "carries_on w w'" "done_in k w'"
proof (cases "task_state t = TASK_STATE_FINISHED")
  case True
  then have "(trackers w)(k \<mapsto> t\<lparr>task_state := TASK_STATE_FINISHED\<rparr>) = trackers w"
    using trackers_same [OF t] by (metis tracker_same)
  then have "tracker_finish_waking dbg f k w = Some w"
    using t True by (simp add: tracker_finish_waking_def swap_def Let_def)
  with that [of w] carries_refl [OF w] True t show ?thesis by (simp add: done_in_def)
next
  case False
  let ?started = "task_state t = TASK_STATE_RUNNING"
  have st: "task_state t = (if ?started then TASK_STATE_RUNNING else TASK_STATE_QUEUED)"
    using False trackers_okD(3) [OF service_invD(2) [OF ready_inv(1) [OF w]] t] by auto
  obtain w' where "finish_task_waking dbg f ?started
      (w\<lparr>trackers := (trackers w)(k \<mapsto> t\<lparr>task_state := TASK_STATE_FINISHED\<rparr>)\<rparr>) = Some w'"
    "carries_on w w'" "done_in k w'"
    by (rule finish_task_safe [OF f w t free st, of dbg])
  moreover from this(1) st t have "tracker_finish_waking dbg f k w = Some w'"
    by (simp add: tracker_finish_waking_def swap_def Let_def split: if_splits)
  ultimately show ?thesis using that by blast
qed

lemma drop_tracked_safe:
  assumes "waker_safe f" and "ready w"
  obtains w' where "drop_tracked f a w = Some w'" "carries_on w w'"
proof (cases "cancel a")
  case (FinishQueuedOnce k)
  with that [of w] carries_refl [OF assms(2)] show ?thesis by (simp add: drop_tracked_def)
next
  case (CancelSlotIfQueued slot k)
  from service_wakers.after [OF assms(1) carries_refl [OF assms(2)]] obtain w' where "f w = Some w'" "carries_on w w'" .
  with CancelSlotIfQueued that show ?thesis by (simp add: drop_tracked_def)
qed

text \<open>
  The registration is marked before the handle goes, so whatever the destructor of the handle
  does under the lock, no handle of the task is tracked afterwards.
\<close>

lemma finished_untracked:
  assumes "ready w" and "registrations w k = Some \<lparr>finished = True\<rparr>"
  shows "abort_handles (state w) k = None"
  using service_invD(3) [OF ready_inv(1) [OF assms(1)]] assms(2)
  by (cases "abort_handles (state w) k") (auto simp: handle_ok_def)

lemma remove_safe:
  assumes d: "waker_safe (code True)" and "carries_on u w" and "trackers w k = Some t"
  obtains w' t' where "remove_abort_handle_waking False code (marker t) w = Some w'" "carries_on u w'"
    "trackers w' k = Some t'" "abort_handles (state w') k = None"
proof -
  note ready = carries_onD(1) [OF assms(2)]
  note inv = ready_inv(1) [OF ready]
  note ok = trackers_okD(1,2) [OF service_invD(2) [OF inv] assms(3)]
  then obtain r where r: "registrations w k = Some r" by blast
  let ?w = "w\<lparr>registrations := (registrations w)(k \<mapsto> finish r),
    state := (state w)\<lparr>abort_handles := (abort_handles (state w))(k := None)\<rparr>\<rparr>"
  note removed = remove_abort_handle_spec [OF service_invD(1) [OF inv] r]
  have "service_inv ?w"
    using removed(2) service_invD(3) [OF inv] by (auto simp: service_inv_def handle_ok_def)
  then have ready': "ready ?w" using ready by (simp add: ready_def)
  have fin: "finish r = \<lparr>finished = True\<rparr>" by (cases r) (simp add: finish_def)
  have "carries_on w ?w"
    using ready' fin by (auto simp: carries_on_def stays_closed_def forward_def phase_count_def is_not_running_def
        simp del: load_Running_iff)
  note uw = carries_trans [OF assms(2) this]
  obtain x where x: "(case abort_handles (state w) k of Some a \<Rightarrow> drop_tracked (code True) a ?w | None \<Rightarrow> Some ?w) = Some x"
    "carries_on ?w x"
  proof (cases "abort_handles (state w) k")
    case None
    with that [of ?w] carries_refl [OF ready'] show ?thesis by simp
  next
    case (Some a)
    from drop_tracked_safe [OF d ready', of a] obtain x where "drop_tracked (code True) a ?w = Some x" "carries_on ?w x" .
    with Some that show ?thesis by simp
  qed
  have run: "remove_abort_handle_waking False code (marker t) w = Some x"
    using x(1) ok(1) r by (cases "abort_handles (state w) k")
      (simp_all add: remove_abort_handle_waking_def lock_abort_handles_def key_def Let_def)
  have "registrations x k = Some \<lparr>finished = True\<rparr>"
    using carries_onD(3) [OF x(2)] fin by (simp add: forward_def)
  note gone = finished_untracked [OF carries_onD(1) [OF x(2)] this]
  obtain t' where "trackers x k = Some t'"
    using carries_onD(3) [OF x(2)] assms(3) unfolding forward_def by fastforce
  from that [OF run carries_trans [OF uw x(2)] this gone] show ?thesis .
qed

lemma guard_drop_safe:
  assumes f: "waker_safe (code False)" and d: "waker_safe (code True)"
    and w: "ready w" and t: "trackers w k = Some t"
  obtains w' where "guard_drop_waking dbg False code k w = Some w'" "carries_on w w'" "done_in k w'"
proof -
  obtain v t' where v: "remove_abort_handle_waking False code (marker t) w = Some v" "carries_on w v"
    "trackers v k = Some t'" "abort_handles (state v) k = None"
    by (rule remove_safe [where code = code, OF d carries_refl [OF w] t])
  obtain w' where "tracker_finish_waking dbg (code False) k v = Some w'" "carries_on v w'" "done_in k w'"
    by (rule tracker_finish_safe [OF f carries_onD(1) [OF v(2)] v(3,4), of dbg])
  with v t carries_trans [OF v(2)] that show ?thesis by (simp add: guard_drop_waking_def)
qed

lemma cancel_queued_safe:
  assumes f: "waker_safe (code False)" and d: "waker_safe (code True)"
    and w: "ready w" and t: "trackers w k = Some t"
  obtains won w' where "cancel_queued_waking dbg False code k w = Some (won, w')" "carries_on w w'"
    "won \<longrightarrow> done_in k w'"
proof -
  obtain v t' where v: "remove_abort_handle_waking False code (marker t) w = Some v" "carries_on w v"
    "trackers v k = Some t'" "abort_handles (state v) k = None"
    by (rule remove_safe [where code = code, OF d carries_refl [OF w] t])
  obtain w' where "finish_queued_waking dbg (code False) k v = Some (task_state t' = TASK_STATE_QUEUED, w')" "carries_on v w'"
    "task_state t' = TASK_STATE_QUEUED \<longrightarrow> done_in k w'"
    by (rule finish_queued_safe [OF f carries_onD(1) [OF v(2)] v(3,4), of dbg])
  with v t carries_trans [OF v(2)] that show ?thesis by (simp add: cancel_queued_waking_def)
qed

section \<open>A worker\<close>

lemma mark_started_safe:
  assumes w: "ready w" and t: "trackers w k = Some t"
  obtains v where "guard_mark_started dbg k w = Some (task_state t \<noteq> TASK_STATE_FINISHED, v)" "carries_on w v"
    "k \<in> dom (trackers v)"
proof -
  obtain v where v: "guard_mark_started dbg k w = Some (task_state t \<noteq> TASK_STATE_FINISHED, v)" "ready v"
    "trackers v = (trackers w)(k \<mapsto> t\<lparr>task_state :=
       if task_state t = TASK_STATE_QUEUED then TASK_STATE_RUNNING else task_state t\<rparr>)"
    "only_accounting w v"
    by (rule mark_started_ready [OF w t, of dbg])
  have "phase_count TASK_STATE_QUEUED v \<le> phase_count TASK_STATE_QUEUED w"
    using phase_count_eq [OF service_invD(1) [OF ready_inv(1) [OF w]] t v(3), of TASK_STATE_QUEUED]
    by (auto split: if_splits)
  then have "carries_on w v"
    using v(2-4) t by (auto simp: carries_on_def stays_closed_def forward_def only_accounting_def same_core_def
        is_not_running_def simp del: load_Running_iff)
  with v(1,3) that show ?thesis by auto
qed

lemma run_received_safe:
  assumes f: "waker_safe (code False)" and d: "waker_safe (code True)"
    and w: "ready w" and t: "trackers w k = Some t"
  obtains w' where "run_received_waking dbg tk False code task k w = Some w'" "carries_on w w'" "done_in k w'"
proof -
  obtain v where v: "guard_mark_started dbg k w = Some (task_state t \<noteq> TASK_STATE_FINISHED, v)" "carries_on w v"
    "k \<in> dom (trackers v)" by (rule mark_started_safe [OF w t, of dbg])
  show ?thesis
  proof (cases "task_state t = TASK_STATE_FINISHED")
    case False
    let ?v = "v\<lparr>outside := run_closure tk task (outside v)\<rparr>"
    obtain x where x: "code False ?v = Some x" "carries_on w x"
      by (rule service_wakers.after [OF f outside_carries [OF v(2)]])
    have "carries_on v ?v" by (rule outside_carries [OF carries_refl [OF carries_onD(1) [OF v(2)]]])
    from service_wakers.after [OF f this] x(1) have "carries_on v x" by fastforce
    then obtain u where u: "trackers x k = Some u" using v(3) forward_dom [OF carries_onD(3)] by blast
    obtain w' where "guard_drop_waking dbg False code k x = Some w'" "carries_on x w'" "done_in k w'"
      by (rule guard_drop_safe [where code = code, OF f d carries_onD(1) [OF x(2)] u, of dbg])
    with v(1) x False that [of w'] carries_trans [OF x(2)] show ?thesis by (simp add: run_received_waking_def)
  next
    case True
    from v(3) obtain u where u: "trackers v k = Some u" by blast
    obtain x where x: "guard_drop_waking dbg False code k v = Some x" "carries_on v x" "done_in k x"
      by (rule guard_drop_safe [where code = code, OF f d carries_onD(1) [OF v(2)] u, of dbg])
    let ?x = "x\<lparr>outside := closure_drop tk task (outside x)\<rparr>"
    have "carries_on x ?x" by (rule outside_carries [OF carries_refl [OF carries_onD(1) [OF x(2)]]])
    from service_wakers.after [OF f this] obtain w' where w': "code False ?x = Some w'" "carries_on x w'" .
    with v(1) x True that [of w'] carries_trans [OF v(2) carries_trans [OF x(2) w'(2)]]
      done_forward [OF x(3) carries_onD(3) [OF w'(2)]]
    show ?thesis by (simp add: run_received_waking_def)
  qed
qed

section \<open>Submission\<close>

lemma deliver_safe:
  assumes f: "waker_safe (code False)" and lock: "waker_safe (code True)"
    and w: "carries_on w v" and k: "k \<in> dom (trackers v)"
  obtains w' where "deliver_payload_waking dbg tk False code sender task k v = Some w'" "carries_on w w'"
proof -
  obtain sent d where d: "on_outside (oneshot_send tk sender (task, k)) v = (sent, d)"
    by (metis prod.exhaust)
  then obtain x where x: "d = v\<lparr>outside := x\<rparr>" by (auto simp: on_outside_def split_beta)
  show ?thesis
  proof (cases sent)
    case True
    with d x that [of d] outside_carries [OF w] show ?thesis by (simp add: deliver_payload_waking_def)
  next
    case False
    let ?e = "d\<lparr>outside := closure_drop tk task (outside d)\<rparr>"
    have "carries_on v ?e"
      using x outside_carries [OF outside_carries [OF carries_refl [OF carries_onD(1) [OF w]]]] by simp
    from service_wakers.after [OF f this] obtain y where y: "code False ?e = Some y" "carries_on v y" .
    then obtain t where t: "trackers y k = Some t" using k forward_dom [OF carries_onD(3)] by blast
    obtain w' where "guard_drop_waking dbg False code k y = Some w'" "carries_on y w'"
      by (rule guard_drop_safe [where code = code, OF f lock carries_onD(1) [OF y(2)] t, of dbg])
    with d False y that [of w'] carries_trans [OF w carries_trans [OF y(2)]] show ?thesis
      by (simp add: deliver_payload_waking_def)
  qed
qed

lemma spawn_held: "spawn_accepted_waking dbg tk False = spawn_accepted_blocking_task dbg tk"
  by (intro ext) (rule spawn_quiet)

lemma spawned_safe:
  assumes f: "waker_safe (code False)" and d: "waker_safe (code True)"
    and w: "ready w" "\<not> is_not_running (state w)" "registrations w addr = None"
    and prep: "prepared_from addr w v" and hook: "hook_target hook = addr"
  shows "\<exists>ah sender v1 w'. spawn_accepted_waking dbg tk False addr hook v = Some ((ah, sender), v1) \<and>
    deliver_payload_waking dbg tk False code sender task addr v1 = Some w' \<and> carries_on w w'"
proof -
  obtain ah sender v1 where spawn:
    "spawn_accepted_waking dbg tk False addr hook v = Some ((ah, sender), v1)" "spawned_from addr v v1"
    unfolding spawn_held by (rule spawn_prepared [OF prep hook])
  have "trackers w addr = None"
    using service_invD(2) [OF ready_inv(1) [OF w(1)]] w(3) by (auto simp: trackers_ok_def)
  then have "forward w v1" "addr \<in> dom (trackers v1)"
    using spawn(2) prep w(3) by (auto simp: forward_def spawned_from_def prepared_from_def)
  moreover have "ready v1" "task_capacity (state v1) = task_capacity (state w)"
    using spawn(2) prep by (simp_all only: spawned_from_def prepared_from_def ready_def simp_thms)
  ultimately have "carries_on w v1" using w(2) by (simp only: carries_on_def) blast
  then obtain w' where "deliver_payload_waking dbg tk False code sender task addr v1 = Some w'" "carries_on w w'"
    by (rule deliver_safe [where code = code, OF f d _ \<open>addr \<in> _\<close>, of w dbg tk sender task])
  with spawn(1) show ?thesis by simp
qed

lemma try_submit_safe:
  assumes f: "waker_safe (code False)" and d: "waker_safe (code True)"
    and w: "ready w" and fresh: "registrations w addr = None"
  shows "\<exists>r w'. try_submit_waking dbg tk False code addr task w = Some (r, w') \<and> carries_on w w'"
    and "\<exists>r w'. try_submit_callable_waking dbg tk False code addr task w = Some (r, w') \<and> carries_on w w'"
proof -
  have "(\<exists>r w'. try_submit_waking dbg tk False code addr task w = Some (r, w') \<and> carries_on w w') \<and>
    (\<exists>r w'. try_submit_callable_waking dbg tk False code addr task w = Some (r, w') \<and> carries_on w w')"
  proof (cases "admission_error w")
    case (Some e)
    from prepare_rejects [OF w this] carries_refl [OF w] show ?thesis
      by (simp add: try_submit_waking_def try_submit_callable_waking_def)
  next
    case None
    then have run: "\<not> is_not_running (state w)" by (auto simp: admission_error_def)
    obtain v where v: "prepare_blocking_submission dbg addr w = Some (Inr addr, v)" "prepared_from addr w v"
      by (rule prepare_admits [OF w None fresh])
    obtain h completion a where a: "on_outside (endpoint_parts tk) v = ((h, completion), a)"
      by (metis prod.exhaust)
    let ?a = "a\<lparr>outside := slot_accept tk completion (outside a)\<rparr>"
    obtain cell b where b: "on_outside (share_task_slot (slot_cell_new tk) completion) ?a = (cell, b)"
      by (metis prod.exhaust)
    have pb: "prepared_from addr w b"
      using v(2) a b by (blast intro: prepared_from_on_outside prepared_from_outside)
    obtain ah1 sender1 v1 w1 where "spawn_accepted_waking dbg tk False addr (FinishQueuedOnce addr) v = Some ((ah1, sender1), v1)"
      "deliver_payload_waking dbg tk False code sender1 (RunRunnable task) addr v1 = Some w1" "carries_on w w1"
      using spawned_safe [where code = code, OF f d w run fresh v(2) hook_target.simps(1), of dbg tk "RunRunnable task"] by blast
    with v(1) have "try_submit_waking dbg tk False code addr task w = Some (Inr (), w1)" "carries_on w w1"
      by (simp_all add: try_submit_waking_def)
    moreover obtain ah2 sender2 v2 w2 where
      "spawn_accepted_waking dbg tk False addr (CancelSlotIfQueued cell addr) b = Some ((ah2, sender2), v2)"
      "deliver_payload_waking dbg tk False code sender2 (RunCallable task cell) addr v2 = Some w2" "carries_on w w2"
      using spawned_safe [where code = code, OF f d w run fresh pb hook_target.simps(2), of dbg tk cell "RunCallable task cell"] by blast
    with v(1) a b have "try_submit_callable_waking dbg tk False code addr task w = Some (Inr h, w2)" "carries_on w w2"
      by (simp_all add: try_submit_callable_waking_def Let_def)
    ultimately show ?thesis by blast
  qed
  then show "\<exists>r w'. try_submit_waking dbg tk False code addr task w = Some (r, w') \<and> carries_on w w'"
    "\<exists>r w'. try_submit_callable_waking dbg tk False code addr task w = Some (r, w') \<and> carries_on w w'" by blast+
qed

section \<open>The closing calls\<close>

text \<open>The hooks run by a stop, whose abort handles the stop has taken out of the map.\<close>

lemma call_hook_safe:
  assumes f: "waker_safe f" and w: "ready w" and closed: "is_not_running (state w)"
    and k: "hook_target hook \<in> dom (trackers w)" and free: "abort_handles (state w) = Map.empty"
  obtains won w' where "call_hook_waking dbg tk f hook w = Some (won, w')" "carries_on w w'"
    "phase_count TASK_STATE_QUEUED w' + of_bool won \<le> phase_count TASK_STATE_QUEUED w"
proof -
  obtain t where t: "trackers w (hook_target hook) = Some t" using k by blast
  obtain v where v:
    "finish_queued_waking dbg f (hook_target hook) w = Some (task_state t = TASK_STATE_QUEUED, v)" "carries_on w v"
    "is_not_running (state w) \<longrightarrow> phase_count TASK_STATE_QUEUED v + of_bool (task_state t = TASK_STATE_QUEUED)
      \<le> phase_count TASK_STATE_QUEUED w"
    by (rule finish_queued_safe [OF f w t, of dbg]) (simp_all add: free)
  show ?thesis
  proof (cases hook)
    case (FinishQueuedOnce k)
    with v closed that show ?thesis by (simp add: call_hook_waking_def)
  next
    case (CancelSlotIfQueued slot k)
    let ?won = "task_state t = TASK_STATE_QUEUED"
    let ?v = "if ?won then snd (on_outside (slot_cell_cancel_unstarted tk slot) v) else v"
    have "carries_on v ?v"
      using outside_carries [OF carries_refl [OF carries_onD(1) [OF v(2)]]] carries_refl [OF carries_onD(1) [OF v(2)]]
      by (simp add: on_outside_def split_beta Let_def)
    from service_wakers.after [OF f this] obtain x where x: "f ?v = Some x" "carries_on v x" .
    have run: "call_hook_waking dbg tk f hook w = Some (?won, x)"
      using CancelSlotIfQueued v(1) x(1) by (simp add: call_hook_waking_def Let_def)
    have "is_not_running (state v)" using carries_onD(4) [OF v(2) closed] by (simp only: stays_closed_def)
    from carries_onD(4) [OF x(2) this] have "phase_count TASK_STATE_QUEUED x \<le> phase_count TASK_STATE_QUEUED v"
      by (simp only: stays_closed_def)
    with that [OF run carries_trans [OF v(2) x(2)]] v(3) closed show ?thesis by simp
  qed
qed

text \<open>Handles once gone from a closed service stay gone, so every turn finds the map empty.\<close>

lemma stays_closed_untracked:
  "stays_closed w w' \<Longrightarrow> abort_handles (state w) = Map.empty \<Longrightarrow> abort_handles (state w') = Map.empty"
  by (auto simp: stays_closed_def)

lemma abort_loop_safe:
  assumes "waker_safe f" and "ready w" and "is_not_running (state w)" and "abort_handles (state w) = Map.empty"
    and "\<forall>(k, a) \<in> set hs. hook_target (cancel a) \<in> dom (trackers w)"
    and "unat n + phase_count TASK_STATE_QUEUED w < 2 ^ 64"
  shows "\<exists>m w'. abort_loop_waking dbg tk f hs n w = Some (m, w') \<and>
    carries_on w w' \<and> unat m + phase_count TASK_STATE_QUEUED w' \<le> unat n + phase_count TASK_STATE_QUEUED w"
  using assms
proof (induction hs arbitrary: n w)
  case Nil
  then show ?case by (simp add: carries_refl)
next
  case (Cons e hs)
  obtain k a where e: "e = (k, a)" by force
  show ?case
  proof (cases "abort_is_finished tk (handle a) (outside w)")
    case True
    obtain v where v: "drop_tracked f a w = Some v" "carries_on w v"
      by (rule drop_tracked_safe [OF Cons.prems(1,2)])
    note closed = carries_onD(4) [OF v(2) Cons.prems(3)]
    have d: "dom (trackers v) = dom (trackers w)" "is_not_running (state v)"
      "phase_count TASK_STATE_QUEUED v \<le> phase_count TASK_STATE_QUEUED w"
      using closed by (simp_all only: stays_closed_def)
    have targets: "\<forall>(k, a) \<in> set hs. hook_target (cancel a) \<in> dom (trackers v)"
      using Cons.prems(5) d(1) by auto
    have room: "unat n + phase_count TASK_STATE_QUEUED v < 2 ^ 64" using d(3) Cons.prems(6) by linarith
    from Cons.IH [OF Cons.prems(1) carries_onD(1) [OF v(2)] d(2) stays_closed_untracked [OF closed Cons.prems(4)]
        targets room] obtain m w' where w':
      "abort_loop_waking dbg tk f hs n v = Some (m, w')" "carries_on v w'"
      "unat m + phase_count TASK_STATE_QUEUED w' \<le> unat n + phase_count TASK_STATE_QUEUED v" by blast
    have "abort_loop_waking dbg tk f (e # hs) n w = Some (m, w')" using True e v(1) w'(1) by simp
    with carries_trans [OF v(2) w'(2)] w'(3) d(3) show ?thesis by fastforce
  next
    case False
    let ?u = "w\<lparr>outside := abort_request tk (handle a) (outside w)\<rparr>"
    have u: "carries_on w ?u" by (rule outside_carries [OF carries_refl [OF Cons.prems(2)]])
    have "is_not_running (state ?u)" "hook_target (cancel a) \<in> dom (trackers ?u)"
      "abort_handles (state ?u) = Map.empty"
      using Cons.prems(3-5) e by auto
    from call_hook_safe [OF Cons.prems(1) carries_onD(1) [OF u] this, of dbg tk] obtain won v where v:
      "call_hook_waking dbg tk f (cancel a) ?u = Some (won, v)" "carries_on ?u v"
      "phase_count TASK_STATE_QUEUED v + of_bool won \<le> phase_count TASK_STATE_QUEUED ?u" .
    note wv = carries_trans [OF u v(2)] and closed = carries_onD(4) [OF carries_trans [OF u v(2)] Cons.prems(3)]
    let ?m = "if won then n + 1 else n"
    have m: "unat ?m + phase_count TASK_STATE_QUEUED v \<le> unat n + phase_count TASK_STATE_QUEUED w"
      and add: "(if won then add_assign dbg n 1 else Some n) = Some ?m"
      using v(3) Cons.prems(6) by (auto simp: unat_usize_add add_assign_fits)
    have d: "dom (trackers v) = dom (trackers w)" "is_not_running (state v)"
      using closed by (simp_all only: stays_closed_def)
    have targets: "\<forall>(k, a) \<in> set hs. hook_target (cancel a) \<in> dom (trackers v)"
      using Cons.prems(5) d(1) by auto
    have room: "unat ?m + phase_count TASK_STATE_QUEUED v < 2 ^ 64" using m Cons.prems(6) by linarith
    from Cons.IH [OF Cons.prems(1) carries_onD(1) [OF wv] d(2) stays_closed_untracked [OF closed Cons.prems(4)]
        targets room] obtain m' w' where w':
      "abort_loop_waking dbg tk f hs ?m v = Some (m', w')" "carries_on v w'"
      "unat m' + phase_count TASK_STATE_QUEUED w' \<le> unat ?m + phase_count TASK_STATE_QUEUED v" by blast
    have "abort_loop_waking dbg tk f (e # hs) n w = Some (m', w')"
      using False e v(1) add w'(1) by (simp add: Let_def)
    with carries_trans [OF wv w'(2)] w'(3) m show ?thesis by fastforce
  qed
qed

lemma close_store:
  assumes "ready w" and "load (lifecycle_byte s) \<noteq> Running" and "task_counts s = task_counts (state w)"
    and "task_capacity s = task_capacity (state w)" and "\<not> submission_lock s"
    and "abort_handles s = abort_handles (state w) \<or> abort_handles s = Map.empty"
    and "load (lifecycle_byte (state w)) = Stopping \<longrightarrow> load (lifecycle_byte s) = Stopping"
  shows "carries_on w (w\<lparr>state := s\<rparr>)" "is_not_running s"
proof -
  note inv = ready_inv(1) [OF assms(1)]
  have "accounted (w\<lparr>state := s\<rparr>)"
    by (rule accounted_frame [OF service_invD(1) [OF inv]]) (simp_all add: assms)
  then have "service_inv (w\<lparr>state := s\<rparr>)"
    using assms(6) service_invD(3) [OF inv] by (auto simp: service_inv_def handle_ok_def)
  with assms show "carries_on w (w\<lparr>state := s\<rparr>)" "is_not_running s"
    by (auto simp: carries_on_def forward_def stays_closed_def ready_def is_not_running_def simp del: load_Running_iff)
qed

lemma shutdown_safe:
  assumes f: "waker_safe f" and w: "ready w"
  obtains w' where "shutdown_waking f w = Some w'" "carries_on w w'" "is_not_running (state w')"
    "dom (trackers w') = dom (trackers w)"
proof -
  let ?s = "unlock_submission (state_shutdown ((state w)\<lparr>submission_lock := True\<rparr>))"
  let ?v = "w\<lparr>state := ?s\<rparr>"
  have s: "load (lifecycle_byte ?s) = (if load (lifecycle_byte (state w)) = Running then ShuttingDown
      else load (lifecycle_byte (state w)))"
    by (simp add: unlock_submission_def state_shutdown_def load_shutdown_bits del: load_Running_iff)
  have v: "carries_on w ?v" "is_not_running ?s"
    by (rule close_store [OF w, of ?s]; (simp only: s)?; simp add: unlock_submission_def state_shutdown_def)+
  obtain x where x: "publish_waking f ?v = Some x" "carries_on ?v x"
    by (rule publish_safe [OF f carries_refl [OF carries_onD(1) [OF v(1)]]])
  obtain y where y: "notify_if_terminated_waking f x = Some y" "carries_on ?v y"
    by (rule notify_if_terminated_safe [OF f x(2)])
  have run: "shutdown_waking f w = Some y"
    using w x(1) y(1) by (simp add: shutdown_waking_def lock_submission_def ready_def Let_def)
  have "stays_closed ?v y" using carries_onD(4) [OF y(2)] v(2) by simp
  then show ?thesis
    using that [OF run carries_trans [OF v(1) y(2)]] by (simp add: stays_closed_def)
qed

lemma stop_safe:
  assumes f: "waker_safe (code False)" and w: "ready w" and iter: "iterates iter"
  obtains rep w' where "stop_waking dbg tk iter False code w = Some (rep, w')" "carries_on w w'"
    "dom (trackers w') = dom (trackers w)" "load (lifecycle_byte (state w')) = Stopping"
    "report_queued rep = queued (task_counts (state w))" "report_cancelled rep \<le> report_queued rep"
proof -
  let ?s = "unlock_submission (state_stop ((state w)\<lparr>submission_lock := True\<rparr>))"
  let ?hs = "iter (abort_handles (state w))"
  let ?v = "w\<lparr>state := ?s\<lparr>abort_handles := Map.empty\<rparr>\<rparr>"
  have s: "load (lifecycle_byte ?s) = Stopping"
    by (simp add: unlock_submission_def state_stop_def stop_bits_def load_def del: as_u8.simps)
  have fields: "task_counts ?s = task_counts (state w)" "task_capacity ?s = task_capacity (state w)"
    "\<not> submission_lock ?s" "abort_handles ?s = abort_handles (state w)"
    by (simp_all add: unlock_submission_def state_stop_def)
  have v: "carries_on w ?v" "is_not_running (?s\<lparr>abort_handles := Map.empty\<rparr>)"
    by (rule close_store [OF w, of "?s\<lparr>abort_handles := Map.empty\<rparr>"]; simp add: s fields)+
  note inv = ready_inv(1) [OF w]
  have "finite (dom (abort_handles (state w)))"
    using finite_subset [OF _ trackers_ok_finite [OF service_invD(2) [OF inv]]] service_invD(3) [OF inv]
    by (fastforce simp: handle_ok_def)
  with iter have "map_of ?hs = abort_handles (state w)" "distinct (map fst ?hs)"
    unfolding iterates_def by blast+
  then have "abort_handles (state w) k = Some a" if "(k, a) \<in> set ?hs" for k a
    using that by (metis map_of_eq_Some_iff)
  then have targets: "\<forall>(k, a) \<in> set ?hs. hook_target (cancel a) \<in> dom (trackers ?v)"
    using service_invD(3) [OF inv] by (fastforce simp: handle_ok_def)
  have room: "unat (0 :: usize) + phase_count TASK_STATE_QUEUED ?v < 2 ^ 64"
    using ready_counts(1) [OF w] unat_usize_less [of "queued (task_counts (state w))"]
    by (simp add: phase_count_def)
  obtain n x where x:
    "abort_loop_waking dbg tk (code False) ?hs 0 ?v = Some (n, x)"
    "carries_on ?v x" "unat n + phase_count TASK_STATE_QUEUED x \<le> phase_count TASK_STATE_QUEUED ?v"
    using abort_loop_safe [OF f carries_onD(1) [OF v(1)] _ _ targets room, of dbg tk]
      v(2) by auto
  obtain y where y: "publish_waking (code False) x = Some y" "carries_on ?v y" by (rule publish_safe [OF f x(2)])
  obtain z where z: "notify_if_terminated_waking (code False) y = Some z" "carries_on ?v z"
    by (rule notify_if_terminated_safe [OF f y(2)])
  let ?rep = "\<lparr>report_queued = queued (task_counts (state w)), report_running = running (task_counts (state w)),
    report_cancelled = n\<rparr>"
  have run: "stop_waking dbg tk iter False code w = Some (?rep, z)"
    using w x(1) y(1) z(1) fields
    by (simp add: stop_waking_def lock_submission_def ready_def abort_tracked_waking_def lock_abort_handles_def task_count_snapshot_def
        Let_def) (simp add: state_stop_def)
  have "unat n \<le> unat (queued (task_counts (state w)))"
    using x(3) ready_counts(1) [OF w] by (simp add: phase_count_def)
  moreover have "stays_closed ?v z" using carries_onD(4) [OF z(2)] v(2) by simp
  then have "dom (trackers z) = dom (trackers w)" "load (lifecycle_byte (state z)) = Stopping"
    using s by (simp_all add: stays_closed_def)
  ultimately show ?thesis
    using that [OF run carries_trans [OF v(1) z(2)]] by (simp add: word_le_nat_alt)
qed

end
