(* ===== verification/Reentrant_Claims.thy ===== *)
theory Reentrant_Claims
  imports Reentrant_Safety
begin

text \<open>
  The code that may reenter the blocking service, and what its operations do under it.
\<close>

section \<open>Code that reenters\<close>



text \<open>
  Code run without it (wakers, a task, the destructor of a payload) may besides submit a task
  and have it accepted or refused, drop a payload, cancel a task and stop the service, and
  combine these as it observes the service, a guard against waking twice included. The calls
  it makes run such code in their turn, and code \<open>d\<close> wherever they take the lock. As on a real
  stack, the nesting is finite. A new marker is allocated at an address without one.
\<close>

definition run_as :: "('r, 'x) waker \<Rightarrow> ('r, 'x) waker \<Rightarrow> ('r, 'x) reentrant_code" where
  "run_as d f held = (if held then d else f)"

lemma run_as_simps [simp]: "run_as d f True = d" "run_as d f False = f"
  by (simp_all add: run_as_def)










section \<open>The property\<close>



end
