(* ===== verification/Io_Reentrant_Safety.thy ===== *)
theory Io_Reentrant_Safety
  imports Io_Reentrant_Wakers Waker_Contract
begin

text \<open>
  What an operation of the IO service keeps when its wakers keep it: the drop of a guard and
  of a future, a poll, submission, shutdown and stop, each with wakers that satisfy the
  contract \<open>io_stays\<close>.
\<close>

section \<open>What wakers keep\<close>

text \<open>
  The service stays ready with its capacity, a close or a stop is not taken back, and a
  registration that has finished is not opened again. The guards of \<open>own\<close> belong to the
  wakers; every other registration that is open stays so.
\<close>

definition io_stays ::
  "'n atomic_count \<Rightarrow> usize set \<Rightarrow> ('n, 'r, 'x) io_world \<Rightarrow> ('n, 'r, 'x) io_world \<Rightarrow> bool" where
  "io_stays ac own w w' \<longleftrightarrow> io_ready ac w' \<and>
     io_task_capacity (io_state w') = io_task_capacity (io_state w) \<and>
     dom (io_registrations w) \<subseteq> dom (io_registrations w') \<and>
     open_registrations w' \<inter> dom (io_registrations w) \<subseteq> open_registrations w \<and>
     open_registrations w - own \<subseteq> open_registrations w' \<and>
     (io_is_not_running (io_state w) \<longrightarrow> io_is_not_running (io_state w')) \<and>
     (load (io_lifecycle_byte (io_state w)) = Stopping \<longrightarrow> load (io_lifecycle_byte (io_state w')) = Stopping)"

abbreviation io_waker_safe :: "'n atomic_count \<Rightarrow> usize set \<Rightarrow> ('n, 'r, 'x) io_waker \<Rightarrow> bool" where
  "io_waker_safe ac own \<equiv> keeping (io_ready ac) (io_stays ac own)"

lemma io_stays_refl: "io_ready ac w \<Longrightarrow> io_stays ac own w w"
  by (simp add: io_stays_def)

lemma io_stays_ready: "io_stays ac own w w' \<Longrightarrow> io_ready ac w'"
  by (simp add: io_stays_def)

lemma io_stays_trans [trans]: "io_stays ac own u v \<Longrightarrow> io_stays ac own v w \<Longrightarrow> io_stays ac own u w"
  by (simp only: io_stays_def) blast

interpretation io_wakers: waker_contract "io_ready ac" "io_stays ac own" for ac own
  by unfold_locales (rule io_stays_refl io_stays_ready io_stays_trans; assumption)+

lemma io_stays_mono: "io_stays ac own w w' \<Longrightarrow> own \<subseteq> own' \<Longrightarrow> io_stays ac own' w w'"
  by (simp only: io_stays_def) blast

lemma io_stays_fresh: "io_stays ac (insert k own) w w' \<Longrightarrow> k \<notin> open_registrations w \<Longrightarrow> io_stays ac own w w'"
  by (simp only: io_stays_def) blast

lemma io_stays_open: "io_stays ac own w w' \<Longrightarrow> k \<in> open_registrations w \<Longrightarrow> k \<notin> own \<Longrightarrow> k \<in> open_registrations w'"
  by (simp only: io_stays_def) blast

text \<open>Changes to what is not accounted for.\<close>

lemma io_stays_frame:
  assumes "io_stays ac own u w" and "io_registrations w' = io_registrations w"
    and "active_tasks (io_state w') = active_tasks (io_state w)"
    and "io_task_capacity (io_state w') = io_task_capacity (io_state w)"
    and "io_submission_lock (io_state w') = io_submission_lock (io_state w)"
    and "io_abort_handles (io_state w') = io_abort_handles (io_state w)"
    and "io_lifecycle_byte (io_state w') = io_lifecycle_byte (io_state w)"
  shows "io_stays ac own u w'"
proof -
  have op: "open_registrations w' = open_registrations w" using assms(2) by (simp add: open_registrations_def)
  then have "io_ready ac w' = io_ready ac w"
    by (simp only: io_ready_def io_accounted_def assms(2-7))
  with assms(1) show ?thesis by (simp only: io_stays_def io_is_not_running_def op assms(2-7)) blast
qed

lemma io_notifications_safe:
  assumes f: "io_waker_safe ac own f" and w: "io_stays ac own u w"
  shows "\<exists>v w'. io_publish_waking f w = Some v \<and> io_notify_waking f v = Some w' \<and> io_stays ac own u w'"
proof -
  have "io_stays ac own u (io_map_state io_notify_capacity_changed w)"
    by (rule io_stays_frame [OF w]) (simp_all add: io_map_state_def io_notify_capacity_changed_def)
  from io_wakers.after [OF f this] obtain v where
    v: "f (io_map_state io_notify_capacity_changed w) = Some v" "io_stays ac own u v" .
  have "io_stays ac own u (io_map_state io_notify_termination_waiters v)"
    by (rule io_stays_frame [OF v(2)]) (simp_all add: io_map_state_def io_notify_termination_waiters_def)
  from io_wakers.after [OF f this] v(1) show ?thesis
    unfolding io_publish_waking_def io_notify_waking_def by fastforce
qed

section \<open>The drop of a guard\<close>

lemma io_release_stays:
  assumes ac: "counts_atomically ac" and w: "io_ready ac w" and k: "k \<in> open_registrations w"
  obtains v where "\<And>f. io_guard_drop_waking ac f k w = do { x \<leftarrow> io_publish_waking f v; io_notify_waking f x }"
    "io_stays ac {k} w v" "k \<notin> open_registrations v" "k \<in> dom (io_registrations v)"
proof -
  obtain w' where w': "io_guard_drop ac k w = Some w'" "io_accounted ac w'" "io_released k w w'"
    using io_guard_drop_releases [OF ac _ k] w by (auto simp: io_ready_def)
  then obtain a n where a: "io_remove_abort_handle k w = Some a" "ac_dec ac (active_tasks (io_state a)) = Some n"
    by (auto simp: io_guard_drop_def split: bind_splits)
  let ?v = "io_map_state (\<lambda>s. s\<lparr>active_tasks := n\<rparr>) a"
  have eq: "w' = io_map_state io_notify_termination_waiters (io_map_state io_notify_capacity_changed ?v)"
    using w'(1) a by (simp add: io_guard_drop_def)
  then have same: "io_registrations w' = io_registrations ?v" "open_registrations w' = open_registrations ?v"
    "io_lifecycle_byte (io_state w') = io_lifecycle_byte (io_state ?v)"
    "io_submission_lock (io_state w') = io_submission_lock (io_state ?v)"
    "io_task_capacity (io_state w') = io_task_capacity (io_state ?v)"
    by (simp_all add: io_map_state_def io_notify_termination_waiters_def io_notify_capacity_changed_def
        open_registrations_def)
  have "io_accounted ac ?v"
    using w'(2) unfolding eq io_accounted_def
    by (simp add: io_map_state_def io_notify_termination_waiters_def io_notify_capacity_changed_def)
  moreover obtain r where "io_registrations ?v = (io_registrations w)(k \<mapsto> r)"
    using a(1) by (auto simp: io_remove_abort_handle_def io_map_state_def split: bind_splits)
  moreover note io_releasedD [OF w'(3)]
  ultimately have "io_stays ac {k} w ?v" "k \<notin> open_registrations ?v" "k \<in> dom (io_registrations ?v)"
    using w same by (auto simp: io_stays_def io_ready_def io_is_not_running_def)
  moreover have "io_guard_drop_waking ac f k w = do { x \<leftarrow> io_publish_waking f ?v; io_notify_waking f x }" for f
    using a by (simp add: io_guard_drop_waking_def)
  ultimately show ?thesis using that by blast
qed

lemma io_guard_drop_safe:
  assumes "counts_atomically ac" and "io_waker_safe ac own f" and "io_ready ac w" and "k \<in> open_registrations w"
  obtains w' where "io_guard_drop_waking ac f k w = Some w'" "io_stays ac (insert k own) w w'"
    "k \<notin> open_registrations w'"
proof -
  obtain v where v: "\<And>f. io_guard_drop_waking ac f k w = do { x \<leftarrow> io_publish_waking f v; io_notify_waking f x }"
    "io_stays ac {k} w v" "k \<notin> open_registrations v" "k \<in> dom (io_registrations v)"
    by (rule io_release_stays [OF assms(1,3,4)]) blast
  obtain x w' where w': "io_publish_waking f v = Some x" "io_notify_waking f x = Some w'" "io_stays ac own v w'"
    using io_notifications_safe [OF assms(2) io_stays_refl [OF io_stays_ready [OF v(2)]]] by blast
  have "k \<notin> open_registrations w'" using w'(3) v(3,4) by (auto simp: io_stays_def)
  moreover have "io_stays ac (insert k own) w w'"
    by (rule io_stays_trans [OF io_stays_mono [OF v(2)] io_stays_mono [OF w'(3)]]) auto
  ultimately show ?thesis using v(1) w'(1,2) by (intro that) simp_all
qed

lemma outside_stays: "io_stays ac own u w \<Longrightarrow> io_stays ac own u (w\<lparr>io_outside := x\<rparr>)"
  by (rule io_stays_frame) simp_all

text \<open>A future that its wakers do not own is destroyed, then its registration released.\<close>

lemma guarded_drop_safe:
  assumes "counts_atomically ac" and f: "io_waker_safe ac own f" and w: "io_stays ac own u w"
    and "future_guard g \<in> open_registrations w" and "future_guard g \<notin> own"
  obtains w' where "guarded_drop_waking ac tk f g w = Some w'" "io_stays ac (insert (future_guard g) own) u w'"
    "future_guard g \<notin> open_registrations w'"
proof -
  let ?w = "w\<lparr>io_outside := future_drop tk (user_future g) (io_outside w)\<rparr>"
  have "io_stays ac own w ?w" by (rule outside_stays [OF io_stays_refl [OF io_stays_ready [OF w]]])
  from io_wakers.after [OF f this] obtain y where y: "f ?w = Some y" "io_stays ac own w y" .
  note uy = io_stays_trans [OF w y(2)]
  obtain w' where w': "io_guard_drop_waking ac f (future_guard g) y = Some w'"
    "io_stays ac (insert (future_guard g) own) y w'" "future_guard g \<notin> open_registrations w'"
    by (rule io_guard_drop_safe [OF assms(1) f io_stays_ready [OF y(2)] io_stays_open [OF y(2) assms(4,5)]])
  have "io_stays ac (insert (future_guard g) own) u w'"
    by (rule io_stays_trans [OF io_stays_mono [OF uy] w'(2)]) blast
  with w' y(1) show ?thesis by (intro that) (simp_all add: guarded_drop_waking_def io_at_outside_def)
qed

lemma poll_future_safe:
  assumes ac: "counts_atomically ac" and f: "io_waker_safe ac own f" and w: "io_ready ac w"
    and k: "future_guard g \<in> open_registrations w" "future_guard g \<notin> own"
  obtains polled task w' where "poll_future_waking ac tk f g w = Some (polled, task, w')"
    "io_stays ac (insert (future_guard g) own) w w'"
    "if polled = Some Pending then task = AwaitFuture g else future_guard g \<notin> open_registrations w'"
proof -
  obtain polled x where x: "io_on_outside (guarded_poll tk g) w = (polled, w\<lparr>io_outside := x\<rparr>)"
    by (auto simp: io_on_outside_def split_beta)
  from io_wakers.after [OF f outside_stays [OF io_stays_refl [OF w]]] obtain y where
    y: "f (w\<lparr>io_outside := x\<rparr>) = Some y" "io_stays ac own w y" .
  show ?thesis
  proof (cases "polled = Some Pending")
    case True
    from io_stays_mono [OF y(2)] have "io_stays ac (insert (future_guard g) own) w y" by blast
    with that [of polled "AwaitFuture g" y] x y(1) True show ?thesis by (simp add: poll_future_waking_def)
  next
    case False
    obtain w' where "guarded_drop_waking ac tk f g y = Some w'" "io_stays ac (insert (future_guard g) own) w w'"
      "future_guard g \<notin> open_registrations w'"
      by (rule guarded_drop_safe [OF ac f y(2) io_stays_open [OF y(2) k] k(2)])
    with that [of polled TaskReturned w'] x y(1) False show ?thesis by (simp add: poll_future_waking_def)
  qed
qed

section \<open>Submission\<close>

lemma prepare_spawn_registrations:
  "prepare_spawn dbg ac tk addr future w = Some (prepared, w') \<Longrightarrow> dom (io_registrations w) \<subseteq> dom (io_registrations w')"
  by (auto simp: prepare_spawn_def io_on_outside_eq io_register_abort_handle_def io_map_state_def Let_def split_beta
      split: bind_splits if_splits)

lemma try_spawn_safe:
  assumes ac: "counts_atomically ac" and f: "io_waker_safe ac own f" and w: "io_ready ac w"
    and fresh: "io_registrations w addr = None" and notown: "addr \<notin> own"
  shows "\<exists>r w'. try_spawn_waking dbg ac tk f addr future w = Some (r, w') \<and> io_stays ac own w w'"
proof (cases "io_admission_error ac w")
  case (Some e)
  have "prepare_spawn dbg ac tk addr future w = Some (Inl (e, future), w)"
    using prepare_spawn_rejects [of w ac e] w Some by (simp add: io_ready_def)
  then show ?thesis using w by (simp add: try_spawn_waking_def io_stays_refl)
next
  case None
  obtain handoff v where v: "prepare_spawn dbg ac tk addr future w = Some (Inr handoff, v)"
    "handoff_guard handoff = addr" "io_admitted addr w v" "io_ready ac v"
    by (rule prepare_spawn_accepts [OF ac w None fresh, of dbg tk future])
  have wv: "io_stays ac own w v"
    using v(3,4) prepare_spawn_registrations [OF v(1)] fresh
    by (auto simp: io_stays_def io_admitted_def io_is_not_running_def open_registrations_def)
  define p where "p = guarded_new (handoff_future handoff) (handoff_guard handoff)"
  obtain sent x where s: "io_send tk (handoff_sender handoff) p (io_outside v) = (sent, x)" by force
  let ?x = "v\<lparr>io_outside := x\<rparr>"
  note wx = outside_stays [OF wv, of x]
  have p: "future_guard p = addr" "addr \<in> open_registrations ?x"
    using v(2,3) by (simp_all add: p_def guarded_new_def io_admitted_def)
  obtain w' where w': "guarded_drop_waking ac tk f p ?x = Some w'" "io_stays ac (insert addr own) w w'"
    by (rule guarded_drop_safe [OF ac f wx, of p tk]) (use p notown in auto)
  have "io_stays ac own w w'"
    by (rule io_stays_fresh [OF w'(2)]) (use fresh in \<open>simp add: open_registrations_def\<close>)
  moreover have "try_spawn_waking dbg ac tk f addr future w =
      Some (Inr (task_handle_new (handoff_handle handoff)), if sent then ?x else w')"
    using v(1) s w'(1) by (simp add: try_spawn_waking_def deliver_waking_def io_on_outside_def flip: p_def)
  ultimately show ?thesis using wx by simp
qed

section \<open>The closing calls\<close>

lemma io_close_stays:
  assumes "io_ready ac w" and "load b \<noteq> Running"
    and "load (io_lifecycle_byte (io_state w)) = Stopping \<longrightarrow> load b = Stopping"
    and "handles = io_abort_handles (io_state w) \<or> handles = Map.empty"
  shows "io_stays ac own w (w\<lparr>io_state := (io_state w)\<lparr>io_lifecycle_byte := b, io_abort_handles := handles\<rparr>, io_outside := x\<rparr>)"
  using assms by (auto simp: io_stays_def io_ready_def io_accounted_def io_is_not_running_def)

lemma io_shutdown_safe:
  assumes f: "io_waker_safe ac own f" and w: "io_ready ac w"
  obtains w' where "io_shutdown_waking f w = Some w'" "io_stays ac own w w'" "io_is_not_running (io_state w')"
proof -
  let ?b = "shutdown_bits (io_lifecycle_byte (io_state w))"
  let ?v = "w\<lparr>io_state := (io_state w)\<lparr>io_lifecycle_byte := ?b, io_abort_handles := io_abort_handles (io_state w)\<rparr>,
    io_outside := io_outside w\<rparr>"
  have v: "io_stays ac own w ?v"
    by (rule io_close_stays [OF w]) (simp_all add: load_shutdown_bits del: load_Running_iff)
  obtain x w' where w': "io_publish_waking f ?v = Some x" "io_notify_waking f x = Some w'" "io_stays ac own ?v w'"
    using io_notifications_safe [OF f io_stays_refl [OF io_stays_ready [OF v]]] by blast
  have free: "\<not> io_submission_lock (io_state w)" using w by (simp add: io_ready_def)
  have "w\<lparr>io_state := io_unlock_submission (io_state_shutdown ((io_state w)\<lparr>io_submission_lock := True\<rparr>))\<rparr> = ?v"
    using free by (cases w, cases "io_state w") (simp add: io_unlock_submission_def io_state_shutdown_def)
  then have "io_shutdown_waking f w = Some w'"
    using w'(1,2) io_lock_unlock [OF free] by (simp add: io_shutdown_waking_def Let_def)
  moreover have "io_is_not_running (io_state ?v)"
    by (simp add: io_is_not_running_def load_shutdown_bits del: load_Running_iff)
  ultimately show ?thesis using that io_stays_trans [OF v w'(3)] w'(3) unfolding io_stays_def by blast
qed

lemma io_abort_loop_frame:
  "io_abort_loop dbg fin abort ks n w = Some (m, w') \<Longrightarrow> \<exists>x. w' = w\<lparr>io_outside := x\<rparr>"
proof (induction ks arbitrary: n w)
  case Nil
  then show ?case by (intro exI [of _ "io_outside w"]) simp
next
  case (Cons ka ks)
  then show ?case by (cases ka) (fastforce split: if_splits bind_splits)
qed

lemma io_stop_safe:
  assumes f: "io_waker_safe ac own f" and w: "io_ready ac w" and iter: "iterates iter"
  obtains rep w' where "io_stop_waking dbg ac tk iter f w = Some (rep, w')" "io_stays ac own w w'"
    "load (io_lifecycle_byte (io_state w')) = Stopping"
    "report_running rep = ac_get ac (active_tasks (io_state w))" "report_cancelled rep \<le> report_running rep"
proof -
  have free: "\<not> io_submission_lock (io_state w)" using w by (simp add: io_ready_def)
  define u where "u = w\<lparr>io_state := io_unlock_submission (io_state_stop ((io_state w)\<lparr>io_submission_lock := True\<rparr>))\<rparr>"
  obtain rep' v' where rep': "io_stop dbg ac tk iter w = Some (rep', v')" "report_cancelled rep' \<le> report_running rep'"
    using io_stop_spec [OF w iter, of dbg tk] by blast
  then obtain n v where v: "io_abort_tracked_tasks dbg iter (io_handle_is_finished tk) (io_abort tk) u = Some (n, v)"
    "rep' = \<lparr>report_queued = 0, report_running = ac_get ac (active_tasks (io_state w)), report_cancelled = n\<rparr>"
    using io_lock_unlock [OF free]
    by (auto simp: io_stop_def u_def Let_def io_state_stop_def split: bind_splits)
  then obtain x where x: "v = u\<lparr>io_state := (io_state u)\<lparr>io_abort_handles := Map.empty\<rparr>, io_outside := x\<rparr>"
    using io_abort_loop_frame by (fastforce simp: io_abort_tracked_tasks_def Let_def)
  let ?b = "stop_bits (io_lifecycle_byte (io_state w))"
  have b: "load ?b = Stopping" by (simp add: stop_bits_def load_def del: as_u8.simps)
  have eq: "v = w\<lparr>io_state := (io_state w)\<lparr>io_lifecycle_byte := ?b, io_abort_handles := Map.empty\<rparr>, io_outside := x\<rparr>"
    using free x unfolding u_def
    by (cases w, cases "io_state w") (simp add: io_unlock_submission_def io_state_stop_def)
  have wv: "io_stays ac own w v" unfolding eq by (rule io_close_stays [OF w]) (simp_all add: b)
  obtain y w' where w': "io_publish_waking f v = Some y" "io_notify_waking f y = Some w'" "io_stays ac own v w'"
    using io_notifications_safe [OF f io_stays_refl [OF io_stays_ready [OF wv]]] by blast
  have "io_stop_waking dbg ac tk iter f w = Some (rep', w')"
    using v w'(1,2) io_lock_unlock [OF free]
    by (simp add: io_stop_waking_def Let_def flip: u_def) (simp add: io_state_stop_def)
  moreover have "load (io_lifecycle_byte (io_state v)) = Stopping" by (simp add: eq b)
  then have "load (io_lifecycle_byte (io_state w')) = Stopping" using w'(3) by (simp add: io_stays_def)
  ultimately show ?thesis using that io_stays_trans [OF wv w'(3)] rep'(2) v(2) by auto
qed

end
