(* ===== verification/Io_Reentrant_Claims.thy ===== *)
theory Io_Reentrant_Claims
  imports Io_Reentrant_Safety
begin

text \<open>
  The wakers that may reenter the IO service, and what its operations do under them.
\<close>

section \<open>Wakers that reenter\<close>

text \<open>
  What runs on a thread of the service may do nothing, change what is outside, submit a future
  and accept either answer, drop a future it owns, close the service again, and combine these
  as it observes the service. Its own calls run such code in their turn; the nesting is
  finite. \<open>own\<close> are the guards it owns: what runs inside the drop of one owns it no longer. A
  new marker is allocated at an address without one.
\<close>

inductive io_reentrant ::
  "bool \<Rightarrow> 'n atomic_count \<Rightarrow> ('r, 'f, 'v, 'e, 'x) io_ops
   \<Rightarrow> ((usize \<rightharpoonup> 'r IoTrackedAbortHandle) \<Rightarrow> (usize \<times> 'r IoTrackedAbortHandle) list)
   \<Rightarrow> usize set \<Rightarrow> ('n, 'r, 'x) io_waker \<Rightarrow> bool"
  for dbg ac tk iter where
  io_wake_nothing: "io_reentrant dbg ac tk iter own Some"
| io_wake_outside: "io_reentrant dbg ac tk iter own (\<lambda>w. Some (w\<lparr>io_outside := h (io_outside w)\<rparr>))"
| io_wake_both: "io_reentrant dbg ac tk iter own f \<Longrightarrow> io_reentrant dbg ac tk iter own g \<Longrightarrow>
    io_reentrant dbg ac tk iter own (\<lambda>w. Option.bind (f w) g)"
| io_wake_observing: "io_reentrant dbg ac tk iter own f \<Longrightarrow> io_reentrant dbg ac tk iter own g \<Longrightarrow>
    io_reentrant dbg ac tk iter own (\<lambda>w. if b w then f w else g w)"
| io_wake_submit: "io_reentrant dbg ac tk iter own f \<Longrightarrow> addr \<notin> own \<Longrightarrow>
    io_reentrant dbg ac tk iter own (\<lambda>w. if io_registrations w addr = None
      then map_option snd (try_spawn_waking dbg ac tk f addr future w) else Some w)"
| io_wake_drop: "io_reentrant dbg ac tk iter (own - {k}) f \<Longrightarrow> k \<in> own \<Longrightarrow>
    io_reentrant dbg ac tk iter own (\<lambda>w. if k \<in> open_registrations w
      then guarded_drop_waking ac tk f (guarded_new future k) w else Some w)"
| io_wake_shutdown: "io_reentrant dbg ac tk iter own f \<Longrightarrow>
    io_reentrant dbg ac tk iter own (io_shutdown_waking f)"
| io_wake_stop: "io_reentrant dbg ac tk iter own f \<Longrightarrow>
    io_reentrant dbg ac tk iter own (\<lambda>w. map_option snd (io_stop_waking dbg ac tk iter f w))"

lemma owned_drop_safe:
  assumes "counts_atomically ac" and "io_waker_safe ac (own - {k}) f" and "k \<in> own" and "io_ready ac w"
    and "k \<in> open_registrations w"
  shows "\<exists>w'. guarded_drop_waking ac tk f (guarded_new future k) w = Some w' \<and> io_stays ac own w w'"
proof -
  obtain w' where "guarded_drop_waking ac tk f (guarded_new future k) w = Some w'"
    "io_stays ac (insert k (own - {k})) w w'"
    by (rule guarded_drop_safe [OF assms(1,2) io_stays_refl [OF assms(4)], of "guarded_new future k" tk])
      (use assms(5) in \<open>simp_all add: guarded_new_def\<close>)
  with assms(3) show ?thesis by (simp add: insert_absorb)
qed

lemma io_reentrant_safe:
  assumes "io_reentrant dbg ac tk iter own f" and ac: "counts_atomically ac" and iter: "iterates iter"
  shows "io_waker_safe ac own f"
  using assms(1)
proof induction
  case (io_wake_nothing own)
  show ?case by (rule io_wakers.nothing)
next
  case (io_wake_outside own h)
  show ?case by (rule io_wakers.changing) (simp add: outside_stays io_stays_refl)
next
  case (io_wake_both own f g)
  from io_wakers.both [OF io_wake_both.IH] show ?case .
next
  case (io_wake_observing own f g b)
  from keeping_observing [OF io_wake_observing.IH] show ?case .
next
  case (io_wake_submit own f addr future)
  show ?case
    by (rule keepingI, rule io_wakers.guarded_call, assumption, rule map_snd_call)
      (rule try_spawn_safe [OF ac io_wake_submit.IH _ _ io_wake_submit.hyps(2)])
next
  case (io_wake_drop own k f future)
  show ?case
    by (rule keepingI, rule io_wakers.guarded_call, assumption)
      (rule owned_drop_safe [OF ac io_wake_drop.IH io_wake_drop.hyps(2)])
next
  case (io_wake_shutdown own f)
  show ?case by (rule keepingI, rule io_shutdown_safe [OF io_wake_shutdown.IH]) auto
next
  case (io_wake_stop own f)
  show ?case by (rule keepingI, rule io_stop_safe [OF io_wake_stop.IH _ iter, of _ dbg tk]) auto
qed

section \<open>The property\<close>

text \<open>
  C11: Wakers and futures may reenter the IO service. Let what runs on its threads (wakers, a
  future that is polled, its destructor) call back into it: submit futures and have them
  accepted or refused, drop futures it owns, shut it down, stop it, to any finite depth. From
  every ready service, shutdown, stop, a poll, the drop of a future and a submission then
  return: no lock is taken twice and nothing panics. The service is left ready with its
  capacity; a close is not taken back, a stop leaves it stopping and reports the active
  futures it found and no more aborts than those; a future that returns or is dropped gives
  its slot back, and no other that the code does not own loses its own.
\<close>
theorem io_reentrant_wakers_return:
  assumes "counts_atomically ac" and "io_ready ac w" and "iterates iter" and "io_reentrant dbg ac tk iter own f"
  shows "(\<exists>w'. io_shutdown_waking f w = Some w' \<and> io_stays ac own w w' \<and> io_is_not_running (io_state w')) \<and>
    (\<exists>rep w'. io_stop_waking dbg ac tk iter f w = Some (rep, w') \<and> io_stays ac own w w' \<and>
      load (io_lifecycle_byte (io_state w')) = Stopping \<and>
      report_running rep = ac_get ac (active_tasks (io_state w)) \<and> report_cancelled rep \<le> report_running rep) \<and>
    (\<forall>k \<in> open_registrations w - own.
      (\<exists>w'. guarded_drop_waking ac tk f (guarded_new future k) w = Some w' \<and>
        io_stays ac (insert k own) w w' \<and> k \<notin> open_registrations w') \<and>
      (\<exists>polled task w'. poll_future_waking ac tk f (guarded_new future k) w = Some (polled, task, w') \<and>
        io_stays ac (insert k own) w w' \<and> (polled \<noteq> Some Pending \<longrightarrow> k \<notin> open_registrations w'))) \<and>
    (\<forall>addr. io_registrations w addr = None \<longrightarrow> addr \<notin> own \<longrightarrow>
      (\<exists>r w'. try_spawn_waking dbg ac tk f addr future w = Some (r, w') \<and> io_stays ac own w w'))"
  (is "?shutdown \<and> ?stop \<and> _ \<and> ?submit")
proof (intro conjI ballI)
  note f = io_reentrant_safe [OF assms(4,1,3)]
  show ?shutdown by (rule io_shutdown_safe [OF f assms(2)]) blast
  show ?stop by (rule io_stop_safe [OF f assms(2,3), of dbg tk]) blast
  show ?submit by (intro allI impI) (rule try_spawn_safe [OF assms(1) f assms(2)])
  fix k assume "k \<in> open_registrations w - own"
  then have k: "future_guard (guarded_new future k) \<in> open_registrations w" "future_guard (guarded_new future k) \<notin> own"
    "future_guard (guarded_new future k) = k" by (simp_all add: guarded_new_def)
  show "\<exists>w'. guarded_drop_waking ac tk f (guarded_new future k) w = Some w' \<and>
      io_stays ac (insert k own) w w' \<and> k \<notin> open_registrations w'"
    by (rule guarded_drop_safe [OF assms(1) f io_stays_refl [OF assms(2)] k(1,2), of tk]) (use k(3) in auto)
  show "\<exists>polled task w'. poll_future_waking ac tk f (guarded_new future k) w = Some (polled, task, w') \<and>
      io_stays ac (insert k own) w w' \<and> (polled \<noteq> Some Pending \<longrightarrow> k \<notin> open_registrations w')"
    by (rule poll_future_safe [OF assms(1) f assms(2) k(1,2), of tk]) (use k(3) in \<open>auto split: if_splits\<close>)
qed

text \<open>
  A future that is polled to its value shuts the service down and then spawns another one;
  so do its destructor and the wakers of the slot it gives back.
\<close>

theorem io_reentrant_wakers_return_witness:
  "\<exists>f polled task w'. io_reentrant True word_count demo_io_ops sorted_iter {} f \<and> f \<noteq> Some \<and>
     poll_future_waking word_count demo_io_ops f (guarded_new 1 16) demo_io_held = Some (polled, task, w') \<and>
     io_ready word_count w'"
proof -
  define f :: "(usize, nat, demo_io) io_waker" where
    "f = (\<lambda>w. Option.bind (io_shutdown_waking Some w) (\<lambda>w. if io_registrations w 32 = None
      then map_option snd (try_spawn_waking True word_count demo_io_ops Some 32 1 w) else Some w))"
  have f: "io_reentrant True word_count demo_io_ops sorted_iter {} f"
    unfolding f_def by (intro io_reentrant.intros) simp
  have "f (demo_io_held\<lparr>io_state := (io_state demo_io_held)\<lparr>io_submission_lock := True\<rparr>\<rparr>) = None"
    by (simp add: f_def io_shutdown_waking_def io_lock_submission_def)
  then have "f \<noteq> Some" by (metis option.distinct(1))
  moreover have "16 \<in> open_registrations demo_io_held - {}" using demo_io_held_facts(2) by simp
  note io_reentrant_wakers_return [OF word_count_ok demo_io_held_facts(1) iterates_sorted_iter f,
    THEN conjunct2, THEN conjunct2, THEN conjunct1, rule_format, OF this, THEN conjunct2, of 1]
  ultimately show ?thesis using f io_stays_ready by blast
qed

end
