(* ===== verification/Direct_Executor.thy ===== *)
theory Direct_Executor
  imports Blocking_Service
begin

text \<open>
  \<^verbatim>\<open>src/tokio_executor.rs\<close>: the executor without a service, which gives a callable and the
  slot of its tracked endpoint straight to the blocking pool of the runtime it is bound to.
  Spawning on a runtime is Tokio's, an argument; the endpoint and the runner are operations
  of \<open>tokio_ops\<close>. Nothing is admitted, counted or tracked.
\<close>

record 'rt TokioExecutor =
  executor_handle :: 'rt

definition executor_new :: "'rt \<Rightarrow> 'rt TokioExecutor" where
  "executor_new h = \<lparr>executor_handle = h\<rparr>"

text \<open>The closure given to \<^verbatim>\<open>spawn_blocking\<close> owns the callable and the slot.\<close>

definition executor_closure :: "('r, 't, 'x) tokio_ops \<Rightarrow> 't \<times> 'r \<Rightarrow> 'x \<Rightarrow> 'x" where
  "executor_closure tk task_slot x = (let (task, slot) = task_slot in runner_run tk task slot x)"

definition executor_call ::
  "('r, 't, 'x) tokio_ops \<Rightarrow> ('rt \<Rightarrow> 't \<times> 'r \<Rightarrow> 'x \<Rightarrow> 'x) \<Rightarrow> 'rt TokioExecutor \<Rightarrow> 't \<Rightarrow> 'x
   \<Rightarrow> (SubmissionError + 'r) \<times> 'x" where
  "executor_call tk spawn_on self task x =
     (let ((h, slot), x) = endpoint_tracked_parts tk x
      in (Inr h, spawn_on (executor_handle self) (task, slot) x))"

text \<open>
  Every callable is accepted, and exactly one closure goes to the bound runtime; run on the
  spot, it runs the callable with the slot of the returned handle.
\<close>

lemma executor_call_accepts:
  "endpoint_tracked_parts tk x = ((h, slot), y) \<Longrightarrow>
   executor_call tk spawn_on (executor_new rt) task x = (Inr h, spawn_on rt (task, slot) y)"
  by (simp add: executor_call_def executor_new_def)

lemma executor_call_runs_once:
  "endpoint_tracked_parts tk x = ((h, slot), y) \<Longrightarrow>
   executor_call tk (\<lambda>rt. executor_closure tk) (executor_new rt) task x = (Inr h, runner_run tk task slot y)"
  by (simp add: executor_call_accepts executor_closure_def)

end
