(* ===== verification/Spec2Isabelle.thy ===== *)
theory Spec2Isabelle
  imports Interleaving_Claims Blocking_Liveness Blocking_Call_Runs Blocking_Handoff Wait_Claims Io_Calls Io_Exits Io_Handoff
    Io_Claims Io_Liveness Io_Call_Runs Build_Profiles Retry_Client Reentrant_Claims
    Io_Reentrant_Claims Task_Handle Direct_Executor
begin

text \<open>
  A verification library of \<^verbatim>\<open>rs-tokio-executor\<close>, the executor services of
  \<^verbatim>\<open>qubit-tokio-executor\<close> on a Tokio runtime. File names below are under \<^verbatim>\<open>src/src/\<close>
  unless they say otherwise.

  \<^bold>\<open>The program.\<close> Two services admit work up to a capacity and close in an orderly way. The
  blocking service (\<^verbatim>\<open>tokio_executor_service.rs\<close>) runs closures on Tokio's blocking pool; the
  IO service (\<^verbatim>\<open>tokio_io_executor_service.rs\<close>) drives futures. In both, a submission takes the
  submission lock, checks the lifecycle and the capacity, counts the task, creates a marker
  and a guard, spawns a wrapper, tracks its abort handle, and releases the lock before the
  payload is delivered. The guard travels with the payload, and its drop ends the accounting
  on every way out: completion, panic, cancellation, a failed delivery, a runtime that shuts
  down. \<^verbatim>\<open>shutdown\<close> closes admission; \<^verbatim>\<open>stop\<close> also aborts what is tracked and reports what it
  found. Producers wait on a capacity channel, terminators on a monitor or a \<^verbatim>\<open>Notify\<close>. The
  direct executor (\<^verbatim>\<open>tokio_executor.rs\<close>) does none of this.

  \<^bold>\<open>Theories and sources.\<close>

  \<^item> \<open>Exec_Prelude\<close>: machine integers, atomic operations, build profiles, sums over maps.
  \<^item> \<open>Lifecycle_Bits\<close>: \<^verbatim>\<open>executor_service_lifecycle_bits.rs\<close>. \<open>Task_Counts\<close>:
    \<^verbatim>\<open>tokio_executor_task_counts.rs\<close>. \<open>Rejected_Task\<close>: \<^verbatim>\<open>rejected_task.rs\<close>. \<open>Task_Slot\<close>:
    \<^verbatim>\<open>tokio_task_slot_cancellation.rs\<close>.
  \<^item> \<open>Blocking_State\<close>: \<^verbatim>\<open>tokio_executor_service_state.rs\<close>, with the registration and the
    tracked abort handle. \<open>Task_Guard\<close>: \<^verbatim>\<open>tokio_service_task_guard.rs\<close> and its tracker.
  \<^item> \<open>Blocking_Service\<close>: the calls of the blocking service, \<open>Blocking_Service_Props\<close> and
    \<open>Blocking_Calls\<close> what each does and what any sequence of them keeps.
    \<open>Blocking_Handle\<close>: \<^verbatim>\<open>tokio_blocking_task_handle.rs\<close>. \<open>Blocking_Handoff\<close>: the test at the
    end of \<^verbatim>\<open>tokio_executor_service.rs\<close>, for every runtime.
  \<^item> \<open>Blocking_Interleaving\<close>: the same calls as threads of atomic steps; the invariants are in
    \<open>Interleaving_Invariants\<close> (locks, counters), \<open>Interleaving_Handles\<close> (abort handles,
    references, stop reports) and \<open>Interleaving_Waiters\<close> (the monitor, pending wake-ups); concrete
    runs are in \<open>Interleaving_Demo\<close>, the properties in \<open>Interleaving_Claims\<close>;
    \<open>Blocking_Call_Runs\<close>: the calls of \<open>Blocking_Service\<close> are runs of these threads.
    \<open>Blocking_Liveness\<close>: progress under strong fairness.
  \<^item> \<open>Wait_Timeout\<close>, \<open>Wait_Claims\<close>: \<^verbatim>\<open>wait_termination_timeout\<close>, alone and inside an execution.
  \<^item> \<open>Io_State\<close>: \<^verbatim>\<open>tokio_io_executor_service_state.rs\<close> and \<^verbatim>\<open>tokio_io_service_task_guard.rs\<close>.
    \<open>Io_Service\<close>: the IO service, \<^verbatim>\<open>tokio_io_spawn_handoff.rs\<close> and
    \<^verbatim>\<open>tokio_guarded_io_future.rs\<close>; \<open>Io_Calls\<close> its properties call by call; \<open>Io_Exits\<close> the exits
    of an accepted future, in their order; \<open>Io_Handoff\<close> the handoff test of \<^verbatim>\<open>tests/\<close>, for every
    runtime. \<open>Task_Handle\<close>: \<^verbatim>\<open>tokio_task_handle.rs\<close>.
  \<^item> \<open>Io_Interleaving\<close>, \<open>Io_Invariants\<close>, \<open>Io_Waiters\<close>, \<open>Io_Demo\<close>, \<open>Io_Claims\<close>: the IO service as
    threads, as for the blocking one. \<open>Io_Call_Runs\<close>: the calls of \<open>Io_Service\<close> are runs of
    these threads. \<open>Io_Liveness\<close>: progress under fairness.
  \<^item> \<open>Build_Profiles\<close>: the debug and the release build of both services.
  \<^item> \<open>Reentrant_Wakers\<close>, \<open>Io_Reentrant_Wakers\<close>: the operations with the code they run on their
    own thread, wakers, tasks and destructors (\<^verbatim>\<open>src/tests/reentrant_waker_tests.rs\<close>);
    \<open>Waker_Contract\<close> is what that code must keep, \<open>Reentrant_Safety\<close> and \<open>Io_Reentrant_Safety\<close>
    show that the operations then keep it, \<open>Reentrant_Claims\<close> and \<open>Io_Reentrant_Claims\<close> that code
    which calls back into the service does. The blocking model has the lock of the abort handles,
    under which one destructor runs: \<open>under_lock\<close> is what it may do, \<open>removed_handle_hangs\<close>
    what happens when it does more.
  \<^item> \<open>Retry_Client\<close>: the loops of the two programs under \<^verbatim>\<open>src/examples/\<close> that retry a task they
    cannot clone.
  \<^item> \<open>Bounded_Service\<close>, \<open>Fair_Progress\<close>: the interfaces (below). \<open>Direct_Executor\<close>:
    \<^verbatim>\<open>tokio_executor.rs\<close>.

  \<^bold>\<open>Two levels.\<close> A call-level operation is the run of one call that nothing interleaves with:
  explicit state passing over a world record (the service's shared state, the registrations
  and trackers behind its \<^verbatim>\<open>Arc\<close>s, the state outside the crate), \<open>None\<close> for a panic or a lock
  taken twice. A step relation takes the same operations apart into atomic accesses and
  critical sections of threads with program counters, and quantifies over every interleaving.
  Both use the same operations on the shared state, and every sequence of calls is a run of
  the threads (\<open>calls_are_runs\<close>, \<open>io_calls_are_runs\<close>).

  \<^bold>\<open>Interfaces.\<close> \<open>bounded_service\<close>, \<open>waitable_service\<close> and \<open>pool_service\<close> state what a service
  with a load, a limit and a closed flag promises; both interleaved services are
  interpretations (\<open>blocking\<close>, \<open>blocking_pool\<close>, \<open>io\<close>, \<open>io_wait\<close>), and finality of a close, stability
  of termination, wake-ups and the simulation of an abstract pool come from there.
  \<open>retrying\<close> is what a retry loop relies on, the return of a task that does not fit and the
  admission of one that does; the loop is followed once inside it, and the attempts at both
  services interpret it (\<open>callable\<close>, \<open>future\<close>).
  \<open>waker_contract\<close> is what a service asks of the wakers it runs and keeps when it is called by
  one (\<open>service_wakers\<close>, \<open>io_wakers\<close>).
  \<open>fair_system\<close> holds the rules for progress along fair executions, interpreted by \<open>svc_fair\<close> and
  \<open>io_fair\<close>. The blocking service needs strong fairness, since its monitor is a lock that other
  threads take and release again and again; the IO service needs weak fairness only.

  \<^bold>\<open>What is shown.\<close> Counters are exact and within the capacity under every interleaving, and
  bound the closures running and the futures alive; no interleaving panics; a close is final;
  no termination or capacity wake-up is lost; a cancelled task never runs and is counted once;
  stop reports are bounded, and exact without interference; both services refine one abstract
  pool; a rejected task comes back unrun; submission followed by a run or a cancellation
  restores the capacity; the wait with a timeout returns and its answer is right; whoever
  waits for a terminated service, in either way, returns in every (strongly) fair execution;
  debug and release builds are the same program; the task states and completion marks only
  move forward; a retry client keeps its task until it is admitted; an accepted future is dead
  before its slot is free; wakers, tasks and destructors may call back into the services from
  inside shutdown, stop, a submission, a cancellation, the run of a task, the poll of a future
  and the drop of a guard, to any finite depth, as long as what runs under the lock of the abort
  handles does not take it again; a stop between registration and delivery is safe in both
  services.

  \<^bold>\<open>Bounds and assumptions.\<close> \<^verbatim>\<open>usize\<close> has 64 bits. The flag \<open>dbg\<close> selects the build profile
  (debug assertions and overflow checks). The discriminants of the lifecycle enum are its
  positions in the decoder's table, as the decoder relies on. Memory is sequentially
  consistent. The iteration order of a \<^verbatim>\<open>HashMap\<close> is arbitrary, any permutation of its entries
  (\<open>iterates\<close>). An address is reused only after everything that refers to the old allocation is
  gone. The only recursion that is not structural is \<open>wait_loop\<close>, a \<open>partial_function\<close> shown to
  return; no definition uses fuel.

  \<^bold>\<open>Code outside the crate.\<close> Tokio's channels, spawning, abort and join handles, and the task
  endpoints, slots and runner of \<^verbatim>\<open>qubit_executor\<close> are fields of the records \<open>tokio_ops\<close>,
  \<open>io_ops\<close> and \<open>tracked_ops\<close>, on an outside state of any type. The atomic counter of the IO
  service is the record \<open>atomic_count\<close> with the laws \<open>counts_atomically\<close>; the bounded wait of the
  monitor is a field of \<open>waiting_world\<close> with the laws \<open>wait_contract\<close>; a wrapped cancellation
  endpoint acts on its task's state (\<open>shared_cancellation\<close>). An abort that was requested stays in
  force, and the handle of a task dropped for it joins with a cancellation (\<open>aborts_on_request\<close>);
  a channel hands a payload it took to the drop of its receiver (\<open>hands_over\<close>). In the interleaved models the
  monitor is a lock with parked threads, \<^verbatim>\<open>Notify\<close> wakes every \<^verbatim>\<open>Notified\<close> future that exists, and
  the capacity channel marks every receiver changed. Enums of other crates have the variants
  this crate names.

  \<^bold>\<open>Not modelled.\<close> Reentrant calls in the interleaved models, where a notification only makes
  threads ready; weak memory orderings; the panic of a user closure, which the runner catches;
  the example programs outside their retry loops. The module files only declare and re-export. The tests under \<^verbatim>\<open>src/tests/\<close>
  drive the services on a real runtime.
\<close>

end
